theory Spec2Isabelle
  imports Main "HOL-Library.Word"
begin

unbundle bit_operations_syntax

section \<open>Flows\<close>

text \<open>
  \<^verbatim>\<open>struct ovn_flow\<close>.  The match is an opaque value with an equality
  (\<^verbatim>\<open>minimatch_equal\<close>); the actions are the bytes of \<^verbatim>\<open>ofpacts\<close>
  (\<^verbatim>\<open>ofpacts_len\<close> is the length of the list).
\<close>

record 'm ovn_flow =
  table_id :: "8 word"
  priority :: "16 word"
  match :: 'm
  hash :: "32 word"
  ofpacts :: "8 word list"
  cookie :: "64 word"

text \<open>The key of a flow, as the two lookup functions compare it.\<close>

definition flow_key :: "'m ovn_flow \<Rightarrow> 8 word \<times> 16 word \<times> 'm" where
  "flow_key f = (table_id f, priority f, match f)"

text \<open>
  The hash functions \<^verbatim>\<open>hash_2words\<close> and \<^verbatim>\<open>minimatch_hash\<close> and the hash map
  (\<^verbatim>\<open>struct hmap\<close>) belong to the switch library; they are parameters of the model.

  A hash map is modelled by the list of its nodes, in the order in which a walk over the
  map meets them; a walk over one hash value meets the nodes of that hash in the same
  order.  \<^verbatim>\<open>hmap_insert\<close> adds a node and, when the map has grown enough, rehashes it, which
  rearranges the nodes: where the new node and the old ones stand afterwards is the
  library's business.  \<open>hmap_insert H xs x h\<close> is the list of the nodes after the node \<open>x\<close>
  has been inserted with the hash \<open>h\<close> into a map whose nodes are \<open>xs\<close>.
\<close>

record 'm ovs_hash =
  hash_2words :: "32 word \<Rightarrow> 32 word \<Rightarrow> 32 word"
  minimatch_hash :: "'m \<Rightarrow> 32 word \<Rightarrow> 32 word"
  hmap_insert :: "nat list \<Rightarrow> nat \<Rightarrow> 32 word \<Rightarrow> nat list"

definition ovn_flow_match_hash :: "'m ovs_hash \<Rightarrow> 8 word \<Rightarrow> 16 word \<Rightarrow> 'm \<Rightarrow> 32 word" where
  "ovn_flow_match_hash H tid prio m =
     hash_2words H (push_bit 16 (ucast tid) OR ucast prio) (minimatch_hash H m 0)"

definition ovn_flow_init ::
  "'m ovs_hash \<Rightarrow> 8 word \<Rightarrow> 16 word \<Rightarrow> 64 word \<Rightarrow> 'm \<Rightarrow> 8 word list \<Rightarrow> 'm ovn_flow" where
  "ovn_flow_init H tid prio ck m actions =
     \<lparr>table_id = tid, priority = prio, match = m,
      hash = ovn_flow_match_hash H tid prio m, ofpacts = actions, cookie = ck\<rparr>"

section \<open>Desired and installed flows\<close>

text \<open>
  Flows are heap objects that point at each other, so each kind lives in a store from
  addresses to objects.  The intrusive lists of the source (\<^verbatim>\<open>struct ovs_list\<close>) are
  lists of the objects they thread, in list order: \<^verbatim>\<open>ovs_list_insert\<close> on the list
  head appends, \<^verbatim>\<open>ovs_list_front\<close> is the first element.
\<close>

type_synonym dptr = nat
type_synonym iptr = nat
type_synonym uuid = "128 word"

text \<open>\<^verbatim>\<open>struct sb_flow_ref\<close>: one link between a desired flow and a source.\<close>

record sb_flow_ref =
  sfr_flow :: dptr
  sfr_sb_uuid :: uuid

text \<open>
  \<^verbatim>\<open>struct desired_flow\<close>: \<open>dflow\<close> is its \<^verbatim>\<open>flow\<close>, \<open>d_installed_flow\<close> its
  \<^verbatim>\<open>installed_flow\<close> pointer (\<open>None\<close> is \<^verbatim>\<open>NULL\<close>).
\<close>

record 'm desired_flow =
  dflow :: "'m ovn_flow"
  references :: "sb_flow_ref list"
  d_installed_flow :: "iptr option"

text \<open>
  \<^verbatim>\<open>struct installed_flow\<close>: \<open>iflow\<close> is its \<^verbatim>\<open>flow\<close>, \<open>i_desired_flow\<close> its
  \<^verbatim>\<open>desired_flow\<close> pointer, the flow that is actually installed.
\<close>

record 'm installed_flow =
  iflow :: "'m ovn_flow"
  desired_refs :: "dptr list"
  i_desired_flow :: "dptr option"

type_synonym 'm dheap = "dptr \<Rightarrow> 'm desired_flow option"
type_synonym 'm iheap = "iptr \<Rightarrow> 'm installed_flow option"

text \<open>\<^verbatim>\<open>struct sb_to_flow\<close>.\<close>

record sb_to_flow =
  stf_sb_uuid :: uuid
  flows :: "sb_flow_ref list"

text \<open>
  \<^verbatim>\<open>struct ovn_desired_flow_table\<close>, with the store of the desired flows it owns.  Each
  of its two hash maps is the list of its nodes in the order of a walk.  Several flows of
  \<^verbatim>\<open>match_flow_table\<close> may have one key, and which of them a lookup meets first depends
  on their order: insertion into this map is the library's \<open>hmap_insert\<close>.  The nodes of
  \<^verbatim>\<open>uuid_flow_table\<close> have distinct uuids, so \<^verbatim>\<open>sb_to_flow_find\<close> finds the same node
  whatever the order; the model puts a new node in front.  \<open>dnext\<close> is the next address
  \<^verbatim>\<open>xmalloc\<close> hands out.
\<close>

record 'm ovn_desired_flow_table =
  match_flow_table :: "dptr list"
  uuid_flow_table :: "sb_to_flow list"
  dheap :: "'m dheap"
  dnext :: dptr

section \<open>OpenFlow messages\<close>

datatype flow_mod_command = OFPFC_ADD | OFPFC_MODIFY_STRICT | OFPFC_DELETE | OFPFC_DELETE_STRICT

definition OFPTT_ALL :: "8 word" where
  "OFPTT_ALL = 0xff"

definition OFPG_ALL :: "32 word" where
  "OFPG_ALL = 0xfffffffc"

definition OFPG15_BUCKET_ALL :: "32 word" where
  "OFPG15_BUCKET_ALL = 0xffffffff"

definition OFPM13_ALL :: "32 word" where
  "OFPM13_ALL = 0xffffffff"

text \<open>
  \<^verbatim>\<open>struct ofputil_flow_mod\<close>, the fields this file sets.  \<open>fm_match = None\<close> is the
  catch-all match of \<^verbatim>\<open>minimatch_init_catchall\<close>.
\<close>

record 'm ofputil_flow_mod =
  fm_match :: "'m option"
  fm_priority :: "16 word"
  fm_table_id :: "8 word"
  fm_ofpacts :: "8 word list"
  fm_new_cookie :: "64 word"
  fm_modify_cookie :: bool
  fm_command :: flow_mod_command

datatype group_mod_command = OFPGC11_ADD | OFPGC11_DELETE

record ofputil_group_mod =
  gm_command :: group_mod_command
  gm_group_id :: "32 word"
  gm_command_bucket_id :: "32 word"
  gm_buckets :: string

datatype meter_mod_command = OFPMC13_ADD | OFPMC13_DELETE

record ofputil_meter_band =
  band_type :: "16 word"
  prec_level :: "8 word"
  rate :: "32 word"
  burst_size :: "32 word"

record ofputil_meter_mod =
  mm_command :: meter_mod_command
  mm_meter_id :: "32 word"
  mm_flags :: "16 word"
  mm_bands :: "ofputil_meter_band list"

text \<open>\<^verbatim>\<open>struct ofputil_tlv_map\<close>.\<close>

record ofputil_tlv_map =
  option_class :: "16 word"
  option_type :: "8 word"
  option_len :: "8 word"
  index :: "16 word"

datatype 'm ofp_body =
    NXT_TLV_TABLE_REQUEST
  | NXT_TLV_TABLE_MOD_ADD "ofputil_tlv_map list"
  | OFPT_BARRIER_REQUEST
  | OFPT_FLOW_MOD "'m ofputil_flow_mod"
  | OFPT_GROUP_MOD ofputil_group_mod
  | OFPT_METER_MOD ofputil_meter_mod
  | NXT_CT_FLUSH_ZONE "16 word"
  | OFPT_ECHO_REPLY

text \<open>An encoded message: its transaction id and what it says.\<close>

type_synonym 'm ofpbuf = "32 word \<times> 'm ofp_body"

text \<open>
  A received message, as the handlers read it: the header's xid, the result of
  \<^verbatim>\<open>ofptype_decode\<close>, the result of \<^verbatim>\<open>ofputil_decode_tlv_table_reply\<close> (\<open>None\<close>
  when it fails) and of \<^verbatim>\<open>ofperr_decode_msg\<close>.
\<close>

datatype ofptype =
    OFPTYPE_ECHO_REQUEST | OFPTYPE_ERROR | OFPTYPE_BARRIER_REPLY
  | OFPTYPE_NXT_TLV_TABLE_REPLY | OFPTYPE_OTHER

datatype ofperr = OFPERR_NXTTMFC_ALREADY_MAPPED | OFPERR_NXTTMFC_DUP_ENTRY | OFPERR_OTHER

record ofp_header =
  oh_xid :: "32 word"
  oh_type :: ofptype
  oh_tlv_mappings :: "ofputil_tlv_map list option"
  oh_error :: ofperr

section \<open>The engine\<close>

datatype ofctrl_state =
  S_NEW | S_TLV_TABLE_REQUESTED | S_TLV_TABLE_MOD_SENT | S_CLEAR_FLOWS | S_UPDATE_FLOWS

text \<open>\<^verbatim>\<open>struct ofctrl_flow_update\<close>.\<close>

record ofctrl_flow_update =
  fup_xid :: "32 word"
  fup_nb_cfg :: int

text \<open>
  Modelled from the spec: the extend table of groups and of meters, which the spec (4.4)
  describes as a desired set and an installed set of entries, each with a numeric table
  id and a name; its code is not part of this file.
\<close>

record ovn_extend_table_info =
  info_table_id :: "32 word"
  info_name :: string

record ovn_extend_table =
  desired :: "ovn_extend_table_info list"
  existing :: "ovn_extend_table_info list"

text \<open>
  The file's static variables.  \<open>version\<close> is what \<^verbatim>\<open>rconn_get_version(swconn)\<close>
  returns, \<open>conn_seqno\<close> what \<^verbatim>\<open>rconn_get_connection_seqno(swconn)\<close> returns,
  \<open>tx_counter\<close> what \<^verbatim>\<open>rconn_packet_counter_n_packets(tx_counter)\<close> returns, \<open>sent\<close>
  the messages handed to \<^verbatim>\<open>rconn_send\<close>, oldest first, and \<open>next_xid\<close> the counter of
  the library's \<^verbatim>\<open>alloc_xid\<close>.  \<open>skipped_last_time\<close> and \<open>old_nb_cfg\<close> are the static
  locals of \<^verbatim>\<open>ofctrl_put\<close>; \<open>inext\<close> is the next address \<^verbatim>\<open>xmalloc\<close> hands out for
  an installed flow.  \<open>installed_flows\<close> is the hash map of the installed flows, the list
  of its nodes in the order of a walk; \<^verbatim>\<open>ofctrl_put\<close> keeps one installed flow for a key,
  so a lookup finds the same flow whatever the order, and the model puts a new node in
  front (the order only decides in which order a walk queues its messages).
\<close>

record 'm engine =
  state :: ofctrl_state
  seqno :: "32 word"
  version :: int
  conn_seqno :: "32 word"
  tx_counter :: nat
  sent :: "'m ofpbuf list"
  next_xid :: "32 word"
  flow_updates :: "ofctrl_flow_update list"
  cur_cfg :: int
  xid :: "32 word"
  xid2 :: "32 word"
  installed_flows :: "iptr list"
  iheap :: "'m iheap"
  inext :: iptr
  groups :: "ovn_extend_table option"
  meters :: "ovn_extend_table option"
  mff_ovn_geneve :: nat
  need_reinstall_flows :: bool
  skipped_last_time :: bool
  old_nb_cfg :: int

text \<open>
  Encoding a message draws a fresh xid (\<^verbatim>\<open>alloc_xid\<close>); \<^verbatim>\<open>queue_msg\<close> hands the
  message to \<^verbatim>\<open>rconn_send\<close>, which counts it in \<^verbatim>\<open>tx_counter\<close>, and returns its xid.
\<close>

definition encode :: "'m engine \<Rightarrow> 'm ofp_body \<Rightarrow> 'm ofpbuf \<times> 'm engine" where
  "encode s b = ((next_xid s, b), s\<lparr>next_xid := next_xid s + 1\<rparr>)"

definition queue_msg :: "'m engine \<Rightarrow> 'm ofpbuf \<Rightarrow> 32 word \<times> 'm engine" where
  "queue_msg s msg = (fst msg, s\<lparr>sent := sent s @ [msg], tx_counter := Suc (tx_counter s)\<rparr>)"


definition ofctrl_can_put :: "'m engine \<Rightarrow> bool" where
  "ofctrl_can_put s =
     (if state s \<noteq> S_UPDATE_FLOWS \<or> tx_counter s \<noteq> 0 \<or> version s < 0 then False else True)"

text \<open>\<^verbatim>\<open>ofctrl_recv\<close>: the generic receive handler.\<close>

definition ofctrl_recv :: "'m engine \<Rightarrow> ofp_header \<Rightarrow> 'm engine" where
  "ofctrl_recv s oh =
     (if oh_type oh = OFPTYPE_ECHO_REQUEST
      then snd (queue_msg s (oh_xid oh, OFPT_ECHO_REPLY))
      else s)"

text \<open>
  \<^verbatim>\<open>ofctrl_init\<close>: the static variables start at zero, the connection is new (no
  version yet), and the two extend tables are the caller's.
\<close>

definition ofctrl_init ::
  "ovn_extend_table option \<Rightarrow> ovn_extend_table option \<Rightarrow> 'm engine" where
  "ofctrl_init group_table meter_table =
     \<lparr>state = S_NEW, seqno = 0, version = - 1, conn_seqno = 0, tx_counter = 0, sent = [],
      next_xid = 1, flow_updates = [], cur_cfg = 0, xid = 0, xid2 = 0,
      installed_flows = [], iheap = Map.empty, inext = 0,
      groups = group_table, meters = meter_table, mff_ovn_geneve = 0,
      need_reinstall_flows = False, skipped_last_time = False, old_nb_cfg = 0\<rparr>"

section \<open>The connection state machine\<close>

text \<open>
  The Geneve option's class, type and length and the field id of the first
  tunnel-metadata field are constants of headers outside this file; they are parameters.
\<close>

record ovn_consts =
  OVN_GENEVE_CLASS :: "16 word"
  OVN_GENEVE_TYPE :: "8 word"
  OVN_GENEVE_LEN :: "8 word"
  MFF_TUN_METADATA0 :: nat

definition TUN_METADATA_NUM_OPTS :: nat where
  "TUN_METADATA_NUM_OPTS = 64"

definition run_S_NEW :: "'m engine \<Rightarrow> 'm engine" where
  "run_S_NEW s =
     (let (buf, s1) = encode s NXT_TLV_TABLE_REQUEST;
          (x, s2) = queue_msg s1 buf
      in s2\<lparr>xid := x, state := S_TLV_TABLE_REQUESTED\<rparr>)"

text \<open>
  \<^verbatim>\<open>rightmost_1bit_idx\<close> of the switch library: the index of the lowest 1-bit of a
  64-bit value (the C function is undefined on 0; here it is 64).
\<close>

definition rightmost_1bit_idx :: "64 word \<Rightarrow> nat" where
  "rightmost_1bit_idx x = length (takeWhile (\<lambda>i. \<not> bit x i) [0..<64])"

definition is_ovn_geneve :: "ovn_consts \<Rightarrow> ofputil_tlv_map \<Rightarrow> bool" where
  "is_ovn_geneve c m \<longleftrightarrow>
     option_class m = OVN_GENEVE_CLASS c \<and> option_type m = OVN_GENEVE_TYPE c
     \<and> option_len m = OVN_GENEVE_LEN c"

text \<open>
  The loop of \<^verbatim>\<open>process_tlv_table_reply\<close> over the reply's mappings: it ends at the
  first mapping of OVN's option (with a supported index or not), or with the bitmap of
  the free indices.
\<close>

datatype tlv_scan = Tlv_found "16 word" | Tlv_unsupported | Tlv_free "64 word"

fun tlv_scan_mappings :: "ovn_consts \<Rightarrow> ofputil_tlv_map list \<Rightarrow> 64 word \<Rightarrow> tlv_scan" where
  "tlv_scan_mappings c [] md_free = Tlv_free md_free"
| "tlv_scan_mappings c (m # ms) md_free =
     (if is_ovn_geneve c m
      then (if TUN_METADATA_NUM_OPTS \<le> unat (index m) then Tlv_unsupported
            else Tlv_found (index m))
      else tlv_scan_mappings c ms
             (if unat (index m) < TUN_METADATA_NUM_OPTS
              then md_free AND NOT (push_bit (unat (index m)) 1)
              else md_free))"

definition process_tlv_table_reply ::
  "ovn_consts \<Rightarrow> 'm engine \<Rightarrow> ofputil_tlv_map list \<Rightarrow> bool \<times> 'm engine" where
  "process_tlv_table_reply c s mappings =
     (case tlv_scan_mappings c mappings (- 1) of
        Tlv_unsupported \<Rightarrow> (False, s)
      | Tlv_found idx \<Rightarrow>
          (True, s\<lparr>mff_ovn_geneve := MFF_TUN_METADATA0 c + unat idx, state := S_CLEAR_FLOWS\<rparr>)
      | Tlv_free md_free \<Rightarrow>
          if md_free = 0 then (False, s)
          else
            (let idx = rightmost_1bit_idx md_free;
                 s1 = s\<lparr>mff_ovn_geneve := MFF_TUN_METADATA0 c + idx\<rparr>;
                 tm = \<lparr>option_class = OVN_GENEVE_CLASS c, option_type = OVN_GENEVE_TYPE c,
                       option_len = OVN_GENEVE_LEN c, index = of_nat idx\<rparr>;
                 (m1, s2) = encode s1 (NXT_TLV_TABLE_MOD_ADD [tm]);
                 (x1, s3) = queue_msg s2 m1;
                 (m2, s4) = encode (s3\<lparr>xid := x1\<rparr>) OFPT_BARRIER_REQUEST;
                 (x2, s5) = queue_msg s4 m2
             in (True, s5\<lparr>xid2 := x2, state := S_TLV_TABLE_MOD_SENT\<rparr>)))"

text \<open>The error path at the end of \<^verbatim>\<open>recv_S_TLV_TABLE_REQUESTED\<close>.\<close>

definition tlv_error_path :: "'m engine \<Rightarrow> 'm engine" where
  "tlv_error_path s = s\<lparr>mff_ovn_geneve := 0, state := S_CLEAR_FLOWS\<rparr>"

definition recv_S_TLV_TABLE_REQUESTED :: "ovn_consts \<Rightarrow> 'm engine \<Rightarrow> ofp_header \<Rightarrow> 'm engine" where
  "recv_S_TLV_TABLE_REQUESTED c s oh =
     (if oh_xid oh \<noteq> xid s then ofctrl_recv s oh
      else if oh_type oh = OFPTYPE_NXT_TLV_TABLE_REPLY then
        (case oh_tlv_mappings oh of
           Some reply \<Rightarrow>
             (let (ok, s1) = process_tlv_table_reply c s reply
              in if ok then s1 else tlv_error_path s1)
         | None \<Rightarrow> tlv_error_path s)
      else tlv_error_path s)"

definition recv_S_TLV_TABLE_MOD_SENT :: "'m engine \<Rightarrow> ofp_header \<Rightarrow> 'm engine" where
  "recv_S_TLV_TABLE_MOD_SENT s oh =
     (if oh_xid oh \<noteq> xid s \<and> oh_xid oh \<noteq> xid2 s then ofctrl_recv s oh
      else if oh_xid oh = xid2 s \<and> oh_type oh = OFPTYPE_BARRIER_REPLY
        then s\<lparr>state := S_CLEAR_FLOWS\<rparr>
      else if oh_xid oh = xid s \<and> oh_type oh = OFPTYPE_ERROR then
        (if oh_error oh = OFPERR_NXTTMFC_ALREADY_MAPPED \<or> oh_error oh = OFPERR_NXTTMFC_DUP_ENTRY
         then s\<lparr>state := S_NEW\<rparr>
         else s\<lparr>state := S_CLEAR_FLOWS\<rparr>)
      else s\<lparr>state := S_CLEAR_FLOWS\<rparr>)"

text \<open>
  \<^verbatim>\<open>struct ct_zone_pending_entry\<close> of the caller, and the caller's table of them by
  zone name.
\<close>

datatype ct_zone_pending_state =
  CT_ZONE_OF_QUEUED | CT_ZONE_OF_SENT | CT_ZONE_DB_QUEUED | CT_ZONE_DB_SENT

record ct_zone_pending_entry =
  zone :: "16 word"
  of_xid :: "32 word"
  ct_state :: ct_zone_pending_state

type_synonym pending_ct_zones = "(string \<times> ct_zone_pending_entry) list"

definition ct_barrier_reply :: "32 word \<Rightarrow> ct_zone_pending_entry \<Rightarrow> ct_zone_pending_entry" where
  "ct_barrier_reply x ctzpe =
     (if ct_state ctzpe = CT_ZONE_OF_SENT \<and> of_xid ctzpe = x
      then ctzpe\<lparr>ct_state := CT_ZONE_DB_QUEUED\<rparr> else ctzpe)"

definition recv_S_UPDATE_FLOWS ::
  "'m engine \<Rightarrow> pending_ct_zones \<Rightarrow> ofp_header \<Rightarrow> 'm engine \<times> pending_ct_zones" where
  "recv_S_UPDATE_FLOWS s pending oh =
     (case flow_updates s of
        fup # rest \<Rightarrow>
          if oh_type oh = OFPTYPE_BARRIER_REPLY then
            (let s1 = (if fup_xid fup = oh_xid oh
                       then s\<lparr>cur_cfg := (if cur_cfg s \<le> fup_nb_cfg fup then fup_nb_cfg fup
                                           else cur_cfg s),
                              flow_updates := rest\<rparr>
                       else s)
             in (s1, map (\<lambda>(name, ctzpe). (name, ct_barrier_reply (oh_xid oh) ctzpe)) pending))
          else (ofctrl_recv s oh, pending)
      | [] \<Rightarrow> (ofctrl_recv s oh, pending))"

section \<open>Links between installed and desired flows\<close>

text \<open>
  A result of \<open>None\<close> is a failed \<^verbatim>\<open>ovs_assert\<close> (the process aborts) or the use of
  an address that holds no object.

  The list \<^verbatim>\<open>desired_refs\<close> of an installed flow is intrusive: a desired flow has one
  \<^verbatim>\<open>installed_ref_list_node\<close>, which \<^verbatim>\<open>link_installed_to_desired\<close> inserts before the
  head of the list (at its end) and \<^verbatim>\<open>unlink_installed_to_desired\<close> takes out. These two
  functions are the only ones that touch the node or \<^verbatim>\<open>d->installed_flow\<close>, and they
  change both together. \<^verbatim>\<open>ovs_list_insert\<close> of a node that is already on a list overwrites
  its \<^verbatim>\<open>prev\<close> and \<^verbatim>\<open>next\<close> and leaves a list that is no longer a list of the nodes
  inserted; a list of addresses cannot hold that result, so the model gives \<open>None\<close> for it.
\<close>

definition link_installed_to_desired ::
  "'m iheap \<Rightarrow> 'm dheap \<Rightarrow> iptr \<Rightarrow> dptr \<Rightarrow> ('m iheap \<times> 'm dheap) option" where
  "link_installed_to_desired ih dh i d =
     (case ih i of
        None \<Rightarrow> None
      | Some fi \<Rightarrow>
          if i_desired_flow fi = Some d then Some (ih, dh)
          else if desired_refs fi = [] \<and> i_desired_flow fi \<noteq> None then None
          else
            (case dh d of
               None \<Rightarrow> None
             | Some fd \<Rightarrow>
                 if d_installed_flow fd \<noteq> None \<or> d \<in> set (desired_refs fi) then None
                 else
                   Some (ih(i \<mapsto> fi\<lparr>desired_refs := desired_refs fi @ [d],
                                     i_desired_flow := (if desired_refs fi = [] then Some d
                                                        else i_desired_flow fi)\<rparr>),
                         dh(d \<mapsto> fd\<lparr>d_installed_flow := Some i\<rparr>))))"

definition unlink_installed_to_desired ::
  "'m iheap \<Rightarrow> 'm dheap \<Rightarrow> iptr \<Rightarrow> dptr \<Rightarrow> ('m iheap \<times> 'm dheap) option" where
  "unlink_installed_to_desired ih dh i d =
     (case ih i of
        None \<Rightarrow> None
      | Some fi \<Rightarrow>
          if i_desired_flow fi = None \<or> desired_refs fi = [] then None
          else
            (case dh d of
               None \<Rightarrow> None
             | Some fd \<Rightarrow>
                 if d_installed_flow fd \<noteq> Some i then None
                 else
                   (let refs = remove1 d (desired_refs fi)
                    in Some (ih(i \<mapsto> fi\<lparr>desired_refs := refs,
                                         i_desired_flow :=
                                           (if i_desired_flow fi = Some d
                                            then (case refs of [] \<Rightarrow> None | x # _ \<Rightarrow> Some x)
                                            else i_desired_flow fi)\<rparr>),
                             dh(d \<mapsto> fd\<lparr>d_installed_flow := None\<rparr>)))))"

text \<open>
  \<^verbatim>\<open>unlink_all_refs_for_installed_flow\<close>: the safe walk reads the next node before
  the body unlinks the current one, so it visits the references the list held at the
  start, in order.
\<close>

fun unlink_refs ::
  "'m iheap \<Rightarrow> 'm dheap \<Rightarrow> iptr \<Rightarrow> dptr list \<Rightarrow> ('m iheap \<times> 'm dheap) option" where
  "unlink_refs ih dh i [] = Some (ih, dh)"
| "unlink_refs ih dh i (d # ds) =
     (case unlink_installed_to_desired ih dh i d of
        None \<Rightarrow> None
      | Some (ih1, dh1) \<Rightarrow> unlink_refs ih1 dh1 i ds)"

definition unlink_all_refs_for_installed_flow ::
  "'m iheap \<Rightarrow> 'm dheap \<Rightarrow> iptr \<Rightarrow> ('m iheap \<times> 'm dheap) option" where
  "unlink_all_refs_for_installed_flow ih dh i =
     (case ih i of None \<Rightarrow> None | Some fi \<Rightarrow> unlink_refs ih dh i (desired_refs fi))"

definition installed_flow_destroy :: "'m iheap \<Rightarrow> iptr \<Rightarrow> 'm iheap option" where
  "installed_flow_destroy ih f =
     (case ih f of
        None \<Rightarrow> None
      | Some fi \<Rightarrow>
          if desired_refs fi \<noteq> [] \<or> i_desired_flow fi \<noteq> None then None
          else Some (ih(f := None)))"

definition installed_flow_dup :: "'m desired_flow \<Rightarrow> 'm installed_flow" where
  "installed_flow_dup src =
     \<lparr>iflow = \<lparr>table_id = table_id (dflow src), priority = priority (dflow src),
               match = match (dflow src), hash = hash (dflow src),
               ofpacts = ofpacts (dflow src), cookie = cookie (dflow src)\<rparr>,
      desired_refs = [], i_desired_flow = None\<rparr>"

text \<open>\<^verbatim>\<open>ovn_installed_flow_table_clear\<close>, a safe walk over \<^verbatim>\<open>installed_flows\<close>.\<close>

fun installed_flow_table_clear_loop ::
  "iptr list \<Rightarrow> 'm engine \<Rightarrow> 'm dheap \<Rightarrow> ('m engine \<times> 'm dheap) option" where
  "installed_flow_table_clear_loop [] s dh = Some (s, dh)"
| "installed_flow_table_clear_loop (f # fs) s dh =
     (let s1 = s\<lparr>installed_flows := remove1 f (installed_flows s)\<rparr>
      in case unlink_all_refs_for_installed_flow (iheap s1) dh f of
           None \<Rightarrow> None
         | Some (ih1, dh1) \<Rightarrow>
             (case installed_flow_destroy ih1 f of
                None \<Rightarrow> None
              | Some ih2 \<Rightarrow> installed_flow_table_clear_loop fs (s1\<lparr>iheap := ih2\<rparr>) dh1))"

definition ovn_installed_flow_table_clear ::
  "'m engine \<Rightarrow> 'm dheap \<Rightarrow> ('m engine \<times> 'm dheap) option" where
  "ovn_installed_flow_table_clear s dh = installed_flow_table_clear_loop (installed_flows s) s dh"

text \<open>
  Modelled from the spec: \<^verbatim>\<open>ovn_extend_table_clear\<close> is code of the extend table,
  outside this file; with \<^verbatim>\<open>existing = true\<close> it empties the installed set (spec 4.5:
  "locally clear installed flows, groups, meters"), otherwise the desired set.
\<close>

definition ovn_extend_table_clear :: "ovn_extend_table \<Rightarrow> bool \<Rightarrow> ovn_extend_table" where
  "ovn_extend_table_clear t ex = (if ex then t\<lparr>existing := []\<rparr> else t\<lparr>desired := []\<rparr>)"

definition fm_delete_all :: "'m ofputil_flow_mod" where
  "fm_delete_all =
     \<lparr>fm_match = None, fm_priority = 0, fm_table_id = OFPTT_ALL, fm_ofpacts = [],
      fm_new_cookie = 0, fm_modify_cookie = False, fm_command = OFPFC_DELETE\<rparr>"

definition gm_delete_all :: ofputil_group_mod where
  "gm_delete_all =
     \<lparr>gm_command = OFPGC11_DELETE, gm_group_id = OFPG_ALL,
      gm_command_bucket_id = OFPG15_BUCKET_ALL, gm_buckets = []\<rparr>"

definition mm_delete_all :: ofputil_meter_mod where
  "mm_delete_all =
     \<lparr>mm_command = OFPMC13_DELETE, mm_meter_id = OFPM13_ALL, mm_flags = 0, mm_bands = []\<rparr>"

text \<open>
  \<^verbatim>\<open>run_S_CLEAR_FLOWS\<close>.  The desired flows it unlinks are the caller's, reached
  through the installed flows' pointers: their store is an argument and a result.
\<close>

definition run_S_CLEAR_FLOWS :: "'m engine \<Rightarrow> 'm dheap \<Rightarrow> ('m engine \<times> 'm dheap) option" where
  "run_S_CLEAR_FLOWS s dh =
     (let s1 = s\<lparr>need_reinstall_flows := True\<rparr>;
          (m1, s2) = encode s1 (OFPT_FLOW_MOD fm_delete_all);
          (x1, s3) = queue_msg s2 m1;
          (m2, s4) = encode s3 (OFPT_GROUP_MOD gm_delete_all);
          (x2, s5) = queue_msg s4 m2
      in case ovn_installed_flow_table_clear s5 dh of
           None \<Rightarrow> None
         | Some (s6, dh1) \<Rightarrow>
             (let s7 = (case groups s6 of
                          None \<Rightarrow> s6
                        | Some g \<Rightarrow> s6\<lparr>groups := Some (ovn_extend_table_clear g True)\<rparr>);
                  (m3, s8) = encode s7 (OFPT_METER_MOD mm_delete_all);
                  (x3, s9) = queue_msg s8 m3;
                  s10 = (case meters s9 of
                           None \<Rightarrow> s9
                         | Some m \<Rightarrow> s9\<lparr>meters := Some (ovn_extend_table_clear m True)\<rparr>)
              in Some (s10\<lparr>flow_updates := [], state := S_UPDATE_FLOWS\<rparr>, dh1)))"

section \<open>The desired flow table\<close>

text \<open>\<^verbatim>\<open>ovn_desired_flow_table_init\<close>: two empty indexes, and no desired flow allocated.\<close>

definition ovn_desired_flow_table_init :: "'m ovn_desired_flow_table" where
  "ovn_desired_flow_table_init =
     \<lparr>match_flow_table = [], uuid_flow_table = [], dheap = Map.empty, dnext = 0\<rparr>"

fun sb_to_flow_find :: "sb_to_flow list \<Rightarrow> uuid \<Rightarrow> sb_to_flow option" where
  "sb_to_flow_find [] sb_uuid = None"
| "sb_to_flow_find (stf # rest) sb_uuid =
     (if sb_uuid = stf_sb_uuid stf then Some stf else sb_to_flow_find rest sb_uuid)"

text \<open>The node \<^verbatim>\<open>sb_to_flow_find\<close> returns, with one more link at the end of its list.\<close>

fun sb_to_flow_insert :: "sb_to_flow list \<Rightarrow> uuid \<Rightarrow> sb_flow_ref \<Rightarrow> sb_to_flow list" where
  "sb_to_flow_insert [] sb_uuid sfr = []"
| "sb_to_flow_insert (stf # rest) sb_uuid sfr =
     (if sb_uuid = stf_sb_uuid stf then stf\<lparr>flows := flows stf @ [sfr]\<rparr> # rest
      else stf # sb_to_flow_insert rest sb_uuid sfr)"

definition link_flow_to_sb ::
  "'m ovn_desired_flow_table \<Rightarrow> dptr \<Rightarrow> uuid \<Rightarrow> 'm ovn_desired_flow_table" where
  "link_flow_to_sb flow_table f sb_uuid =
     (let sfr = \<lparr>sfr_flow = f, sfr_sb_uuid = sb_uuid\<rparr>;
          t1 = flow_table\<lparr>dheap := (dheap flow_table)
                 (f := map_option (\<lambda>fd. fd\<lparr>references := references fd @ [sfr]\<rparr>)
                         (dheap flow_table f))\<rparr>
      in case sb_to_flow_find (uuid_flow_table t1) sb_uuid of
           None \<Rightarrow>
             t1\<lparr>uuid_flow_table :=
                   \<lparr>stf_sb_uuid = sb_uuid, flows = [sfr]\<rparr> # uuid_flow_table t1\<rparr>
         | Some stf \<Rightarrow>
             t1\<lparr>uuid_flow_table := sb_to_flow_insert (uuid_flow_table t1) sb_uuid sfr\<rparr>)"

text \<open>
  \<^verbatim>\<open>desired_flow_alloc\<close> builds the candidate flow.  The candidate gets its address
  when it enters the table (\<open>desired_flow_insert\<close>: the \<^verbatim>\<open>hmap_insert\<close> into
  \<^verbatim>\<open>match_flow_table\<close>); a candidate that is dropped never does.
\<close>

definition desired_flow_alloc ::
  "'m ovs_hash \<Rightarrow> 8 word \<Rightarrow> 16 word \<Rightarrow> 64 word \<Rightarrow> 'm \<Rightarrow> 8 word list \<Rightarrow> 'm desired_flow" where
  "desired_flow_alloc H tid prio ck m actions =
     \<lparr>dflow = ovn_flow_init H tid prio ck m actions, references = [], d_installed_flow = None\<rparr>"

definition desired_flow_insert ::
  "'m ovs_hash \<Rightarrow> 'm ovn_desired_flow_table \<Rightarrow> 'm desired_flow
     \<Rightarrow> dptr \<times> 'm ovn_desired_flow_table" where
  "desired_flow_insert H flow_table f =
     (dnext flow_table,
      flow_table\<lparr>match_flow_table :=
                   hmap_insert H (match_flow_table flow_table) (dnext flow_table)
                            (hash (dflow f)),
                 dheap := (dheap flow_table)(dnext flow_table \<mapsto> f),
                 dnext := Suc (dnext flow_table)\<rparr>)"

text \<open>
  \<^verbatim>\<open>desired_flow_lookup\<close>: the walk over the nodes with the target's hash; \<open>None\<close>
  for \<open>sb_uuid\<close> is the \<^verbatim>\<open>NULL\<close> argument.
\<close>

fun desired_flow_lookup_walk ::
  "'m dheap \<Rightarrow> dptr list \<Rightarrow> 'm ovn_flow \<Rightarrow> uuid option \<Rightarrow> dptr option" where
  "desired_flow_lookup_walk dh [] target sb_uuid = None"
| "desired_flow_lookup_walk dh (d # ds) target sb_uuid =
     (case dh d of
        None \<Rightarrow> desired_flow_lookup_walk dh ds target sb_uuid
      | Some fd \<Rightarrow>
          if hash (dflow fd) = hash target
             \<and> table_id (dflow fd) = table_id target
             \<and> priority (dflow fd) = priority target
             \<and> match (dflow fd) = match target
             \<and> (case sb_uuid of
                   None \<Rightarrow> True
                 | Some u \<Rightarrow> \<exists>sfr \<in> set (references fd). u = sfr_sb_uuid sfr)
          then Some d
          else desired_flow_lookup_walk dh ds target sb_uuid)"

definition desired_flow_lookup ::
  "'m ovn_desired_flow_table \<Rightarrow> 'm ovn_flow \<Rightarrow> uuid option \<Rightarrow> dptr option" where
  "desired_flow_lookup flow_table target sb_uuid =
     desired_flow_lookup_walk (dheap flow_table) (match_flow_table flow_table) target sb_uuid"

fun installed_flow_lookup_walk :: "'m iheap \<Rightarrow> iptr list \<Rightarrow> 'm ovn_flow \<Rightarrow> iptr option" where
  "installed_flow_lookup_walk ih [] target = None"
| "installed_flow_lookup_walk ih (i # is) target =
     (case ih i of
        None \<Rightarrow> installed_flow_lookup_walk ih is target
      | Some fi \<Rightarrow>
          if hash (iflow fi) = hash target
             \<and> table_id (iflow fi) = table_id target
             \<and> priority (iflow fi) = priority target
             \<and> match (iflow fi) = match target
          then Some i
          else installed_flow_lookup_walk ih is target)"

definition installed_flow_lookup :: "'m engine \<Rightarrow> 'm ovn_flow \<Rightarrow> iptr option" where
  "installed_flow_lookup s target = installed_flow_lookup_walk (iheap s) (installed_flows s) target"

definition ofctrl_check_and_add_flow ::
  "'m ovs_hash \<Rightarrow> 'm ovn_desired_flow_table \<Rightarrow> 8 word \<Rightarrow> 16 word \<Rightarrow> 64 word \<Rightarrow> 'm
     \<Rightarrow> 8 word list \<Rightarrow> uuid \<Rightarrow> bool \<Rightarrow> 'm ovn_desired_flow_table" where
  "ofctrl_check_and_add_flow H flow_table tid prio ck m actions sb_uuid log_duplicate_flow =
     (let f = desired_flow_alloc H tid prio ck m actions
      in if desired_flow_lookup flow_table (dflow f) (Some sb_uuid) \<noteq> None then flow_table
         else (let (p, t1) = desired_flow_insert H flow_table f
               in link_flow_to_sb t1 p sb_uuid))"

definition ofctrl_add_flow ::
  "'m ovs_hash \<Rightarrow> 'm ovn_desired_flow_table \<Rightarrow> 8 word \<Rightarrow> 16 word \<Rightarrow> 64 word \<Rightarrow> 'm
     \<Rightarrow> 8 word list \<Rightarrow> uuid \<Rightarrow> 'm ovn_desired_flow_table" where
  "ofctrl_add_flow H desired_flows tid prio ck m actions sb_uuid =
     ofctrl_check_and_add_flow H desired_flows tid prio ck m actions sb_uuid True"

definition ofctrl_add_or_append_flow ::
  "'m ovs_hash \<Rightarrow> 'm ovn_desired_flow_table \<Rightarrow> 8 word \<Rightarrow> 16 word \<Rightarrow> 64 word \<Rightarrow> 'm
     \<Rightarrow> 8 word list \<Rightarrow> uuid \<Rightarrow> 'm ovn_desired_flow_table" where
  "ofctrl_add_or_append_flow H desired_flows tid prio ck m actions sb_uuid =
     (let f = desired_flow_alloc H tid prio ck m actions
      in case desired_flow_lookup desired_flows (dflow f) None of
           Some ex \<Rightarrow>
             link_flow_to_sb
               (desired_flows\<lparr>dheap := (dheap desired_flows)
                  (ex := map_option
                     (\<lambda>fd. fd\<lparr>dflow := (dflow fd)\<lparr>ofpacts := ofpacts (dflow fd) @ ofpacts (dflow f)\<rparr>\<rparr>)
                     (dheap desired_flows ex))\<rparr>)
               ex sb_uuid
         | None \<Rightarrow>
             (let (p, t1) = desired_flow_insert H desired_flows f
              in link_flow_to_sb t1 p sb_uuid))"

section \<open>The reconciler\<close>

text \<open>
  The parsers of group and meter strings belong to the switch library; they are
  parameters.  Each stands for the formatting of its string (\<^verbatim>\<open>xasprintf\<close>) followed
  by the parse: it takes the values that are formatted and returns the parsed message,
  or \<open>None\<close> when the parser reports an error.
\<close>

record ofp_lib =
  parse_ofp_group_mod_str :: "group_mod_command \<Rightarrow> 32 word \<Rightarrow> string \<Rightarrow> ofputil_group_mod option"
  parse_ofp_meter_mod_str :: "32 word \<Rightarrow> string \<Rightarrow> ofputil_meter_mod option"

text \<open>Rows of the southbound meter table, as \<^verbatim>\<open>add_meter\<close> reads them.\<close>

record sbrec_meter_band =
  sb_band_action :: string
  sb_band_rate :: int
  sb_band_burst_size :: int

record sbrec_meter =
  sb_meter_name :: string
  sb_meter_unit :: string
  sb_meter_bands :: "sbrec_meter_band list"

definition OFPMF13_KBPS :: "16 word" where
  "OFPMF13_KBPS = 1"

definition OFPMF13_PKTPS :: "16 word" where
  "OFPMF13_PKTPS = 2"

definition OFPMF13_BURST :: "16 word" where
  "OFPMF13_BURST = 4"

definition OFPMF13_STATS :: "16 word" where
  "OFPMF13_STATS = 8"

definition OFPMBT13_DROP :: "16 word" where
  "OFPMBT13_DROP = 1"

definition add_flow_mod ::
  "'m engine \<Rightarrow> 'm ofputil_flow_mod \<Rightarrow> 'm ofpbuf list \<Rightarrow> 'm engine \<times> 'm ofpbuf list" where
  "add_flow_mod s fm msgs = (let (msg, s1) = encode s (OFPT_FLOW_MOD fm) in (s1, msgs @ [msg]))"

definition add_group_mod ::
  "'m engine \<Rightarrow> ofputil_group_mod \<Rightarrow> 'm ofpbuf list \<Rightarrow> 'm engine \<times> 'm ofpbuf list" where
  "add_group_mod s gm msgs = (let (msg, s1) = encode s (OFPT_GROUP_MOD gm) in (s1, msgs @ [msg]))"

definition add_meter_mod ::
  "'m engine \<Rightarrow> ofputil_meter_mod \<Rightarrow> 'm ofpbuf list \<Rightarrow> 'm engine \<times> 'm ofpbuf list" where
  "add_meter_mod s mm msgs = (let (msg, s1) = encode s (OFPT_METER_MOD mm) in (s1, msgs @ [msg]))"

definition add_ct_flush_zone ::
  "'m engine \<Rightarrow> 16 word \<Rightarrow> 'm ofpbuf list \<Rightarrow> 'm engine \<times> 'm ofpbuf list" where
  "add_ct_flush_zone s zone_id msgs =
     (let (msg, s1) = encode s (NXT_CT_FLUSH_ZONE zone_id) in (s1, msgs @ [msg]))"

definition add_meter_string ::
  "ofp_lib \<Rightarrow> 'm engine \<Rightarrow> ovn_extend_table_info \<Rightarrow> 'm ofpbuf list \<Rightarrow> 'm engine \<times> 'm ofpbuf list" where
  "add_meter_string L s m_desired msgs =
     (case parse_ofp_meter_mod_str L (info_table_id m_desired) (drop 52 (info_name m_desired)) of
        Some mm \<Rightarrow> add_meter_mod s mm msgs
      | None \<Rightarrow> (s, msgs))"

definition add_meter ::
  "'m engine \<Rightarrow> ovn_extend_table_info \<Rightarrow> sbrec_meter list \<Rightarrow> 'm ofpbuf list
     \<Rightarrow> 'm engine \<times> 'm ofpbuf list" where
  "add_meter s m_desired meter_table msgs =
     (case find (\<lambda>sb_meter. info_name m_desired = sb_meter_name sb_meter) meter_table of
        None \<Rightarrow> (s, msgs)
      | Some sb_meter \<Rightarrow>
          (let bands =
                 map (\<lambda>sb_band.
                        \<lparr>band_type = (if sb_band_action sb_band = ''drop'' then OFPMBT13_DROP else 0),
                         prec_level = 0,
                         rate = word_of_int (sb_band_rate sb_band),
                         burst_size = word_of_int (sb_band_burst_size sb_band)\<rparr>)
                     (sb_meter_bands sb_meter);
               flags0 = OFPMF13_STATS
                          OR (if sb_meter_unit sb_meter = ''pktps'' then OFPMF13_PKTPS
                              else OFPMF13_KBPS);
               flags1 = (if \<exists>b \<in> set bands. burst_size b \<noteq> 0 then flags0 OR OFPMF13_BURST
                         else flags0)
           in add_meter_mod s
                \<lparr>mm_command = OFPMC13_ADD, mm_meter_id = info_table_id m_desired,
                 mm_flags = flags1, mm_bands = bands\<rparr>
                msgs))"

definition installed_flow_add :: "'m ovn_flow \<Rightarrow> 'm ofputil_flow_mod" where
  "installed_flow_add d =
     \<lparr>fm_match = Some (match d), fm_priority = priority d, fm_table_id = table_id d,
      fm_ofpacts = ofpacts d, fm_new_cookie = cookie d, fm_modify_cookie = False,
      fm_command = OFPFC_ADD\<rparr>"

text \<open>
  \<^verbatim>\<open>installed_flow_mod\<close>: the message, and the installed flow at address \<open>i\<close> with
  the desired flow's actions and cookie.
\<close>

definition installed_flow_mod_msg :: "'m ovn_flow \<Rightarrow> 'm ovn_flow \<Rightarrow> 'm ofputil_flow_mod" where
  "installed_flow_mod_msg fi d =
     (if cookie fi \<noteq> cookie d
      then \<lparr>fm_match = Some (match fi), fm_priority = priority fi, fm_table_id = table_id fi,
            fm_ofpacts = ofpacts d, fm_new_cookie = cookie d, fm_modify_cookie = True,
            fm_command = OFPFC_ADD\<rparr>
      else \<lparr>fm_match = Some (match fi), fm_priority = priority fi, fm_table_id = table_id fi,
            fm_ofpacts = ofpacts d, fm_new_cookie = 0, fm_modify_cookie = False,
            fm_command = OFPFC_MODIFY_STRICT\<rparr>)"

definition installed_flow_mod ::
  "'m engine \<Rightarrow> iptr \<Rightarrow> 'm installed_flow \<Rightarrow> 'm ovn_flow \<Rightarrow> 'm ofpbuf list
     \<Rightarrow> 'm engine \<times> 'm ofpbuf list" where
  "installed_flow_mod s i fi d msgs =
     (let (s1, msgs1) = add_flow_mod s (installed_flow_mod_msg (iflow fi) d) msgs
      in (s1\<lparr>iheap := (iheap s1)
                (i \<mapsto> fi\<lparr>iflow := (iflow fi)\<lparr>ofpacts := ofpacts d, cookie := cookie d\<rparr>\<rparr>)\<rparr>,
          msgs1))"

definition installed_flow_del :: "'m ovn_flow \<Rightarrow> 'm ofputil_flow_mod" where
  "installed_flow_del fi =
     \<lparr>fm_match = Some (match fi), fm_priority = priority fi, fm_table_id = table_id fi,
      fm_ofpacts = [], fm_new_cookie = 0, fm_modify_cookie = False,
      fm_command = OFPFC_DELETE_STRICT\<rparr>"

text \<open>The first loop of \<^verbatim>\<open>ofctrl_put\<close>: the zones whose flush is queued.\<close>

fun put_ct_flush ::
  "pending_ct_zones \<Rightarrow> 'm engine \<Rightarrow> 'm ofpbuf list
     \<Rightarrow> pending_ct_zones \<times> 'm engine \<times> 'm ofpbuf list" where
  "put_ct_flush [] s msgs = ([], s, msgs)"
| "put_ct_flush ((name, ctzpe) # rest) s msgs =
     (if ct_state ctzpe = CT_ZONE_OF_QUEUED
      then (let (s1, msgs1) = add_ct_flush_zone s (zone ctzpe) msgs;
                (rest1, s2, msgs2) = put_ct_flush rest s1 msgs1
            in ((name, ctzpe\<lparr>ct_state := CT_ZONE_OF_SENT, of_xid := 0\<rparr>) # rest1, s2, msgs2))
      else (let (rest1, s2, msgs2) = put_ct_flush rest s msgs
            in ((name, ctzpe) # rest1, s2, msgs2)))"

text \<open>
  Modelled from the spec: the walks over an extend table (spec 4.4 and 4.6) visit the
  desired entries that are not installed, and the installed entries that are no longer
  desired; \<^verbatim>\<open>ovn_extend_table_remove_existing\<close> drops an entry from the installed
  set, and \<^verbatim>\<open>ovn_extend_table_sync\<close> promotes the desired entries to the installed set.
\<close>

definition extend_table_uninstalled :: "ovn_extend_table \<Rightarrow> ovn_extend_table_info list" where
  "extend_table_uninstalled t = filter (\<lambda>e. e \<notin> set (existing t)) (desired t)"

definition extend_table_installed :: "ovn_extend_table \<Rightarrow> ovn_extend_table_info list" where
  "extend_table_installed t = filter (\<lambda>e. e \<notin> set (desired t)) (existing t)"

definition ovn_extend_table_remove_existing ::
  "ovn_extend_table \<Rightarrow> ovn_extend_table_info \<Rightarrow> ovn_extend_table" where
  "ovn_extend_table_remove_existing t e = t\<lparr>existing := remove1 e (existing t)\<rparr>"

definition ovn_extend_table_sync :: "ovn_extend_table \<Rightarrow> ovn_extend_table" where
  "ovn_extend_table_sync t = t\<lparr>existing := existing t @ extend_table_uninstalled t\<rparr>"

fun put_add_groups ::
  "ofp_lib \<Rightarrow> ovn_extend_table_info list \<Rightarrow> 'm engine \<Rightarrow> 'm ofpbuf list
     \<Rightarrow> 'm engine \<times> 'm ofpbuf list" where
  "put_add_groups L [] s msgs = (s, msgs)"
| "put_add_groups L (g # rest) s msgs =
     (case parse_ofp_group_mod_str L OFPGC11_ADD (info_table_id g) (info_name g) of
        Some gm \<Rightarrow> (let (s1, msgs1) = add_group_mod s gm msgs in put_add_groups L rest s1 msgs1)
      | None \<Rightarrow> put_add_groups L rest s msgs)"

fun put_add_meters ::
  "ofp_lib \<Rightarrow> sbrec_meter list \<Rightarrow> ovn_extend_table_info list \<Rightarrow> 'm engine \<Rightarrow> 'm ofpbuf list
     \<Rightarrow> 'm engine \<times> 'm ofpbuf list" where
  "put_add_meters L meter_table [] s msgs = (s, msgs)"
| "put_add_meters L meter_table (m_desired # rest) s msgs =
     (let (s1, msgs1) =
            (if take 10 (info_name m_desired) = ''__string: ''
             then add_meter_string L s m_desired msgs
             else add_meter s m_desired meter_table msgs)
      in put_add_meters L meter_table rest s1 msgs1)"

fun put_del_groups ::
  "ofp_lib \<Rightarrow> ovn_extend_table_info list \<Rightarrow> ovn_extend_table \<Rightarrow> 'm engine \<Rightarrow> 'm ofpbuf list
     \<Rightarrow> ovn_extend_table \<times> 'm engine \<times> 'm ofpbuf list" where
  "put_del_groups L [] tab s msgs = (tab, s, msgs)"
| "put_del_groups L (g # rest) tab s msgs =
     (let (s1, msgs1) =
            (case parse_ofp_group_mod_str L OFPGC11_DELETE (info_table_id g) [] of
               Some gm \<Rightarrow> add_group_mod s gm msgs
             | None \<Rightarrow> (s, msgs))
      in put_del_groups L rest (ovn_extend_table_remove_existing tab g) s1 msgs1)"

fun put_del_meters ::
  "ovn_extend_table_info list \<Rightarrow> ovn_extend_table \<Rightarrow> 'm engine \<Rightarrow> 'm ofpbuf list
     \<Rightarrow> ovn_extend_table \<times> 'm engine \<times> 'm ofpbuf list" where
  "put_del_meters [] tab s msgs = (tab, s, msgs)"
| "put_del_meters (m # rest) tab s msgs =
     (let (s1, msgs1) =
            add_meter_mod s
              \<lparr>mm_command = OFPMC13_DELETE, mm_meter_id = info_table_id m, mm_flags = 0,
               mm_bands = []\<rparr>
              msgs
      in put_del_meters rest (ovn_extend_table_remove_existing tab m) s1 msgs1)"

text \<open>
  The body of the walk over the installed flows, for the installed flow at \<open>i\<close>.
\<close>

definition put_installed_step ::
  "'m engine \<Rightarrow> 'm ovn_desired_flow_table \<Rightarrow> iptr \<Rightarrow> 'm ofpbuf list
     \<Rightarrow> ('m engine \<times> 'm ovn_desired_flow_table \<times> 'm ofpbuf list) option" where
  "put_installed_step s t i msgs =
     (case unlink_all_refs_for_installed_flow (iheap s) (dheap t) i of
        None \<Rightarrow> None
      | Some (ih1, dh1) \<Rightarrow>
          (let s1 = s\<lparr>iheap := ih1\<rparr>; t1 = t\<lparr>dheap := dh1\<rparr>
           in case ih1 i of
                None \<Rightarrow> None
              | Some fi \<Rightarrow>
                  (case desired_flow_lookup t1 (iflow fi) None of
                     None \<Rightarrow>
                       (let (s2, msgs2) = add_flow_mod s1 (installed_flow_del (iflow fi)) msgs;
                            s3 = s2\<lparr>installed_flows := remove1 i (installed_flows s2)\<rparr>
                        in case installed_flow_destroy (iheap s3) i of
                             None \<Rightarrow> None
                           | Some ih4 \<Rightarrow> Some (s3\<lparr>iheap := ih4\<rparr>, t1, msgs2))
                   | Some d \<Rightarrow>
                       (case dh1 d of
                          None \<Rightarrow> None
                        | Some fd \<Rightarrow>
                            (let (s2, msgs2) =
                                   (if ofpacts (iflow fi) \<noteq> ofpacts (dflow fd)
                                       \<or> cookie (iflow fi) \<noteq> cookie (dflow fd)
                                    then installed_flow_mod s1 i fi (dflow fd) msgs
                                    else (s1, msgs))
                             in case link_installed_to_desired (iheap s2) dh1 i d of
                                  None \<Rightarrow> None
                                | Some (ih3, dh3) \<Rightarrow>
                                    Some (s2\<lparr>iheap := ih3\<rparr>, t1\<lparr>dheap := dh3\<rparr>, msgs2))))))"

text \<open>
  The walk over the installed flows: a safe walk over the flows \<^verbatim>\<open>installed_flows\<close>
  holds when it starts.
\<close>

fun put_installed_loop ::
  "iptr list \<Rightarrow> 'm engine \<Rightarrow> 'm ovn_desired_flow_table \<Rightarrow> 'm ofpbuf list
     \<Rightarrow> ('m engine \<times> 'm ovn_desired_flow_table \<times> 'm ofpbuf list) option" where
  "put_installed_loop [] s t msgs = Some (s, t, msgs)"
| "put_installed_loop (i # rest) s t msgs =
     (case put_installed_step s t i msgs of
        None \<Rightarrow> None
      | Some (s1, t1, msgs1) \<Rightarrow> put_installed_loop rest s1 t1 msgs1)"

text \<open>
  The body of the walk over the desired flows, for the desired flow at \<open>d\<close>: first the
  installed flow of its key, found or added.
\<close>

definition put_desired_installed ::
  "'m engine \<Rightarrow> 'm desired_flow \<Rightarrow> 'm ofpbuf list \<Rightarrow> iptr \<times> 'm engine \<times> 'm ofpbuf list" where
  "put_desired_installed s fd msgs =
     (case installed_flow_lookup s (dflow fd) of
        Some i \<Rightarrow> (i, s, msgs)
      | None \<Rightarrow>
          (let (s1, msgs1) = add_flow_mod s (installed_flow_add (dflow fd)) msgs
           in (inext s1,
               s1\<lparr>iheap := (iheap s1)(inext s1 \<mapsto> installed_flow_dup fd),
                  installed_flows := inext s1 # installed_flows s1,
                  inext := Suc (inext s1)\<rparr>,
               msgs1)))"

definition put_desired_step ::
  "'m engine \<Rightarrow> 'm ovn_desired_flow_table \<Rightarrow> dptr \<Rightarrow> 'm ofpbuf list
     \<Rightarrow> ('m engine \<times> 'm ovn_desired_flow_table \<times> 'm ofpbuf list) option" where
  "put_desired_step s t d msgs =
     (case dheap t d of
        None \<Rightarrow> None
      | Some fd \<Rightarrow>
          (let (i, s2, msgs2) = put_desired_installed s fd msgs
           in case link_installed_to_desired (iheap s2) (dheap t) i d of
                None \<Rightarrow> None
              | Some (ih3, dh3) \<Rightarrow> Some (s2\<lparr>iheap := ih3\<rparr>, t\<lparr>dheap := dh3\<rparr>, msgs2)))"

text \<open>The walk over the desired flows of the table's match index.\<close>

fun put_desired_loop ::
  "dptr list \<Rightarrow> 'm engine \<Rightarrow> 'm ovn_desired_flow_table \<Rightarrow> 'm ofpbuf list
     \<Rightarrow> ('m engine \<times> 'm ovn_desired_flow_table \<times> 'm ofpbuf list) option" where
  "put_desired_loop [] s t msgs = Some (s, t, msgs)"
| "put_desired_loop (d # rest) s t msgs =
     (case put_desired_step s t d msgs of
        None \<Rightarrow> None
      | Some (s1, t1, msgs1) \<Rightarrow> put_desired_loop rest s1 t1 msgs1)"

text \<open>
  The reverse safe walk over \<^verbatim>\<open>flow_updates\<close> and the append after it, on the list
  read newest first.
\<close>

fun track_flow_update ::
  "ofctrl_flow_update list \<Rightarrow> int \<Rightarrow> 32 word \<Rightarrow> ofctrl_flow_update list" where
  "track_flow_update [] nb_cfg bxid = [\<lparr>fup_xid = bxid, fup_nb_cfg = nb_cfg\<rparr>]"
| "track_flow_update (fup # prev) nb_cfg bxid =
     (if nb_cfg < fup_nb_cfg fup then track_flow_update prev nb_cfg bxid
      else if nb_cfg = fup_nb_cfg fup then fup\<lparr>fup_xid := bxid\<rparr> # prev
      else \<lparr>fup_xid = bxid, fup_nb_cfg = nb_cfg\<rparr> # fup # prev)"

text \<open>The end of \<^verbatim>\<open>ofctrl_put\<close>, from the test of \<^verbatim>\<open>msgs\<close> on.\<close>

definition put_finish ::
  "'m engine \<Rightarrow> pending_ct_zones \<Rightarrow> 'm ofpbuf list \<Rightarrow> int \<Rightarrow> 'm engine \<times> pending_ct_zones" where
  "put_finish s pending msgs nb_cfg =
     (if msgs \<noteq> [] then
        (let (barrier, s1) = encode s OFPT_BARRIER_REQUEST;
             bxid = fst barrier;
             s2 = fold (\<lambda>msg s'. snd (queue_msg s' msg)) (msgs @ [barrier]) s1;
             pending1 = map (\<lambda>(name, ctzpe).
                               (name, if ct_state ctzpe = CT_ZONE_OF_SENT \<and> of_xid ctzpe = 0
                                      then ctzpe\<lparr>of_xid := bxid\<rparr> else ctzpe))
                            pending
         in (s2\<lparr>flow_updates := rev (track_flow_update (rev (flow_updates s2)) nb_cfg bxid)\<rparr>,
             pending1))
      else if flow_updates s \<noteq> [] then
        (s\<lparr>flow_updates := butlast (flow_updates s)
                              @ [(last (flow_updates s))\<lparr>fup_nb_cfg := nb_cfg\<rparr>]\<rparr>,
         pending)
      else (s\<lparr>cur_cfg := nb_cfg\<rparr>, pending))"

text \<open>The messages and the tables of one reconciliation, before the barrier.\<close>

definition put_reconcile ::
  "ofp_lib \<Rightarrow> 'm engine \<Rightarrow> 'm ovn_desired_flow_table \<Rightarrow> pending_ct_zones \<Rightarrow> sbrec_meter list
     \<Rightarrow> ('m engine \<times> 'm ovn_desired_flow_table \<times> pending_ct_zones \<times> 'm ofpbuf list) option" where
  "put_reconcile L s flow_table pending meter_table =
     (case groups s of
        None \<Rightarrow> None
      | Some g \<Rightarrow>
          (case meters s of
             None \<Rightarrow> None
           | Some m \<Rightarrow>
               (let (pending1, s1, msgs1) = put_ct_flush pending s [];
                    (s2, msgs2) = put_add_groups L (extend_table_uninstalled g) s1 msgs1;
                    (s3, msgs3) = put_add_meters L meter_table (extend_table_uninstalled m) s2 msgs2
                in case put_installed_loop (installed_flows s3) s3 flow_table msgs3 of
                     None \<Rightarrow> None
                   | Some (s4, t4, msgs4) \<Rightarrow>
                       (case put_desired_loop (match_flow_table t4) s4 t4 msgs4 of
                          None \<Rightarrow> None
                        | Some (s5, t5, msgs5) \<Rightarrow>
                            (let (g6, s6, msgs6) =
                                   put_del_groups L (extend_table_installed g) g s5 msgs5;
                                 s7 = s6\<lparr>groups := Some (ovn_extend_table_sync g6)\<rparr>;
                                 (m8, s8, msgs8) =
                                   put_del_meters (extend_table_installed m) m s7 msgs6;
                                 s9 = s8\<lparr>meters := Some (ovn_extend_table_sync m8)\<rparr>
                             in Some (s9, t5, pending1, msgs8))))))"

text \<open>The decision of \<^verbatim>\<open>ofctrl_put\<close> to reconcile (\<^verbatim>\<open>need_put\<close>).\<close>

definition put_need_put :: "'m engine \<Rightarrow> int \<Rightarrow> bool \<Rightarrow> bool" where
  "put_need_put s nb_cfg flow_changed \<longleftrightarrow>
     (if flow_changed \<or> skipped_last_time s \<or> need_reinstall_flows s then True
      else if nb_cfg \<noteq> old_nb_cfg s then (if cur_cfg s = old_nb_cfg s then False else True)
      else False)"

definition ofctrl_put ::
  "ofp_lib \<Rightarrow> 'm engine \<Rightarrow> 'm ovn_desired_flow_table \<Rightarrow> pending_ct_zones \<Rightarrow> sbrec_meter list
     \<Rightarrow> int \<Rightarrow> bool
     \<Rightarrow> ('m engine \<times> 'm ovn_desired_flow_table \<times> pending_ct_zones) option" where
  "ofctrl_put L s flow_table pending meter_table nb_cfg flow_changed =
     (let need_put = put_need_put s nb_cfg flow_changed;
          s1 = (if \<not> (flow_changed \<or> skipped_last_time s \<or> need_reinstall_flows s)
                   \<and> nb_cfg \<noteq> old_nb_cfg s \<and> cur_cfg s = old_nb_cfg s
                then s\<lparr>cur_cfg := nb_cfg\<rparr> else s);
          s2 = s1\<lparr>old_nb_cfg := nb_cfg\<rparr>
      in if \<not> need_put then Some (s2, flow_table, pending)
         else if \<not> ofctrl_can_put s2 then Some (s2\<lparr>skipped_last_time := True\<rparr>, flow_table, pending)
         else
           (case put_reconcile L (s2\<lparr>skipped_last_time := False, need_reinstall_flows := False\<rparr>)
                   flow_table pending meter_table of
              None \<Rightarrow> None
            | Some (s3, t3, pending3, msgs) \<Rightarrow>
                (let (s4, pending4) = put_finish s3 pending3 msgs nb_cfg
                 in Some (s4, t3, pending4))))"

section \<open>Notions the properties are stated with\<close>

text \<open>A slot of the tunnel-metadata table that no mapping of a reply uses.\<close>

definition tlv_free_slot :: "ofputil_tlv_map list \<Rightarrow> nat \<Rightarrow> bool" where
  "tlv_free_slot ms i \<longleftrightarrow> i < TUN_METADATA_NUM_OPTS \<and> (\<forall>m \<in> set ms. unat (index m) \<noteq> i)"

text \<open>
  The part of the engine state that the flow, group and meter tables are not: what the
  walks of \<^verbatim>\<open>ofctrl_put\<close> leave alone apart from the messages they collect.
\<close>

definition engine_view ::
  "'m engine \<Rightarrow> (ofctrl_state \<times> int \<times> nat \<times> 'm ofpbuf list) \<times> (ofctrl_flow_update list \<times> int \<times> int)
      \<times> (bool \<times> bool \<times> 32 word \<times> 32 word \<times> 32 word \<times> 32 word \<times> nat)" where
  "engine_view s =
     ((state s, version s, tx_counter s, sent s), (flow_updates s, cur_cfg s, old_nb_cfg s),
      (skipped_last_time s, need_reinstall_flows s, xid s, xid2 s, seqno s, conn_seqno s,
       mff_ovn_geneve s))"






text \<open>
  The links of the installed flow at \<open>i\<close> are consistent: every desired flow on its
  \<^verbatim>\<open>desired_refs\<close> is there once and points back to it, and its primary is one of them
  (or the list is empty and there is none).
\<close>

definition links_ok :: "'m iheap \<Rightarrow> 'm dheap \<Rightarrow> iptr \<Rightarrow> bool" where
  "links_ok ih dh i \<longleftrightarrow>
     (\<exists>fi. ih i = Some fi
        \<and> distinct (desired_refs fi)
        \<and> (\<forall>d \<in> set (desired_refs fi). \<exists>fd. dh d = Some fd \<and> d_installed_flow fd = Some i)
        \<and> (case i_desired_flow fi of
              None \<Rightarrow> desired_refs fi = []
            | Some p \<Rightarrow> p \<in> set (desired_refs fi)))"

text \<open>The installed flow table holds each installed flow once, with consistent links.\<close>

definition installed_table_ok :: "'m engine \<Rightarrow> 'm dheap \<Rightarrow> bool" where
  "installed_table_ok s dh \<longleftrightarrow>
     distinct (installed_flows s) \<and> (\<forall>i \<in> set (installed_flows s). links_ok (iheap s) dh i)"

text \<open>The desired flows of a store with the links of some of them cut.\<close>

definition cut_links :: "'m dheap \<Rightarrow> dptr set \<Rightarrow> 'm dheap" where
  "cut_links dh ds = (\<lambda>d. if d \<in> ds then map_option (\<lambda>fd. fd\<lparr>d_installed_flow := None\<rparr>) (dh d)
                          else dh d)"

text \<open>
  I5 of the specification: an installed flow with a non-empty \<^verbatim>\<open>desired_refs\<close> has its
  primary among those desired flows.
\<close>

definition primary_among_refs :: "'m iheap \<Rightarrow> iptr \<Rightarrow> bool" where
  "primary_among_refs ih i \<longleftrightarrow>
     (case ih i of
        None \<Rightarrow> True
      | Some fi \<Rightarrow>
          desired_refs fi \<noteq> [] \<longrightarrow>
            (\<exists>p. i_desired_flow fi = Some p \<and> p \<in> set (desired_refs fi)))"

text \<open>
  The hash of a flow is the one \<^verbatim>\<open>ovn_flow_init\<close> gives it: no function changes the key or
  the hash of a flow once it is built.
\<close>

definition hash_ok :: "'m ovs_hash \<Rightarrow> 'm ovn_flow \<Rightarrow> bool" where
  "hash_ok H f \<longleftrightarrow> hash f = ovn_flow_match_hash H (table_id f) (priority f) (match f)"

text \<open>
  What every hash map does on insertion: the map then holds the nodes it held and the new
  one, each once.  Nothing is said of their order.
\<close>

definition hmap_ok :: "'m ovs_hash \<Rightarrow> bool" where
  "hmap_ok H \<longleftrightarrow>
     (\<forall>xs x. distinct xs \<and> x \<notin> set xs
        \<longrightarrow> (\<forall>h. distinct (hmap_insert H xs x h)
                  \<and> set (hmap_insert H xs x h) = insert x (set xs)))"

text \<open>
  The links of a source in the source index \<^verbatim>\<open>uuid_flow_table\<close>, oldest first: the list of
  the node \<^verbatim>\<open>sb_to_flow_find\<close> returns, empty when it returns none.
\<close>

definition sb_flow_refs :: "'m ovn_desired_flow_table \<Rightarrow> uuid \<Rightarrow> sb_flow_ref list" where
  "sb_flow_refs t u =
     (case sb_to_flow_find (uuid_flow_table t) u of None \<Rightarrow> [] | Some stf \<Rightarrow> flows stf)"

text \<open>
  A well-formed desired flow table: the match index holds each desired flow once, every
  flow in it is allocated (below the next address handed out) and has the hash of its key.
\<close>

definition desired_table_ok :: "'m ovs_hash \<Rightarrow> 'm ovn_desired_flow_table \<Rightarrow> bool" where
  "desired_table_ok H t \<longleftrightarrow>
     distinct (match_flow_table t)
     \<and> (\<forall>d \<in> set (match_flow_table t).
           d < dnext t \<and> (\<exists>fd. dheap t d = Some fd \<and> hash_ok H (dflow fd)))"

text \<open>The sources a desired flow lists in its \<^verbatim>\<open>references\<close>.\<close>

definition desired_flow_sources :: "'m desired_flow \<Rightarrow> uuid set" where
  "desired_flow_sources fd = sfr_sb_uuid ` set (references fd)"

text \<open>The desired flows of the match index with a given key, in the order of the index.\<close>

definition desired_flows_of_key ::
  "'m ovn_desired_flow_table \<Rightarrow> 8 word \<times> 16 word \<times> 'm \<Rightarrow> dptr list" where
  "desired_flows_of_key t k =
     filter (\<lambda>d. map_option (\<lambda>fd. flow_key (dflow fd)) (dheap t d) = Some k) (match_flow_table t)"

text \<open>
  What the two tables of flows have in common when \<^verbatim>\<open>ofctrl_put\<close> starts and when it ends,
  on the installed flows \<open>il\<close> with their store \<open>ih\<close> and the match index \<open>mt\<close> of the
  desired flows with their store \<open>dh\<close>: each table holds a flow once; the links of every
  installed flow are consistent; a flow has the hash of its key; the desired flows an
  installed flow refers to are in the match index and have its key; no two installed flows
  have the same key; and a desired flow of the index that points to an installed flow is
  on the \<^verbatim>\<open>desired_refs\<close> of that flow, which is in the installed table.
\<close>

definition put_inv ::
  "'m ovs_hash \<Rightarrow> iptr list \<Rightarrow> 'm iheap \<Rightarrow> dptr list \<Rightarrow> 'm dheap \<Rightarrow> bool" where
  "put_inv H il ih mt dh \<longleftrightarrow>
     distinct il \<and> distinct mt
     \<and> (\<forall>i \<in> set il. links_ok ih dh i)
     \<and> (\<forall>i \<in> set il. \<forall>fi. ih i = Some fi \<longrightarrow>
           hash_ok H (iflow fi)
           \<and> (\<forall>d \<in> set (desired_refs fi).
                 d \<in> set mt
                 \<and> (\<exists>fd. dh d = Some fd \<and> flow_key (dflow fd) = flow_key (iflow fi))))
     \<and> (\<forall>i \<in> set il. \<forall>j \<in> set il. \<forall>fi fj.
           ih i = Some fi \<and> ih j = Some fj \<and> flow_key (iflow fi) = flow_key (iflow fj)
           \<longrightarrow> i = j)
     \<and> (\<forall>d \<in> set mt. \<exists>fd. dh d = Some fd \<and> hash_ok H (dflow fd)
           \<and> (\<forall>i. d_installed_flow fd = Some i
                 \<longrightarrow> i \<in> set il \<and> (\<exists>fi. ih i = Some fi \<and> d \<in> set (desired_refs fi))))"

text \<open>The installed flow table of the engine: what sending messages leaves alone.\<close>

definition flow_view :: "'m engine \<Rightarrow> iptr list \<times> 'm iheap \<times> nat" where
  "flow_view s = (installed_flows s, iheap s, inext s)"

text \<open>
  What a desired flow is apart from its link to an installed flow: \<^verbatim>\<open>ofctrl_put\<close> changes
  nothing else of the desired flow table.
\<close>

definition desired_content :: "'m dheap \<Rightarrow> dptr \<Rightarrow> ('m ovn_flow \<times> sb_flow_ref list) option" where
  "desired_content dh d = map_option (\<lambda>fd. (dflow fd, references fd)) (dh d)"

text \<open>
  The installed flow at \<open>i\<close> has a primary, and its actions and cookie are those of the
  primary.
\<close>

definition installed_synced :: "'m iheap \<Rightarrow> 'm dheap \<Rightarrow> iptr \<Rightarrow> bool" where
  "installed_synced ih dh i \<longleftrightarrow>
     (\<exists>fi p fd. ih i = Some fi \<and> i_desired_flow fi = Some p \<and> dh p = Some fd
        \<and> ofpacts (iflow fi) = ofpacts (dflow fd) \<and> cookie (iflow fi) = cookie (dflow fd))"

text \<open>The same, the primary being the only desired flow linked: an installed flow after the
  first walk of \<^verbatim>\<open>ofctrl_put\<close>.\<close>

definition installed_relinked :: "'m iheap \<Rightarrow> 'm dheap \<Rightarrow> iptr \<Rightarrow> bool" where
  "installed_relinked ih dh i \<longleftrightarrow>
     installed_synced ih dh i \<and> (\<exists>fi p. ih i = Some fi \<and> desired_refs fi = [p])"

text \<open>Some installed flow has the key of the desired flow at \<open>d\<close>.\<close>

definition key_installed :: "iptr list \<Rightarrow> 'm iheap \<Rightarrow> 'm dheap \<Rightarrow> dptr \<Rightarrow> bool" where
  "key_installed il ih dh d \<longleftrightarrow>
     (\<exists>fd. dh d = Some fd
        \<and> (\<exists>i \<in> set il. \<exists>fi. ih i = Some fi \<and> flow_key (iflow fi) = flow_key (dflow fd)))"

text \<open>The flow and the primary of an installed flow.\<close>

definition installed_view :: "'m iheap \<Rightarrow> iptr \<Rightarrow> ('m ovn_flow \<times> dptr option) option" where
  "installed_view ih i = map_option (\<lambda>fi. (iflow fi, i_desired_flow fi)) (ih i)"

text \<open>
  The keys of the flows of the installed table, and of the match index of a desired flow
  table (\<open>None\<close> would be a dangling entry; a well-formed table has none).
\<close>

definition installed_keys :: "'m engine \<Rightarrow> (8 word \<times> 16 word \<times> 'm) option set" where
  "installed_keys s =
     (\<lambda>i. map_option (\<lambda>fi. flow_key (iflow fi)) (iheap s i)) ` set (installed_flows s)"

definition desired_keys :: "'m ovn_desired_flow_table \<Rightarrow> (8 word \<times> 16 word \<times> 'm) option set" where
  "desired_keys t =
     (\<lambda>d. map_option (\<lambda>fd. flow_key (dflow fd)) (dheap t d)) ` set (match_flow_table t)"

text \<open>
  A well-formed pair of tables in an engine that \<^verbatim>\<open>ofctrl_init\<close> has given its group and
  meter tables: \<open>put_inv\<close>, and the installed flows are allocated.
\<close>

definition put_ok :: "'m ovs_hash \<Rightarrow> 'm engine \<Rightarrow> 'm ovn_desired_flow_table \<Rightarrow> bool" where
  "put_ok H s t \<longleftrightarrow>
     put_inv H (installed_flows s) (iheap s) (match_flow_table t) (dheap t)
     \<and> (\<forall>i \<in> set (installed_flows s). i < inext s)
     \<and> groups s \<noteq> None \<and> meters s \<noteq> None"

text \<open>
  The installed flow at \<open>i\<close> has a primary, a desired flow of the match index with the
  same key, and the actions and the cookie of that flow.
\<close>

definition primary_installed :: "'m engine \<Rightarrow> 'm ovn_desired_flow_table \<Rightarrow> iptr \<Rightarrow> bool" where
  "primary_installed s t i \<longleftrightarrow>
     (\<exists>fi d fd. iheap s i = Some fi \<and> i_desired_flow fi = Some d
        \<and> d \<in> set (match_flow_table t) \<and> dheap t d = Some fd
        \<and> flow_key (dflow fd) = flow_key (iflow fi)
        \<and> ofpacts (iflow fi) = ofpacts (dflow fd) \<and> cookie (iflow fi) = cookie (dflow fd))"

section \<open>Example inputs\<close>

definition ex_consts :: ovn_consts where
  "ex_consts = \<lparr>OVN_GENEVE_CLASS = 0x0102, OVN_GENEVE_TYPE = 0x80, OVN_GENEVE_LEN = 4,
                 MFF_TUN_METADATA0 = 100\<rparr>"

definition ex_tables :: "ovn_extend_table option" where
  "ex_tables = Some \<lparr>desired = [], existing = []\<rparr>"

text \<open>A connected engine right after \<^verbatim>\<open>ofctrl_init\<close>, and the same in the two states
  the examples need.\<close>

definition ex_engine :: "nat engine" where
  "ex_engine = (ofctrl_init ex_tables ex_tables)\<lparr>version := 4\<rparr>"

definition ex_tlv_engine :: "nat engine" where
  "ex_tlv_engine = run_S_NEW ex_engine"

definition ex_update_engine :: "nat engine" where
  "ex_update_engine = ex_engine\<lparr>state := S_UPDATE_FLOWS\<rparr>"

definition ex_map :: "16 word \<Rightarrow> 8 word \<Rightarrow> 16 word \<Rightarrow> ofputil_tlv_map" where
  "ex_map cls ty idx = \<lparr>option_class = cls, option_type = ty, option_len = 4, index = idx\<rparr>"

definition ex_reply :: "ofputil_tlv_map list \<Rightarrow> ofp_header" where
  "ex_reply ms = \<lparr>oh_xid = 1, oh_type = OFPTYPE_NXT_TLV_TABLE_REPLY, oh_tlv_mappings = Some ms,
                   oh_error = OFPERR_OTHER\<rparr>"

definition ex_barrier_reply :: "32 word \<Rightarrow> ofp_header" where
  "ex_barrier_reply x = \<lparr>oh_xid = x, oh_type = OFPTYPE_BARRIER_REPLY, oh_tlv_mappings = None,
                          oh_error = OFPERR_OTHER\<rparr>"

definition ct_sent :: "32 word \<Rightarrow> ct_zone_pending_entry" where
  "ct_sent x = \<lparr>zone = 1, of_xid = x, ct_state = CT_ZONE_OF_SENT\<rparr>"

definition ex_fup :: "32 word \<Rightarrow> int \<Rightarrow> ofctrl_flow_update" where
  "ex_fup x n = \<lparr>fup_xid = x, fup_nb_cfg = n\<rparr>"

text \<open>
  Parsers that report an error on every string; a hash, with a hash map whose walks meet
  the nodes in the order of their insertion.
\<close>

definition ex_lib :: ofp_lib where
  "ex_lib = \<lparr>parse_ofp_group_mod_str = (\<lambda>c i n. None), parse_ofp_meter_mod_str = (\<lambda>i n. None)\<rparr>"

definition ex_hash :: "nat ovs_hash" where
  "ex_hash = \<lparr>hash_2words = (\<lambda>a b. a + b), minimatch_hash = (\<lambda>m b. of_nat m + b),
               hmap_insert = (\<lambda>xs x h. xs @ [x])\<rparr>"

text \<open>A desired flow table with one flow, of source 11.\<close>

definition ex_table1 :: "nat ovn_desired_flow_table" where
  "ex_table1 = ofctrl_add_flow ex_hash ovn_desired_flow_table_init 0 100 7 42 [1, 2] 11"

text \<open>An installed flow with two desired flows linked to it, and a third one not linked.\<close>

definition ex_flow :: "nat ovn_flow" where
  "ex_flow = ovn_flow_init ex_hash 0 100 42 7 [1, 2]"

definition ex_ih :: "nat iheap" where
  "ex_ih = [0 \<mapsto> \<lparr>iflow = ex_flow, desired_refs = [0, 1], i_desired_flow = Some 0\<rparr>]"

definition ex_dh :: "nat dheap" where
  "ex_dh = [0 \<mapsto> \<lparr>dflow = ex_flow, references = [], d_installed_flow = Some 0\<rparr>,
            1 \<mapsto> \<lparr>dflow = ex_flow, references = [], d_installed_flow = Some 0\<rparr>,
            2 \<mapsto> \<lparr>dflow = ex_flow, references = [], d_installed_flow = None\<rparr>]"

text \<open>An engine about to clear its tables, with that installed flow and one installed group.\<close>

definition ex_clear_engine :: "nat engine" where
  "ex_clear_engine =
     ex_engine\<lparr>state := S_CLEAR_FLOWS, installed_flows := [0], iheap := ex_ih, inext := 1,
               flow_updates := [\<lparr>fup_xid = 7, fup_nb_cfg = 3\<rparr>],
               groups := Some \<lparr>desired = [], existing = [\<lparr>info_table_id = 1, info_name = ''g''\<rparr>]\<rparr>\<rparr>"


text \<open>
  Three calls of \<^verbatim>\<open>ofctrl_put\<close> in a row, the connection having sent everything between
  them: one flow and \<^verbatim>\<open>nb_cfg\<close> 3, a second flow and \<^verbatim>\<open>nb_cfg\<close> 5, then no change and
  \<^verbatim>\<open>nb_cfg\<close> 2.
\<close>

definition ex_put1 where
  "ex_put1 = ofctrl_put ex_lib ex_update_engine ex_table1 [] [] 3 True"

definition ex_put2 where
  "ex_put2 = (case ex_put1 of None \<Rightarrow> None
              | Some (s, t, p) \<Rightarrow>
                  ofctrl_put ex_lib (s\<lparr>tx_counter := 0\<rparr>)
                    (ofctrl_add_flow ex_hash t 0 100 8 43 [3] 12) p [] 5 True)"

definition ex_put3 where
  "ex_put3 = (case ex_put2 of None \<Rightarrow> None
              | Some (s, t, p) \<Rightarrow> ofctrl_put ex_lib (s\<lparr>tx_counter := 0\<rparr>) t p [] 2 True)"

text \<open>The same flow added to \<open>ex_table1\<close> by another source, 12.\<close>

definition ex_table2 :: "nat ovn_desired_flow_table" where
  "ex_table2 = ofctrl_add_flow ex_hash ex_table1 0 100 7 42 [1, 2] 12"


text \<open>
  The engine after the first of these calls, once the connection has sent everything, and
  the desired flow table after a second flow has been added to it.
\<close>

definition ex_engine2 :: "nat engine" where
  "ex_engine2 = (case ex_put1 of None \<Rightarrow> ex_update_engine | Some (s, t, p) \<Rightarrow> s\<lparr>tx_counter := 0\<rparr>)"

definition ex_table4 :: "nat ovn_desired_flow_table" where
  "ex_table4 = (case ex_put1 of None \<Rightarrow> ex_table1
                | Some (s, t, p) \<Rightarrow> ofctrl_add_flow ex_hash t 0 100 8 43 [3] 12)"

section \<open>Sending\<close>

lemma encode_queue_simps:
  "encode s b = ((next_xid s, b), s\<lparr>next_xid := next_xid s + 1\<rparr>)"
  "queue_msg s msg = (fst msg, s\<lparr>sent := sent s @ [msg], tx_counter := Suc (tx_counter s)\<rparr>)"
  by (simp_all add: encode_def queue_msg_def)

section \<open>The guard of the reconciler\<close>

text \<open>
  C6: \<^verbatim>\<open>ofctrl_can_put\<close> returns true if and only if the state machine is in
  \<open>S_UPDATE_FLOWS\<close>, the in-flight packet counter of the connection is zero, and the
  negotiated OpenFlow version is valid (not negative).
\<close>

theorem ofctrl_can_put_iff:
  "ofctrl_can_put s \<longleftrightarrow> state s = S_UPDATE_FLOWS \<and> tx_counter s = 0 \<and> 0 \<le> version s"
  by (auto simp: ofctrl_can_put_def)

theorem ofctrl_can_put_iff_witness:
  "ofctrl_can_put ex_update_engine
   \<and> \<not> ofctrl_can_put ex_engine
   \<and> \<not> ofctrl_can_put (ex_update_engine\<lparr>tx_counter := 1\<rparr>)
   \<and> \<not> ofctrl_can_put (ex_update_engine\<lparr>version := - 1\<rparr>)"
  using ofctrl_can_put_iff[of "ex_update_engine"]
        ofctrl_can_put_iff[of "ex_engine"]
        ofctrl_can_put_iff[of "ex_update_engine\<lparr>tx_counter := 1\<rparr>"]
        ofctrl_can_put_iff[of "ex_update_engine\<lparr>version := - 1\<rparr>"]
  by (simp add: ex_update_engine_def ex_engine_def ofctrl_init_def)

section \<open>Barrier replies in \<open>S_UPDATE_FLOWS\<close>\<close>

text \<open>
  C5, as the code has it: in \<open>S_UPDATE_FLOWS\<close>, on a barrier reply received while the
  flow-update queue is not empty, the head record is removed and \<open>cur_cfg\<close> becomes the
  larger of itself and the head's \<open>nb_cfg\<close> exactly when the reply's xid is the head's
  (otherwise the engine is unchanged, also when the xid is that of a later record); and
  every pending conntrack entry in \<open>OF_SENT\<close> whose \<open>of_xid\<close> is the reply's xid moves to
  \<open>DB_QUEUED\<close>, the others staying as they are.  While the queue is empty a barrier reply
  changes nothing: no conntrack entry moves.
\<close>

theorem recv_S_UPDATE_FLOWS_barrier:
  assumes "oh_type oh = OFPTYPE_BARRIER_REPLY"
  shows "(flow_updates s = fup # rest \<and> fup_xid fup = oh_xid oh
          \<longrightarrow> fst (recv_S_UPDATE_FLOWS s pending oh)
                = s\<lparr>cur_cfg := max (cur_cfg s) (fup_nb_cfg fup), flow_updates := rest\<rparr>)
       \<and> (flow_updates s = fup # rest \<and> fup_xid fup \<noteq> oh_xid oh
          \<longrightarrow> fst (recv_S_UPDATE_FLOWS s pending oh) = s)
       \<and> (flow_updates s \<noteq> []
          \<longrightarrow> snd (recv_S_UPDATE_FLOWS s pending oh)
                = map (\<lambda>(name, ctzpe).
                         (name, if ct_state ctzpe = CT_ZONE_OF_SENT \<and> of_xid ctzpe = oh_xid oh
                                then ctzpe\<lparr>ct_state := CT_ZONE_DB_QUEUED\<rparr> else ctzpe))
                      pending)
       \<and> (flow_updates s = [] \<longrightarrow> recv_S_UPDATE_FLOWS s pending oh = (s, pending))"
  using assms
  by (auto simp: recv_S_UPDATE_FLOWS_def ofctrl_recv_def ct_barrier_reply_def max_def Let_def
      split: list.splits)

theorem recv_S_UPDATE_FLOWS_barrier_witness:
  "recv_S_UPDATE_FLOWS (ex_update_engine\<lparr>cur_cfg := 2, flow_updates := [ex_fup 7 3, ex_fup 8 4]\<rparr>)
      [(''a'', ct_sent 7), (''b'', ct_sent 8)] (ex_barrier_reply 7)
    = (ex_update_engine\<lparr>cur_cfg := 3, flow_updates := [ex_fup 8 4]\<rparr>,
       [(''a'', (ct_sent 7)\<lparr>ct_state := CT_ZONE_DB_QUEUED\<rparr>), (''b'', ct_sent 8)])
   \<and> recv_S_UPDATE_FLOWS (ex_update_engine\<lparr>cur_cfg := 2, flow_updates := [ex_fup 7 3, ex_fup 8 4]\<rparr>)
      [(''a'', ct_sent 7), (''b'', ct_sent 8)] (ex_barrier_reply 8)
    = (ex_update_engine\<lparr>cur_cfg := 2, flow_updates := [ex_fup 7 3, ex_fup 8 4]\<rparr>,
       [(''a'', ct_sent 7), (''b'', (ct_sent 8)\<lparr>ct_state := CT_ZONE_DB_QUEUED\<rparr>)])"
proof -
  let ?s = "ex_update_engine\<lparr>cur_cfg := 2, flow_updates := [ex_fup 7 3, ex_fup 8 4]\<rparr>"
  have t: "oh_type (ex_barrier_reply x) = OFPTYPE_BARRIER_REPLY" for x
    by (simp add: ex_barrier_reply_def)
  show ?thesis
    using recv_S_UPDATE_FLOWS_barrier[OF t, of ?s "ex_fup 7 3" "[ex_fup 8 4]" 7
            "[(''a'', ct_sent 7), (''b'', ct_sent 8)]"]
          recv_S_UPDATE_FLOWS_barrier[OF t, of ?s "ex_fup 7 3" "[ex_fup 8 4]" 8
            "[(''a'', ct_sent 7), (''b'', ct_sent 8)]"]
    by (simp add: ex_barrier_reply_def ct_sent_def ex_fup_def prod_eq_iff)
qed

text \<open>
  The claim as stated lets the conntrack entries move on every barrier reply; with an
  empty queue the entry whose \<open>of_xid\<close> is the reply's xid stays in \<open>OF_SENT\<close>.
\<close>

theorem recv_S_UPDATE_FLOWS_barrier_counterexample:
  "state ex_update_engine = S_UPDATE_FLOWS
   \<and> oh_type (ex_barrier_reply 7) = OFPTYPE_BARRIER_REPLY
   \<and> ct_state (ct_sent 7) = CT_ZONE_OF_SENT
   \<and> of_xid (ct_sent 7) = oh_xid (ex_barrier_reply 7)
   \<and> snd (recv_S_UPDATE_FLOWS ex_update_engine [(''a'', ct_sent 7)] (ex_barrier_reply 7))
      = [(''a'', ct_sent 7)]"
  by (simp add: recv_S_UPDATE_FLOWS_def ofctrl_recv_def ex_barrier_reply_def ct_sent_def
      ex_update_engine_def ex_engine_def ofctrl_init_def)

section \<open>The reply to the TLV table request\<close>

lemma rightmost_1bit_idx_below:
  assumes "j < rightmost_1bit_idx x"
  shows "\<not> bit x j"
proof -
  let ?tw = "takeWhile (\<lambda>i. \<not> bit x i) [0..<64]"
  from assms have j: "j < length ?tw" by (simp add: rightmost_1bit_idx_def)
  have le: "length ?tw \<le> 64" using length_takeWhile_le[of "\<lambda>i. \<not> bit x i" "[0..<64]"] by simp
  have "?tw ! j = [0..<64] ! j" using j by (rule takeWhile_nth)
  also have "\<dots> = j" using j le by simp
  finally have "j \<in> set ?tw" using j nth_mem[of j ?tw] by simp
  then show ?thesis by (auto dest: set_takeWhileD)
qed

lemma rightmost_1bit_idx_bit:
  assumes "x \<noteq> 0"
  shows "bit x (rightmost_1bit_idx x) \<and> rightmost_1bit_idx x < 64"
proof -
  let ?tw = "takeWhile (\<lambda>i. \<not> bit x i) [0..<64]"
  from assms obtain i where i: "bit x i" by (auto simp: bit_eq_iff)
  then have i64: "i < 64" using bit_imp_le_length[of x i] by simp
  have "\<not> i < rightmost_1bit_idx x" using i rightmost_1bit_idx_below by blast
  then have lt: "length ?tw < length [0..<64]" using i64 by (simp add: rightmost_1bit_idx_def)
  from nth_length_takeWhile[OF lt] lt show ?thesis
    by (simp add: rightmost_1bit_idx_def)
qed

lemma rightmost_1bit_idx_least:
  assumes "x \<noteq> 0"
  shows "rightmost_1bit_idx x = (LEAST i. bit x i)"
  using rightmost_1bit_idx_bit[OF assms] rightmost_1bit_idx_below[of _ x]
  by (intro Least_equality[symmetric]) (auto simp: not_less[symmetric])

lemma tlv_scan_found:
  "find (is_ovn_geneve c) ms = Some m \<Longrightarrow>
   tlv_scan_mappings c ms w =
     (if TUN_METADATA_NUM_OPTS \<le> unat (index m) then Tlv_unsupported else Tlv_found (index m))"
  by (induction ms arbitrary: w) (auto split: if_splits)

lemma tlv_scan_free:
  "find (is_ovn_geneve c) ms = None \<Longrightarrow>
   \<exists>w'. tlv_scan_mappings c ms w = Tlv_free w' \<and>
        (\<forall>i. bit w' i \<longleftrightarrow> bit w i \<and> (\<forall>m \<in> set ms. unat (index m) \<noteq> i))"
proof (induction ms arbitrary: w)
  case Nil
  then show ?case by simp
next
  case (Cons a ms)
  let ?w1 = "if unat (index a) < TUN_METADATA_NUM_OPTS
              then w AND NOT (push_bit (unat (index a)) 1) else w"
  from Cons.prems have na: "\<not> is_ovn_geneve c a" and f: "find (is_ovn_geneve c) ms = None"
    by (auto split: if_splits)
  from Cons.IH[OF f, of ?w1] obtain w' where
    w': "tlv_scan_mappings c ms ?w1 = Tlv_free w'"
        "\<forall>i. bit w' i \<longleftrightarrow> bit ?w1 i \<and> (\<forall>m \<in> set ms. unat (index m) \<noteq> i)" by blast
  have b: "bit ?w1 i \<longleftrightarrow> bit w i \<and> unat (index a) \<noteq> i" for i
  proof (cases "unat (index a) < TUN_METADATA_NUM_OPTS")
    case True
    have "bit w i \<Longrightarrow> i < 64" using bit_imp_le_length[of w i] by simp
    with True show ?thesis
      by (auto simp: bit_simps TUN_METADATA_NUM_OPTS_def)
  next
    case False
    then have "bit w i \<Longrightarrow> unat (index a) \<noteq> i"
      using bit_imp_le_length[of w i] by (auto simp: TUN_METADATA_NUM_OPTS_def)
    with False show ?thesis by auto
  qed
  show ?case using na w' b by auto
qed

lemma tlv_scan_free_all:
  assumes "find (is_ovn_geneve c) ms = None"
  obtains w where "tlv_scan_mappings c ms (- 1) = Tlv_free w"
    and "\<And>i. bit w i \<longleftrightarrow> tlv_free_slot ms i"
proof -
  from tlv_scan_free[OF assms, of "- 1"] obtain w where
    w: "tlv_scan_mappings c ms (- 1) = Tlv_free w"
       "\<forall>i. bit w i \<longleftrightarrow> bit (- 1 :: 64 word) i \<and> (\<forall>m \<in> set ms. unat (index m) \<noteq> i)" by blast
  have "bit w i \<longleftrightarrow> tlv_free_slot ms i" for i
    using w(2) by (auto simp: tlv_free_slot_def TUN_METADATA_NUM_OPTS_def bit_simps)
  with w(1) show ?thesis using that by blast
qed

text \<open>
  C7, as the code has it: in \<open>S_TLV_TABLE_REQUESTED\<close>, on a message with the xid of the
  outstanding request.  When it is a TLV-table reply whose first mapping with OVN's
  class, type and length has an index below 64, the field id becomes
  \<open>MFF_TUN_METADATA0\<close> plus that index and the state \<open>S_CLEAR_FLOWS\<close>; when that
  mapping's index is 64 or more, tunnel metadata is disabled (field id 0) and the state
  becomes \<open>S_CLEAR_FLOWS\<close>.  When the reply has no such mapping, the lowest index \<open>k\<close>
  below 64 that no mapping of the reply uses is chosen: the field id becomes
  \<open>MFF_TUN_METADATA0 + k\<close>, a TLV-table-mod adding OVN's option at \<open>k\<close> and a barrier
  request are sent, their xids are kept in \<open>xid\<close> and \<open>xid2\<close>, and the state becomes
  \<open>S_TLV_TABLE_MOD_SENT\<close>; when no index is free, and when the message is an error,
  tunnel metadata is disabled and the state becomes \<open>S_CLEAR_FLOWS\<close>.
\<close>

theorem recv_S_TLV_TABLE_REQUESTED_cases:
  assumes "oh_xid oh = xid s"
  shows "(oh_type oh = OFPTYPE_NXT_TLV_TABLE_REPLY \<and> oh_tlv_mappings oh = Some ms
            \<and> find (is_ovn_geneve c) ms = Some m \<and> unat (index m) < TUN_METADATA_NUM_OPTS
          \<longrightarrow> recv_S_TLV_TABLE_REQUESTED c s oh
                = s\<lparr>mff_ovn_geneve := MFF_TUN_METADATA0 c + unat (index m),
                    state := S_CLEAR_FLOWS\<rparr>)
       \<and> (oh_type oh = OFPTYPE_NXT_TLV_TABLE_REPLY \<and> oh_tlv_mappings oh = Some ms
            \<and> find (is_ovn_geneve c) ms = Some m \<and> TUN_METADATA_NUM_OPTS \<le> unat (index m)
          \<longrightarrow> recv_S_TLV_TABLE_REQUESTED c s oh = s\<lparr>mff_ovn_geneve := 0, state := S_CLEAR_FLOWS\<rparr>)
       \<and> (oh_type oh = OFPTYPE_NXT_TLV_TABLE_REPLY \<and> oh_tlv_mappings oh = Some ms
            \<and> find (is_ovn_geneve c) ms = None \<and> tlv_free_slot ms k
            \<and> (\<forall>j < k. \<not> tlv_free_slot ms j)
          \<longrightarrow> recv_S_TLV_TABLE_REQUESTED c s oh
                = s\<lparr>mff_ovn_geneve := MFF_TUN_METADATA0 c + k,
                    sent := sent s @
                      [(next_xid s,
                        NXT_TLV_TABLE_MOD_ADD
                          [\<lparr>option_class = OVN_GENEVE_CLASS c, option_type = OVN_GENEVE_TYPE c,
                            option_len = OVN_GENEVE_LEN c, index = of_nat k\<rparr>]),
                       (next_xid s + 1, OFPT_BARRIER_REQUEST)],
                    tx_counter := tx_counter s + 2,
                    next_xid := next_xid s + 2,
                    xid := next_xid s, xid2 := next_xid s + 1,
                    state := S_TLV_TABLE_MOD_SENT\<rparr>)
       \<and> (oh_type oh = OFPTYPE_NXT_TLV_TABLE_REPLY \<and> oh_tlv_mappings oh = Some ms
            \<and> find (is_ovn_geneve c) ms = None \<and> (\<forall>j. \<not> tlv_free_slot ms j)
          \<longrightarrow> recv_S_TLV_TABLE_REQUESTED c s oh = s\<lparr>mff_ovn_geneve := 0, state := S_CLEAR_FLOWS\<rparr>)
       \<and> (oh_type oh = OFPTYPE_ERROR
          \<longrightarrow> recv_S_TLV_TABLE_REQUESTED c s oh = s\<lparr>mff_ovn_geneve := 0, state := S_CLEAR_FLOWS\<rparr>)"
proof (intro conjI impI)
  assume a: "oh_type oh = OFPTYPE_NXT_TLV_TABLE_REPLY \<and> oh_tlv_mappings oh = Some ms
            \<and> find (is_ovn_geneve c) ms = Some m \<and> unat (index m) < TUN_METADATA_NUM_OPTS"
  then show "recv_S_TLV_TABLE_REQUESTED c s oh
                = s\<lparr>mff_ovn_geneve := MFF_TUN_METADATA0 c + unat (index m), state := S_CLEAR_FLOWS\<rparr>"
    using assms tlv_scan_found[of c ms m "- 1"]
    by (simp add: recv_S_TLV_TABLE_REQUESTED_def process_tlv_table_reply_def)
next
  assume a: "oh_type oh = OFPTYPE_NXT_TLV_TABLE_REPLY \<and> oh_tlv_mappings oh = Some ms
            \<and> find (is_ovn_geneve c) ms = Some m \<and> TUN_METADATA_NUM_OPTS \<le> unat (index m)"
  then show "recv_S_TLV_TABLE_REQUESTED c s oh = s\<lparr>mff_ovn_geneve := 0, state := S_CLEAR_FLOWS\<rparr>"
    using assms tlv_scan_found[of c ms m "- 1"]
    by (simp add: recv_S_TLV_TABLE_REQUESTED_def process_tlv_table_reply_def tlv_error_path_def)
next
  assume a: "oh_type oh = OFPTYPE_NXT_TLV_TABLE_REPLY \<and> oh_tlv_mappings oh = Some ms
            \<and> find (is_ovn_geneve c) ms = None \<and> tlv_free_slot ms k
            \<and> (\<forall>j < k. \<not> tlv_free_slot ms j)"
  then obtain w where w: "tlv_scan_mappings c ms (- 1) = Tlv_free w"
    and bw: "\<And>i. bit w i \<longleftrightarrow> tlv_free_slot ms i"
    using tlv_scan_free_all[of c ms] by blast
  from a bw have "bit w k" by simp
  then have w0: "w \<noteq> 0" by auto
  have "(LEAST i. bit w i) = k"
    using a bw by (intro Least_equality) (auto simp: not_less[symmetric])
  then have r: "rightmost_1bit_idx w = k" using rightmost_1bit_idx_least[OF w0] by simp
  show "recv_S_TLV_TABLE_REQUESTED c s oh
                = s\<lparr>mff_ovn_geneve := MFF_TUN_METADATA0 c + k,
                    sent := sent s @
                      [(next_xid s,
                        NXT_TLV_TABLE_MOD_ADD
                          [\<lparr>option_class = OVN_GENEVE_CLASS c, option_type = OVN_GENEVE_TYPE c,
                            option_len = OVN_GENEVE_LEN c, index = of_nat k\<rparr>]),
                       (next_xid s + 1, OFPT_BARRIER_REQUEST)],
                    tx_counter := tx_counter s + 2,
                    next_xid := next_xid s + 2,
                    xid := next_xid s, xid2 := next_xid s + 1,
                    state := S_TLV_TABLE_MOD_SENT\<rparr>"
    using assms a w w0 r
    by (simp add: recv_S_TLV_TABLE_REQUESTED_def process_tlv_table_reply_def
        encode_queue_simps Let_def)
next
  assume a: "oh_type oh = OFPTYPE_NXT_TLV_TABLE_REPLY \<and> oh_tlv_mappings oh = Some ms
            \<and> find (is_ovn_geneve c) ms = None \<and> (\<forall>j. \<not> tlv_free_slot ms j)"
  then obtain w where w: "tlv_scan_mappings c ms (- 1) = Tlv_free w"
    and bw: "\<And>i. bit w i \<longleftrightarrow> tlv_free_slot ms i"
    using tlv_scan_free_all[of c ms] by blast
  from a bw have "w = 0" by (auto simp: bit_eq_iff)
  then show "recv_S_TLV_TABLE_REQUESTED c s oh = s\<lparr>mff_ovn_geneve := 0, state := S_CLEAR_FLOWS\<rparr>"
    using assms a w
    by (simp add: recv_S_TLV_TABLE_REQUESTED_def process_tlv_table_reply_def tlv_error_path_def)
next
  assume "oh_type oh = OFPTYPE_ERROR"
  then show "recv_S_TLV_TABLE_REQUESTED c s oh = s\<lparr>mff_ovn_geneve := 0, state := S_CLEAR_FLOWS\<rparr>"
    using assms by (simp add: recv_S_TLV_TABLE_REQUESTED_def tlv_error_path_def)
qed

theorem recv_S_TLV_TABLE_REQUESTED_cases_witness:
  "state ex_tlv_engine = S_TLV_TABLE_REQUESTED
   \<and> recv_S_TLV_TABLE_REQUESTED ex_consts ex_tlv_engine (ex_reply [ex_map 0x0102 0x80 5])
     = ex_tlv_engine\<lparr>mff_ovn_geneve := 105, state := S_CLEAR_FLOWS\<rparr>
   \<and> recv_S_TLV_TABLE_REQUESTED ex_consts ex_tlv_engine (ex_reply [ex_map 7 1 0, ex_map 7 2 1])
     = ex_tlv_engine\<lparr>mff_ovn_geneve := 102,
          sent := [(1, NXT_TLV_TABLE_REQUEST), (2, NXT_TLV_TABLE_MOD_ADD [ex_map 0x0102 0x80 2]),
                   (3, OFPT_BARRIER_REQUEST)],
          tx_counter := 3, next_xid := 4, xid := 2, xid2 := 3, state := S_TLV_TABLE_MOD_SENT\<rparr>"
proof -
  have x: "oh_xid (ex_reply ms) = xid ex_tlv_engine" for ms
    by (simp add: ex_reply_def ex_tlv_engine_def run_S_NEW_def encode_queue_simps
        ex_engine_def ofctrl_init_def)
  have f: "tlv_free_slot [ex_map 7 1 0, ex_map 7 2 1] 2
           \<and> (\<forall>j<2. \<not> tlv_free_slot [ex_map 7 1 0, ex_map 7 2 1] j)"
    by (auto simp: tlv_free_slot_def ex_map_def TUN_METADATA_NUM_OPTS_def less_Suc_eq numeral_2_eq_2)
  show ?thesis
    using recv_S_TLV_TABLE_REQUESTED_cases[OF x, of "[ex_map 0x0102 0x80 5]" "[ex_map 0x0102 0x80 5]"
             ex_consts "ex_map 0x0102 0x80 5" 0]
          recv_S_TLV_TABLE_REQUESTED_cases[OF x, of "[ex_map 7 1 0, ex_map 7 2 1]"
             "[ex_map 7 1 0, ex_map 7 2 1]" ex_consts undefined 2] f
    by (simp add: ex_reply_def ex_consts_def ex_map_def is_ovn_geneve_def TUN_METADATA_NUM_OPTS_def
        ex_tlv_engine_def run_S_NEW_def encode_queue_simps ex_engine_def ofctrl_init_def)
qed

text \<open>
  The claim as stated records the index of any mapping with OVN's class, type and
  length; a reply whose mapping of OVN's option has index 64 leaves the field id at 0
  instead of \<open>MFF_TUN_METADATA0 + 64\<close>.
\<close>

theorem recv_S_TLV_TABLE_REQUESTED_counterexample:
  "state ex_tlv_engine = S_TLV_TABLE_REQUESTED
   \<and> oh_xid (ex_reply [ex_map 0x0102 0x80 64]) = xid ex_tlv_engine
   \<and> is_ovn_geneve ex_consts (ex_map 0x0102 0x80 64)
   \<and> mff_ovn_geneve (recv_S_TLV_TABLE_REQUESTED ex_consts ex_tlv_engine
                        (ex_reply [ex_map 0x0102 0x80 64])) = 0
   \<and> MFF_TUN_METADATA0 ex_consts + unat (index (ex_map 0x0102 0x80 64)) = 164"
  by (simp add: ex_reply_def ex_consts_def ex_map_def is_ovn_geneve_def TUN_METADATA_NUM_OPTS_def
      ex_tlv_engine_def run_S_NEW_def encode_queue_simps ex_engine_def ofctrl_init_def
      recv_S_TLV_TABLE_REQUESTED_def process_tlv_table_reply_def tlv_error_path_def)

section \<open>What the walks of the reconciler leave alone\<close>

lemma view_add_mod:
  "engine_view (fst (add_flow_mod s fm msgs)) = engine_view s"
  "engine_view (fst (add_group_mod s gm msgs)) = engine_view s"
  "engine_view (fst (add_meter_mod s mm msgs)) = engine_view s"
  "engine_view (fst (add_ct_flush_zone s z msgs)) = engine_view s"
  by (simp_all add: add_flow_mod_def add_group_mod_def add_meter_mod_def add_ct_flush_zone_def
      encode_def engine_view_def)

lemma view_add_meter:
  "engine_view (fst (add_meter s m mt msgs)) = engine_view s"
  "engine_view (fst (add_meter_string L s m msgs)) = engine_view s"
  by (simp_all add: add_meter_def add_meter_string_def view_add_mod Let_def split: option.splits)

lemma view_installed_flow_mod:
  "engine_view (fst (installed_flow_mod s i fi d msgs)) = engine_view s"
  by (simp add: installed_flow_mod_def add_flow_mod_def encode_def engine_view_def)

lemma view_update [simp]:
  "engine_view (s\<lparr>iheap := ih\<rparr>) = engine_view s"
  "engine_view (s\<lparr>installed_flows := il\<rparr>) = engine_view s"
  "engine_view (s\<lparr>inext := n\<rparr>) = engine_view s"
  "engine_view (s\<lparr>groups := g\<rparr>) = engine_view s"
  "engine_view (s\<lparr>meters := m\<rparr>) = engine_view s"
  "engine_view (s\<lparr>next_xid := x\<rparr>) = engine_view s"
  by (simp_all add: engine_view_def)

lemma view_put_ct_flush:
  "put_ct_flush p s msgs = (p', s', msgs') \<Longrightarrow> engine_view s' = engine_view s"
proof (induction p arbitrary: s msgs p' s' msgs')
  case Nil
  then show ?case by simp
next
  case (Cons a p)
  obtain name e where a: "a = (name, e)" by (cases a)
  show ?case
  proof (cases "ct_state e = CT_ZONE_OF_QUEUED")
    case True
    obtain s1 msgs1 where am: "add_ct_flush_zone s (zone e) msgs = (s1, msgs1)" by force
    obtain r1 s2 msgs2 where r: "put_ct_flush p s1 msgs1 = (r1, s2, msgs2)" by (metis prod_cases3)
    from Cons.prems a True am r have "s' = s2" by simp
    moreover have "engine_view s1 = engine_view s" using view_add_mod(4)[of s "zone e" msgs] am by simp
    ultimately show ?thesis using Cons.IH[OF r] by simp
  next
    case False
    obtain r1 s2 msgs2 where r: "put_ct_flush p s msgs = (r1, s2, msgs2)" by (metis prod_cases3)
    from Cons.prems a False r have "s' = s2" by simp
    then show ?thesis using Cons.IH[OF r] by simp
  qed
qed

lemma view_put_add_groups:
  "put_add_groups L gs s msgs = (s', msgs') \<Longrightarrow> engine_view s' = engine_view s"
proof (induction gs arbitrary: s msgs)
  case Nil
  then show ?case by simp
next
  case (Cons g gs)
  show ?case
  proof (cases "parse_ofp_group_mod_str L OFPGC11_ADD (info_table_id g) (info_name g)")
    case None
    with Cons show ?thesis by simp
  next
    case (Some gm)
    obtain s1 msgs1 where am: "add_group_mod s gm msgs = (s1, msgs1)" by force
    have "engine_view s1 = engine_view s" using view_add_mod(2)[of s gm msgs] am by simp
    with Cons Some am show ?thesis by simp
  qed
qed

lemma view_put_add_meters:
  "put_add_meters L mt ms s msgs = (s', msgs') \<Longrightarrow> engine_view s' = engine_view s"
proof (induction ms arbitrary: s msgs)
  case Nil
  then show ?case by simp
next
  case (Cons m ms)
  let ?r = "if take 10 (info_name m) = ''__string: '' then add_meter_string L s m msgs
            else add_meter s m mt msgs"
  obtain s1 msgs1 where am: "?r = (s1, msgs1)" by force
  have "engine_view s1 = engine_view s"
    using view_add_meter(1)[of s m mt msgs] view_add_meter(2)[of L s m msgs] am
    by (auto split: if_splits)
  with Cons am show ?case by simp
qed

lemma view_put_del_groups:
  "put_del_groups L gs tab s msgs = (tab', s', msgs') \<Longrightarrow> engine_view s' = engine_view s"
proof (induction gs arbitrary: tab s msgs)
  case Nil
  then show ?case by simp
next
  case (Cons g gs)
  let ?r = "case parse_ofp_group_mod_str L OFPGC11_DELETE (info_table_id g) [] of
               Some gm \<Rightarrow> add_group_mod s gm msgs | None \<Rightarrow> (s, msgs)"
  obtain s1 msgs1 where am: "?r = (s1, msgs1)" by force
  have "engine_view s1 = engine_view s"
  proof (cases "parse_ofp_group_mod_str L OFPGC11_DELETE (info_table_id g) []")
    case None
    with am show ?thesis by simp
  next
    case (Some gm)
    with am view_add_mod(2)[of s gm msgs] show ?thesis by simp
  qed
  with Cons am show ?case by simp
qed

lemma view_put_del_meters:
  "put_del_meters ms tab s msgs = (tab', s', msgs') \<Longrightarrow> engine_view s' = engine_view s"
proof (induction ms arbitrary: tab s msgs)
  case Nil
  then show ?case by simp
next
  case (Cons m ms)
  let ?mm = "\<lparr>mm_command = OFPMC13_DELETE, mm_meter_id = info_table_id m, mm_flags = 0, mm_bands = []\<rparr>"
  obtain s1 msgs1 where am: "add_meter_mod s ?mm msgs = (s1, msgs1)" by force
  have "engine_view s1 = engine_view s"
    using am view_add_mod(3)[of s ?mm msgs] by simp
  with Cons am show ?case by simp
qed

lemma view_put_installed_step:
  assumes "put_installed_step s t i msgs = Some (s', t', msgs')"
  shows "engine_view s' = engine_view s"
proof (cases "unlink_all_refs_for_installed_flow (iheap s) (dheap t) i")
  case None
  with assms show ?thesis by (simp add: put_installed_step_def)
next
  case (Some u)
  obtain ih1 dh1 where u: "u = (ih1, dh1)" by (cases u)
  show ?thesis
  proof (cases "ih1 i")
    case None
    with assms Some u show ?thesis by (simp add: put_installed_step_def)
  next
    case fi: (Some fi)
    show ?thesis
    proof (cases "desired_flow_lookup (t\<lparr>dheap := dh1\<rparr>) (iflow fi) None")
      case None
      obtain s2 msgs2 where am: "add_flow_mod (s\<lparr>iheap := ih1\<rparr>) (installed_flow_del (iflow fi)) msgs = (s2, msgs2)"
        by (cases "add_flow_mod (s\<lparr>iheap := ih1\<rparr>) (installed_flow_del (iflow fi)) msgs")
      have v2: "engine_view s2 = engine_view s"
        using view_add_mod(1)[of "s\<lparr>iheap := ih1\<rparr>" "installed_flow_del (iflow fi)" msgs] am by simp
      show ?thesis
      proof (cases "installed_flow_destroy (iheap s2) i")
        case dn: None
        with assms Some u fi None am show ?thesis by (simp add: put_installed_step_def)
      next
        case ds: (Some ih4)
        with assms Some u fi None am have
          "s' = s2\<lparr>installed_flows := remove1 i (installed_flows s2), iheap := ih4\<rparr>"
          by (simp add: put_installed_step_def)
        with v2 show ?thesis by simp
      qed
    next
      case d: (Some d)
      show ?thesis
      proof (cases "dh1 d")
        case None
        with assms Some u fi d show ?thesis by (simp add: put_installed_step_def)
      next
        case fd: (Some fd)
        let ?r = "if ofpacts (iflow fi) \<noteq> ofpacts (dflow fd) \<or> cookie (iflow fi) \<noteq> cookie (dflow fd)
                  then installed_flow_mod (s\<lparr>iheap := ih1\<rparr>) i fi (dflow fd) msgs
                  else (s\<lparr>iheap := ih1\<rparr>, msgs)"
        obtain s2 msgs2 where am: "?r = (s2, msgs2)" by (cases ?r)
        have v2: "engine_view s2 = engine_view s"
        proof (cases "ofpacts (iflow fi) \<noteq> ofpacts (dflow fd) \<or> cookie (iflow fi) \<noteq> cookie (dflow fd)")
          case True
          with am have "installed_flow_mod (s\<lparr>iheap := ih1\<rparr>) i fi (dflow fd) msgs = (s2, msgs2)"
            by simp
          with view_installed_flow_mod[of "s\<lparr>iheap := ih1\<rparr>" i fi "dflow fd" msgs]
          show ?thesis by simp
        next
          case False
          with am show ?thesis by auto
        qed
        show ?thesis
        proof (cases "link_installed_to_desired (iheap s2) dh1 i d")
          case None
          with assms Some u fi d fd am show ?thesis by (simp add: put_installed_step_def)
        next
          case l: (Some l)
          obtain ih3 dh3 where l3: "l = (ih3, dh3)" by (cases l)
          from assms Some u fi d fd am l l3 have "s' = s2\<lparr>iheap := ih3\<rparr>"
            by (simp add: put_installed_step_def)
          with v2 show ?thesis by simp
        qed
      qed
    qed
  qed
qed

lemma view_put_installed_loop:
  "put_installed_loop is s t msgs = Some (s', t', msgs') \<Longrightarrow> engine_view s' = engine_view s"
proof (induction "is" arbitrary: s t msgs)
  case Nil
  then show ?case by simp
next
  case (Cons i "is")
  show ?case
  proof (cases "put_installed_step s t i msgs")
    case None
    with Cons.prems show ?thesis by simp
  next
    case (Some r)
    obtain s1 t1 msgs1 where r: "r = (s1, t1, msgs1)" by (cases r)
    from Cons.prems Some r have "put_installed_loop is s1 t1 msgs1 = Some (s', t', msgs')" by simp
    from Cons.IH[OF this] view_put_installed_step[OF Some[unfolded r]] show ?thesis by simp
  qed
qed

lemma view_put_desired_installed:
  assumes "put_desired_installed s fd msgs = (i, s2, msgs2)"
  shows "engine_view s2 = engine_view s"
proof (cases "installed_flow_lookup s (dflow fd)")
  case None
  obtain s1 msgs1 where a1: "add_flow_mod s (installed_flow_add (dflow fd)) msgs = (s1, msgs1)"
    by (cases "add_flow_mod s (installed_flow_add (dflow fd)) msgs")
  with assms None view_add_mod(1)[of s "installed_flow_add (dflow fd)" msgs]
  show ?thesis by (auto simp: put_desired_installed_def)
next
  case (Some a)
  with assms show ?thesis by (simp add: put_desired_installed_def)
qed

lemma view_put_desired_step:
  assumes "put_desired_step s t d msgs = Some (s', t', msgs')"
  shows "engine_view s' = engine_view s"
proof (cases "dheap t d")
  case None
  with assms show ?thesis by (simp add: put_desired_step_def)
next
  case fd: (Some fd)
  obtain i s2 msgs2 where am: "put_desired_installed s fd msgs = (i, s2, msgs2)"
    by (cases "put_desired_installed s fd msgs")
  show ?thesis
  proof (cases "link_installed_to_desired (iheap s2) (dheap t) i d")
    case None
    with assms fd am show ?thesis by (simp add: put_desired_step_def)
  next
    case l: (Some l)
    obtain ih3 dh3 where l3: "l = (ih3, dh3)" by (cases l)
    from assms fd am l l3 have "s' = s2\<lparr>iheap := ih3\<rparr>" by (simp add: put_desired_step_def)
    with view_put_desired_installed[OF am] show ?thesis by simp
  qed
qed

lemma view_put_desired_loop:
  "put_desired_loop ds s t msgs = Some (s', t', msgs') \<Longrightarrow> engine_view s' = engine_view s"
proof (induction ds arbitrary: s t msgs)
  case Nil
  then show ?case by simp
next
  case (Cons d ds)
  show ?case
  proof (cases "put_desired_step s t d msgs")
    case None
    with Cons.prems show ?thesis by simp
  next
    case (Some r)
    obtain s1 t1 msgs1 where r: "r = (s1, t1, msgs1)" by (cases r)
    from Cons.prems Some r have "put_desired_loop ds s1 t1 msgs1 = Some (s', t', msgs')" by simp
    from Cons.IH[OF this] view_put_desired_step[OF Some[unfolded r]] show ?thesis by simp
  qed
qed

lemma put_reconcile_Some:
  assumes "put_reconcile L s t p mt = Some (s', t', p', msgs)"
  obtains g m p1 s1 msgs1 s2 msgs2 s3 msgs3 s4 t4 msgs4 s5 msgs5 g6 s6 msgs6 m8 s8 where
    "groups s = Some g" "meters s = Some m"
    "put_ct_flush p s [] = (p1, s1, msgs1)"
    "put_add_groups L (extend_table_uninstalled g) s1 msgs1 = (s2, msgs2)"
    "put_add_meters L mt (extend_table_uninstalled m) s2 msgs2 = (s3, msgs3)"
    "put_installed_loop (installed_flows s3) s3 t msgs3 = Some (s4, t4, msgs4)"
    "put_desired_loop (match_flow_table t4) s4 t4 msgs4 = Some (s5, t', msgs5)"
    "put_del_groups L (extend_table_installed g) g s5 msgs5 = (g6, s6, msgs6)"
    "put_del_meters (extend_table_installed m) m (s6\<lparr>groups := Some (ovn_extend_table_sync g6)\<rparr>) msgs6
       = (m8, s8, msgs)"
    "s' = s8\<lparr>meters := Some (ovn_extend_table_sync m8)\<rparr>" "p' = p1"
proof -
  from assms obtain g where g: "groups s = Some g"
    by (cases "groups s") (simp_all add: put_reconcile_def)
  from assms g obtain m where m: "meters s = Some m"
    by (cases "meters s") (simp_all add: put_reconcile_def)
  obtain p1 s1 msgs1 where a1: "put_ct_flush p s [] = (p1, s1, msgs1)"
    by (cases "put_ct_flush p s []")
  obtain s2 msgs2 where a2: "put_add_groups L (extend_table_uninstalled g) s1 msgs1 = (s2, msgs2)"
    by (cases "put_add_groups L (extend_table_uninstalled g) s1 msgs1")
  obtain s3 msgs3 where a3: "put_add_meters L mt (extend_table_uninstalled m) s2 msgs2 = (s3, msgs3)"
    by (cases "put_add_meters L mt (extend_table_uninstalled m) s2 msgs2")
  from assms g m a1 a2 a3 obtain r4 where
    a4': "put_installed_loop (installed_flows s3) s3 t msgs3 = Some r4"
    by (cases "put_installed_loop (installed_flows s3) s3 t msgs3") (simp_all add: put_reconcile_def)
  obtain s4 t4 msgs4 where r4: "r4 = (s4, t4, msgs4)" by (cases r4)
  note a4 = a4'[unfolded r4]
  from assms g m a1 a2 a3 a4 obtain r5 where
    a5': "put_desired_loop (match_flow_table t4) s4 t4 msgs4 = Some r5"
    by (cases "put_desired_loop (match_flow_table t4) s4 t4 msgs4") (simp_all add: put_reconcile_def)
  obtain s5 t5 msgs5 where r5: "r5 = (s5, t5, msgs5)" by (cases r5)
  note a5 = a5'[unfolded r5]
  obtain g6 s6 msgs6 where a6: "put_del_groups L (extend_table_installed g) g s5 msgs5 = (g6, s6, msgs6)"
    by (cases "put_del_groups L (extend_table_installed g) g s5 msgs5")
  obtain m8 s8 msgs8 where
    a8: "put_del_meters (extend_table_installed m) m (s6\<lparr>groups := Some (ovn_extend_table_sync g6)\<rparr>) msgs6
          = (m8, s8, msgs8)"
    by (cases "put_del_meters (extend_table_installed m) m (s6\<lparr>groups := Some (ovn_extend_table_sync g6)\<rparr>) msgs6")
  from assms g m a1 a2 a3 a4 a5 a6 a8
  have e: "s' = s8\<lparr>meters := Some (ovn_extend_table_sync m8)\<rparr>" "t' = t5" "p' = p1" "msgs = msgs8"
    by (simp_all add: put_reconcile_def)
  show ?thesis
    using that[OF g m a1 a2 a3 a4 a5[folded e(2)] a6 a8[folded e(4)] e(1) e(3)] .
qed

lemma view_put_reconcile:
  assumes "put_reconcile L s t p mt = Some (s', t', p', msgs)"
  shows "engine_view s' = engine_view s"
proof -
  from assms obtain g m p1 s1 msgs1 s2 msgs2 s3 msgs3 s4 t4 msgs4 s5 msgs5 g6 s6 msgs6 m8 s8 where
    a: "put_ct_flush p s [] = (p1, s1, msgs1)"
    "put_add_groups L (extend_table_uninstalled g) s1 msgs1 = (s2, msgs2)"
    "put_add_meters L mt (extend_table_uninstalled m) s2 msgs2 = (s3, msgs3)"
    "put_installed_loop (installed_flows s3) s3 t msgs3 = Some (s4, t4, msgs4)"
    "put_desired_loop (match_flow_table t4) s4 t4 msgs4 = Some (s5, t', msgs5)"
    "put_del_groups L (extend_table_installed g) g s5 msgs5 = (g6, s6, msgs6)"
    "put_del_meters (extend_table_installed m) m (s6\<lparr>groups := Some (ovn_extend_table_sync g6)\<rparr>) msgs6
       = (m8, s8, msgs)"
    "s' = s8\<lparr>meters := Some (ovn_extend_table_sync m8)\<rparr>"
    by (rule put_reconcile_Some) blast
  show ?thesis
    using view_put_ct_flush[OF a(1)] view_put_add_groups[OF a(2)] view_put_add_meters[OF a(3)]
      view_put_installed_loop[OF a(4)] view_put_desired_loop[OF a(5)] view_put_del_groups[OF a(6)]
      view_put_del_meters[OF a(7)] a(8)
    by simp
qed

section \<open>The configuration sequence number\<close>

lemma view_fields:
  assumes "engine_view s' = engine_view s"
  shows "state s' = state s" "version s' = version s" "tx_counter s' = tx_counter s"
    "sent s' = sent s" "flow_updates s' = flow_updates s" "cur_cfg s' = cur_cfg s"
    "old_nb_cfg s' = old_nb_cfg s" "skipped_last_time s' = skipped_last_time s"
    "need_reinstall_flows s' = need_reinstall_flows s" "xid s' = xid s" "xid2 s' = xid2 s"
    "mff_ovn_geneve s' = mff_ovn_geneve s"
  using assms by (simp_all add: engine_view_def)

lemma fold_queue_msg:
  "flow_updates (fold (\<lambda>msg s'. snd (queue_msg s' msg)) ms s) = flow_updates s"
  "cur_cfg (fold (\<lambda>msg s'. snd (queue_msg s' msg)) ms s) = cur_cfg s"
  "old_nb_cfg (fold (\<lambda>msg s'. snd (queue_msg s' msg)) ms s) = old_nb_cfg s"
  "sent (fold (\<lambda>msg s'. snd (queue_msg s' msg)) ms s) = sent s @ ms"
  by (induction ms arbitrary: s) (simp_all add: queue_msg_def)

lemma fold_queue_msg_unfolded:
  "flow_updates (fold (\<lambda>msg s'. s'\<lparr>sent := sent s' @ [msg], tx_counter := Suc (tx_counter s')\<rparr>) ms (s :: 'm engine)) = flow_updates s"
  "cur_cfg (fold (\<lambda>msg s'. s'\<lparr>sent := sent s' @ [msg], tx_counter := Suc (tx_counter s')\<rparr>) ms s) = cur_cfg s"
  "old_nb_cfg (fold (\<lambda>msg s'. s'\<lparr>sent := sent s' @ [msg], tx_counter := Suc (tx_counter s')\<rparr>) ms s) = old_nb_cfg s"
  "sent (fold (\<lambda>msg s'. s'\<lparr>sent := sent s' @ [msg], tx_counter := Suc (tx_counter s')\<rparr>) ms s) = sent s @ ms"
  using fold_queue_msg[of ms s] by (simp_all add: queue_msg_def)

lemma put_finish_cases:
  assumes "put_finish s p msgs nb = (s', p')"
  shows "old_nb_cfg s' = old_nb_cfg s"
    and "msgs \<noteq> [] \<Longrightarrow> cur_cfg s' = cur_cfg s \<and> sent s' \<noteq> sent s
           \<and> flow_updates s' = rev (track_flow_update (rev (flow_updates s)) nb (next_xid s))"
    and "msgs = [] \<Longrightarrow> flow_updates s \<noteq> [] \<Longrightarrow> cur_cfg s' = cur_cfg s \<and> sent s' = sent s
           \<and> flow_updates s' = butlast (flow_updates s) @ [(last (flow_updates s))\<lparr>fup_nb_cfg := nb\<rparr>]"
    and "msgs = [] \<Longrightarrow> flow_updates s = [] \<Longrightarrow> cur_cfg s' = nb \<and> sent s' = sent s
           \<and> flow_updates s' = []"
  using assms
  by (auto simp: put_finish_def encode_def fold_queue_msg_unfolded queue_msg_def Let_def split: if_splits)


lemma track_flow_update_sorted:
  "sorted_wrt (\<lambda>a b. fup_nb_cfg b \<le> fup_nb_cfg a) q \<Longrightarrow>
   sorted_wrt (\<lambda>a b. fup_nb_cfg b \<le> fup_nb_cfg a) (track_flow_update q nb x)"
  by (induction q) (auto split: if_splits)

lemma sorted_map_rev:
  "sorted (map fup_nb_cfg q) \<longleftrightarrow> sorted_wrt (\<lambda>a b. fup_nb_cfg b \<le> fup_nb_cfg a) (rev q)"
  by (simp add: sorted_map sorted_wrt_rev)

text \<open>What one call of ofctrl_put does to the configuration counters.\<close>

lemma ofctrl_put_cfg:
  assumes "ofctrl_put L s t p mt nb fc = Some (s', t', p')"
  shows "old_nb_cfg s' = nb"
    and "(cur_cfg s' = cur_cfg s \<and> flow_updates s' = flow_updates s \<and> sent s' = sent s)
       \<or> (cur_cfg s' = nb \<and> flow_updates s' = flow_updates s \<and> sent s' = sent s
           \<and> (cur_cfg s = old_nb_cfg s \<or> flow_updates s = []))
       \<or> (cur_cfg s' = cur_cfg s \<and> sent s' \<noteq> sent s
           \<and> (\<exists>x. flow_updates s' = rev (track_flow_update (rev (flow_updates s)) nb x)))
       \<or> (cur_cfg s' = cur_cfg s \<and> sent s' = sent s \<and> flow_updates s \<noteq> []
           \<and> flow_updates s' = butlast (flow_updates s) @ [(last (flow_updates s))\<lparr>fup_nb_cfg := nb\<rparr>])"
proof -
  let ?s1 = "if \<not> (fc \<or> skipped_last_time s \<or> need_reinstall_flows s)
                   \<and> nb \<noteq> old_nb_cfg s \<and> cur_cfg s = old_nb_cfg s
                then s\<lparr>cur_cfg := nb\<rparr> else s"
  let ?s2 = "?s1\<lparr>old_nb_cfg := nb\<rparr>"
  let ?s2' = "?s2\<lparr>skipped_last_time := False, need_reinstall_flows := False\<rparr>"
  have s2: "flow_updates ?s2 = flow_updates s" "sent ?s2 = sent s" "old_nb_cfg ?s2 = nb"
    "cur_cfg ?s2 = cur_cfg s \<or> cur_cfg ?s2 = nb \<and> cur_cfg s = old_nb_cfg s"
    by auto
  have np: "put_need_put s nb fc \<Longrightarrow> cur_cfg ?s2 = cur_cfg s"
    by (auto simp: put_need_put_def split: if_splits)
  show "old_nb_cfg s' = nb"
    and "(cur_cfg s' = cur_cfg s \<and> flow_updates s' = flow_updates s \<and> sent s' = sent s)
       \<or> (cur_cfg s' = nb \<and> flow_updates s' = flow_updates s \<and> sent s' = sent s
           \<and> (cur_cfg s = old_nb_cfg s \<or> flow_updates s = []))
       \<or> (cur_cfg s' = cur_cfg s \<and> sent s' \<noteq> sent s
           \<and> (\<exists>x. flow_updates s' = rev (track_flow_update (rev (flow_updates s)) nb x)))
       \<or> (cur_cfg s' = cur_cfg s \<and> sent s' = sent s \<and> flow_updates s \<noteq> []
           \<and> flow_updates s' = butlast (flow_updates s) @ [(last (flow_updates s))\<lparr>fup_nb_cfg := nb\<rparr>])"
  proof -
    consider (skip) "\<not> put_need_put s nb fc" | (cannot) "put_need_put s nb fc" "\<not> ofctrl_can_put ?s2"
      | (run) "put_need_put s nb fc" "ofctrl_can_put ?s2" by blast
    then have "old_nb_cfg s' = nb \<and> ((cur_cfg s' = cur_cfg s \<and> flow_updates s' = flow_updates s \<and> sent s' = sent s)
       \<or> (cur_cfg s' = nb \<and> flow_updates s' = flow_updates s \<and> sent s' = sent s
           \<and> (cur_cfg s = old_nb_cfg s \<or> flow_updates s = []))
       \<or> (cur_cfg s' = cur_cfg s \<and> sent s' \<noteq> sent s
           \<and> (\<exists>x. flow_updates s' = rev (track_flow_update (rev (flow_updates s)) nb x)))
       \<or> (cur_cfg s' = cur_cfg s \<and> sent s' = sent s \<and> flow_updates s \<noteq> []
           \<and> flow_updates s' = butlast (flow_updates s) @ [(last (flow_updates s))\<lparr>fup_nb_cfg := nb\<rparr>]))"
    proof cases
      case skip
      with assms have "s' = ?s2" by (simp add: ofctrl_put_def Let_def)
      with s2 show ?thesis by auto
    next
      case cannot
      with assms have "s' = ?s2\<lparr>skipped_last_time := True\<rparr>" by (simp add: ofctrl_put_def Let_def)
      with s2 np[OF cannot(1)] show ?thesis by auto
    next
      case run
      with assms obtain r where r: "put_reconcile L ?s2' t p mt = Some r"
        by (cases "put_reconcile L ?s2' t p mt") (simp_all add: ofctrl_put_def Let_def)
      obtain s3 t3 p3 msgs where r3: "r = (s3, t3, p3, msgs)" by (cases r)
      obtain s4 p4 where f: "put_finish s3 p3 msgs nb = (s4, p4)" by (cases "put_finish s3 p3 msgs nb")
      from assms run r r3 f have s4: "s' = s4" by (simp add: ofctrl_put_def Let_def)
      note v = view_fields[OF view_put_reconcile[OF r[unfolded r3]]]
      have v3: "flow_updates s3 = flow_updates s" "sent s3 = sent s" "old_nb_cfg s3 = nb"
        "cur_cfg s3 = cur_cfg s"
        using v np[OF run(1)] by simp_all
      show ?thesis
        using put_finish_cases[OF f] v3 s4 by (cases "msgs = []"; cases "flow_updates s = []") auto
    qed
    then show "old_nb_cfg s' = nb"
    and "(cur_cfg s' = cur_cfg s \<and> flow_updates s' = flow_updates s \<and> sent s' = sent s)
       \<or> (cur_cfg s' = nb \<and> flow_updates s' = flow_updates s \<and> sent s' = sent s
           \<and> (cur_cfg s = old_nb_cfg s \<or> flow_updates s = []))
       \<or> (cur_cfg s' = cur_cfg s \<and> sent s' \<noteq> sent s
           \<and> (\<exists>x. flow_updates s' = rev (track_flow_update (rev (flow_updates s)) nb x)))
       \<or> (cur_cfg s' = cur_cfg s \<and> sent s' = sent s \<and> flow_updates s \<noteq> []
           \<and> flow_updates s' = butlast (flow_updates s) @ [(last (flow_updates s))\<lparr>fup_nb_cfg := nb\<rparr>])"
      by blast+
  qed
qed






lemmas put_defs = ofctrl_put_def put_need_put_def ofctrl_can_put_def put_reconcile_def
  put_finish_def extend_table_uninstalled_def extend_table_installed_def ovn_extend_table_sync_def
  put_installed_step_def put_desired_step_def put_desired_installed_def
  installed_flow_lookup_def desired_flow_lookup_def add_flow_mod_def encode_def queue_msg_def
  installed_flow_add_def installed_flow_dup_def link_installed_to_desired_def
  unlink_all_refs_for_installed_flow_def unlink_installed_to_desired_def installed_flow_destroy_def
  installed_flow_mod_def installed_flow_mod_msg_def installed_flow_del_def

lemmas ex_defs = ex_lib_def ex_hash_def ovn_desired_flow_table_init_def ex_table1_def
  ex_update_engine_def ex_engine_def ex_tables_def ofctrl_init_def
  ofctrl_add_flow_def ofctrl_check_and_add_flow_def desired_flow_alloc_def ovn_flow_init_def
  ovn_flow_match_hash_def desired_flow_insert_def link_flow_to_sb_def

section \<open>Clearing the installed flow table\<close>

lemma cut_links_empty [simp]: "cut_links dh {} = dh"
  by (simp add: cut_links_def)

lemma cut_links_insert:
  "dh d = Some fd \<Longrightarrow>
   cut_links (dh(d \<mapsto> fd\<lparr>d_installed_flow := None\<rparr>)) ds = cut_links dh (insert d ds)"
  by (auto simp: cut_links_def fun_eq_iff)

lemma unlink_refs_ok:
  assumes "ih i = Some fi" "desired_refs fi = ds" "distinct ds"
    and "\<forall>d \<in> set ds. \<exists>fd. dh d = Some fd \<and> d_installed_flow fd = Some i"
    and "case i_desired_flow fi of None \<Rightarrow> ds = [] | Some p \<Rightarrow> p \<in> set ds"
  shows "unlink_refs ih dh i ds
           = Some (ih(i \<mapsto> fi\<lparr>desired_refs := [], i_desired_flow := None\<rparr>), cut_links dh (set ds))"
  using assms
proof (induction ds arbitrary: ih dh fi)
  case Nil
  then have "fi\<lparr>desired_refs := [], i_desired_flow := None\<rparr> = fi"
    by (cases "i_desired_flow fi") simp_all
  with Nil show ?case by (simp add: fun_upd_idem)
next
  case (Cons d ds)
  from Cons.prems(5) obtain p where p: "i_desired_flow fi = Some p" "p \<in> set (d # ds)"
    by (cases "i_desired_flow fi") simp_all
  from Cons.prems(4) obtain fd where fd: "dh d = Some fd" "d_installed_flow fd = Some i" by auto
  let ?prim = "if p = d then (case ds of [] \<Rightarrow> None | x # _ \<Rightarrow> Some x) else Some p"
  let ?fi1 = "fi\<lparr>desired_refs := ds, i_desired_flow := ?prim\<rparr>"
  let ?ih1 = "ih(i \<mapsto> ?fi1)"
  let ?dh1 = "dh(d \<mapsto> fd\<lparr>d_installed_flow := None\<rparr>)"
  have u: "unlink_installed_to_desired ih dh i d = Some (?ih1, ?dh1)"
    using Cons.prems(1,2) p fd by (simp add: unlink_installed_to_desired_def)
  have a1: "?ih1 i = Some ?fi1" by simp
  have a2: "desired_refs ?fi1 = ds" by simp
  have a3: "distinct ds" using Cons.prems(3) by simp
  have a4: "\<forall>d' \<in> set ds. \<exists>fd'. ?dh1 d' = Some fd' \<and> d_installed_flow fd' = Some i"
    using Cons.prems(3,4) by auto
  have a5: "case i_desired_flow ?fi1 of None \<Rightarrow> ds = [] | Some p \<Rightarrow> p \<in> set ds"
    using p by (cases ds) auto
  have r: "unlink_refs ?ih1 ?dh1 i ds
          = Some (?ih1(i \<mapsto> ?fi1\<lparr>desired_refs := [], i_desired_flow := None\<rparr>), cut_links ?dh1 (set ds))"
    using a1 a2 a3 a4 a5 by (intro Cons.IH[where fi = ?fi1]) assumption+
  have e1: "?ih1(i \<mapsto> ?fi1\<lparr>desired_refs := [], i_desired_flow := None\<rparr>)
              = ih(i \<mapsto> fi\<lparr>desired_refs := [], i_desired_flow := None\<rparr>)"
    by simp
  have e2: "cut_links ?dh1 (set ds) = cut_links dh (set (d # ds))"
    using cut_links_insert[of dh d fd "set ds", OF fd(1)] by simp
  have "unlink_refs ih dh i (d # ds) = unlink_refs ?ih1 ?dh1 i ds"
    using u by simp
  with r e1 e2 show ?case by (simp only:)
qed

lemma unlink_all_refs_ok:
  assumes "links_ok ih dh i"
  obtains fi where "ih i = Some fi"
    and "unlink_all_refs_for_installed_flow ih dh i
           = Some (ih(i \<mapsto> fi\<lparr>desired_refs := [], i_desired_flow := None\<rparr>),
                   cut_links dh (set (desired_refs fi)))"
proof -
  from assms obtain fi where fi: "ih i = Some fi" "distinct (desired_refs fi)"
    "\<forall>d \<in> set (desired_refs fi). \<exists>fd. dh d = Some fd \<and> d_installed_flow fd = Some i"
    "case i_desired_flow fi of None \<Rightarrow> desired_refs fi = [] | Some p \<Rightarrow> p \<in> set (desired_refs fi)"
    unfolding links_ok_def by blast
  from unlink_refs_ok[of ih i fi "desired_refs fi" dh, OF fi(1) refl fi(2,3,4)] fi(1) that
  show ?thesis
    by (simp add: unlink_all_refs_for_installed_flow_def)
qed

text \<open>Cutting the links of one installed flow leaves the links of another as they are.\<close>

lemma links_ok_other:
  assumes "links_ok ih dh j" "links_ok ih dh i" "i \<noteq> j" "ih i = Some fi"
  shows "links_ok (ih(i := x)) (cut_links dh (set (desired_refs fi))) j"
proof -
  from assms(1) obtain fj where fj: "ih j = Some fj" "distinct (desired_refs fj)"
    "\<forall>d \<in> set (desired_refs fj). \<exists>fd. dh d = Some fd \<and> d_installed_flow fd = Some j"
    "case i_desired_flow fj of None \<Rightarrow> desired_refs fj = [] | Some p \<Rightarrow> p \<in> set (desired_refs fj)"
    unfolding links_ok_def by blast
  from assms(2,4) have ri: "\<forall>d \<in> set (desired_refs fi). \<exists>fd. dh d = Some fd \<and> d_installed_flow fd = Some i"
    unfolding links_ok_def by auto
  have "d \<notin> set (desired_refs fi)" if "d \<in> set (desired_refs fj)" for d
    using fj(3) ri assms(3) that by fastforce
  then have "\<forall>d \<in> set (desired_refs fj). cut_links dh (set (desired_refs fi)) d = dh d"
    by (simp add: cut_links_def)
  with fj assms(3) show ?thesis unfolding links_ok_def by auto
qed

lemma cut_links_cut_links:
  "cut_links (cut_links dh A) B = cut_links dh (A \<union> B)"
  by (auto simp: cut_links_def fun_eq_iff option.map_comp comp_def split: option.splits)

lemma installed_flow_table_clear_loop_ok:
  assumes "distinct fs" "\<forall>i \<in> set fs. links_ok (iheap s) dh i" "distinct (installed_flows s)"
  shows "\<exists>s'. installed_flow_table_clear_loop fs s dh
                = Some (s', cut_links dh (\<Union>i \<in> set fs. set (desired_refs (the (iheap s i)))))
           \<and> engine_view s' = engine_view s \<and> groups s' = groups s \<and> meters s' = meters s
           \<and> next_xid s' = next_xid s \<and> inext s' = inext s
           \<and> installed_flows s' = filter (\<lambda>i. i \<notin> set fs) (installed_flows s)
           \<and> iheap s' = (\<lambda>i. if i \<in> set fs then None else iheap s i)"
  using assms
proof (induction fs arbitrary: s dh)
  case Nil
  then show ?case by simp
next
  case (Cons f fs)
  let ?s1 = "s\<lparr>installed_flows := remove1 f (installed_flows s)\<rparr>"
  from Cons.prems have lf: "links_ok (iheap s) dh f" by simp
  then obtain fi where fi: "iheap s f = Some fi"
    and u: "unlink_all_refs_for_installed_flow (iheap s) dh f
           = Some ((iheap s)(f \<mapsto> fi\<lparr>desired_refs := [], i_desired_flow := None\<rparr>),
                   cut_links dh (set (desired_refs fi)))"
    by (rule unlink_all_refs_ok)
  let ?ih1 = "(iheap s)(f \<mapsto> fi\<lparr>desired_refs := [], i_desired_flow := None\<rparr>)"
  let ?dh1 = "cut_links dh (set (desired_refs fi))"
  have d: "installed_flow_destroy ?ih1 f = Some ((iheap s)(f := None))"
    by (simp add: installed_flow_destroy_def)
  let ?s2 = "?s1\<lparr>iheap := (iheap s)(f := None)\<rparr>"
  have step: "installed_flow_table_clear_loop (f # fs) s dh = installed_flow_table_clear_loop fs ?s2 ?dh1"
    using u d by (simp add: Let_def)
  have p1: "distinct fs" and nf: "f \<notin> set fs" using Cons.prems(1) by simp_all
  have p2: "\<forall>i \<in> set fs. links_ok (iheap ?s2) ?dh1 i"
  proof
    fix i assume i: "i \<in> set fs"
    with Cons.prems have "links_ok (iheap s) dh i" "f \<noteq> i" by auto
    from links_ok_other[OF this(1) lf this(2) fi, of None]
    show "links_ok (iheap ?s2) ?dh1 i" by simp
  qed
  have p3: "distinct (installed_flows ?s2)" using Cons.prems(3) by simp
  from Cons.IH[OF p1 p2 p3] obtain s' where
    r: "installed_flow_table_clear_loop fs ?s2 ?dh1
          = Some (s', cut_links ?dh1 (\<Union>i \<in> set fs. set (desired_refs (the (iheap ?s2 i)))))"
      "engine_view s' = engine_view ?s2" "groups s' = groups ?s2" "meters s' = meters ?s2"
      "next_xid s' = next_xid ?s2" "inext s' = inext ?s2"
      "installed_flows s' = filter (\<lambda>i. i \<notin> set fs) (installed_flows ?s2)"
      "iheap s' = (\<lambda>i. if i \<in> set fs then None else iheap ?s2 i)"
    by blast
  have e1: "(\<Union>i \<in> set fs. set (desired_refs (the (iheap ?s2 i))))
            = (\<Union>i \<in> set fs. set (desired_refs (the (iheap s i))))"
  proof -
    have "iheap ?s2 i = iheap s i" if "i \<in> set fs" for i using nf that by auto
    then show ?thesis by simp
  qed
  have e2: "cut_links ?dh1 (\<Union>i \<in> set fs. set (desired_refs (the (iheap ?s2 i))))
            = cut_links dh (\<Union>i \<in> set (f # fs). set (desired_refs (the (iheap s i))))"
    unfolding e1 cut_links_cut_links using fi by simp
  have fl: "filter (\<lambda>i. i \<notin> set fs) (remove1 f (installed_flows s))
            = filter (\<lambda>i. i \<notin> set (f # fs)) (installed_flows s)"
    using Cons.prems(3)
    by (simp add: distinct_remove1_removeAll removeAll_filter_not_eq conj_commute eq_commute)
  have ih: "iheap s' = (\<lambda>i. if i \<in> set (f # fs) then None else iheap s i)"
    using r(8) by (auto simp: fun_eq_iff)
  show ?case
    unfolding step using r(1-7) ih fl unfolding e2 by simp
qed

section \<open>Linking and unlinking\<close>

lemma links_ok_primary: "links_ok ih dh i \<Longrightarrow> primary_among_refs ih i"
  by (auto simp: links_ok_def primary_among_refs_def split: option.splits)

lemma links_okD:
  assumes "links_ok ih dh i" "ih i = Some fi"
  shows "distinct (desired_refs fi)"
    and "\<And>d. d \<in> set (desired_refs fi) \<Longrightarrow> \<exists>fd. dh d = Some fd \<and> d_installed_flow fd = Some i"
    and "i_desired_flow fi = None \<Longrightarrow> desired_refs fi = []"
    and "\<And>p. i_desired_flow fi = Some p \<Longrightarrow> p \<in> set (desired_refs fi)"
  using assms by (auto simp: links_ok_def)

lemma link_installed_to_desired_new:
  assumes "ih i = Some fi" "i_desired_flow fi \<noteq> Some d"
    and "desired_refs fi = [] \<longrightarrow> i_desired_flow fi = None" and "dh d = Some fd"
    and "d_installed_flow fd = None" and "d \<notin> set (desired_refs fi)"
  shows "link_installed_to_desired ih dh i d
           = Some (ih(i \<mapsto> fi\<lparr>desired_refs := desired_refs fi @ [d],
                              i_desired_flow := (if desired_refs fi = [] then Some d
                                                 else i_desired_flow fi)\<rparr>),
                   dh(d \<mapsto> fd\<lparr>d_installed_flow := Some i\<rparr>))"
  using assms by (cases "desired_refs fi = []") (simp_all add: link_installed_to_desired_def)

lemma unlink_installed_to_desired_linked:
  assumes "ih i = Some fi" "i_desired_flow fi = Some p" "desired_refs fi \<noteq> []"
    and "dh d = Some fd" "d_installed_flow fd = Some i"
  shows "unlink_installed_to_desired ih dh i d
           = Some (ih(i \<mapsto> fi\<lparr>desired_refs := remove1 d (desired_refs fi),
                              i_desired_flow :=
                                (if p = d
                                 then (case remove1 d (desired_refs fi) of
                                         [] \<Rightarrow> None | x # _ \<Rightarrow> Some x)
                                 else Some p)\<rparr>),
                   dh(d \<mapsto> fd\<lparr>d_installed_flow := None\<rparr>))"
  using assms by (simp add: unlink_installed_to_desired_def Let_def)

lemma link_installed_to_desired_SomeD:
  assumes "link_installed_to_desired ih dh i d = Some r" and "ih i = Some fi"
  shows "i_desired_flow fi = Some d \<or> (\<exists>fd. dh d = Some fd \<and> d_installed_flow fd = None)"
  using assms by (cases "dh d") (auto simp: link_installed_to_desired_def split: if_splits)

lemma links_ok_link:
  assumes ok: "links_ok ih dh i" and fi: "ih i = Some fi"
    and l: "link_installed_to_desired ih dh i d = Some (ih', dh')"
    and j: "links_ok ih dh j"
  shows "links_ok ih' dh' j"
proof (cases "i_desired_flow fi = Some d")
  case True
  with l fi have "ih' = ih" "dh' = dh" by (simp_all add: link_installed_to_desired_def)
  with j show ?thesis by simp
next
  case False
  with link_installed_to_desired_SomeD[OF l fi]
  obtain fd where fd: "dh d = Some fd" "d_installed_flow fd = None" by blast
  note D = links_okD[OF ok fi]
  have nd: "d \<notin> set (desired_refs fi)" using D(2)[of d] fd by auto
  let ?fi' = "fi\<lparr>desired_refs := desired_refs fi @ [d],
                  i_desired_flow := (if desired_refs fi = [] then Some d else i_desired_flow fi)\<rparr>"
  have na: "desired_refs fi = [] \<longrightarrow> i_desired_flow fi = None"
    using D(4) by (cases "i_desired_flow fi") auto
  from l link_installed_to_desired_new[where ih=ih and i=i and dh=dh and d=d, OF fi False na fd nd]
  have e: "ih' = ih(i \<mapsto> ?fi')" "dh' = dh(d \<mapsto> fd\<lparr>d_installed_flow := Some i\<rparr>)"
    by simp_all
  show ?thesis
  proof (cases "j = i")
    case True
    have "case i_desired_flow ?fi' of None \<Rightarrow> desired_refs ?fi' = []
          | Some p \<Rightarrow> p \<in> set (desired_refs ?fi')"
      using D(3,4) by (cases "i_desired_flow fi") auto
    moreover have "\<forall>d' \<in> set (desired_refs ?fi'). \<exists>fd'. dh' d' = Some fd' \<and> d_installed_flow fd' = Some i"
      using D(2) e(2) by auto
    moreover have "distinct (desired_refs ?fi')" using D(1) nd by simp
    ultimately show ?thesis using True e(1) unfolding links_ok_def by simp
  next
    case False
    from j obtain fj where fj: "ih j = Some fj" by (auto simp: links_ok_def)
    note J = links_okD[OF j fj]
    have "d \<notin> set (desired_refs fj)" using J(2)[of d] fd by auto
    then have "\<forall>d' \<in> set (desired_refs fj). dh' d' = dh d'" using e(2) by auto
    with j fj False e(1) show ?thesis unfolding links_ok_def by auto
  qed
qed

lemma links_ok_unlink:
  assumes ok: "links_ok ih dh i" and fi: "ih i = Some fi"
    and u: "unlink_installed_to_desired ih dh i d = Some (ih', dh')"
    and d: "d \<in> set (desired_refs fi)"
    and j: "links_ok ih dh j"
  shows "links_ok ih' dh' j"
proof -
  note D = links_okD[OF ok fi]
  from D(2)[OF d] obtain fd where fd: "dh d = Some fd" "d_installed_flow fd = Some i" by blast
  from D(3) d obtain p where p: "i_desired_flow fi = Some p" by (cases "i_desired_flow fi") auto
  from d have ne: "desired_refs fi \<noteq> []" by auto
  let ?refs = "remove1 d (desired_refs fi)"
  let ?fi' = "fi\<lparr>desired_refs := ?refs,
                  i_desired_flow := (if p = d
                                     then (case ?refs of [] \<Rightarrow> None | x # _ \<Rightarrow> Some x)
                                     else Some p)\<rparr>"
  from u unlink_installed_to_desired_linked[where ih=ih and i=i and dh=dh and d=d, OF fi p ne fd]
  have e: "ih' = ih(i \<mapsto> ?fi')" "dh' = dh(d \<mapsto> fd\<lparr>d_installed_flow := None\<rparr>)"
    by simp_all
  show ?thesis
  proof (cases "j = i")
    case True
    have "case i_desired_flow ?fi' of None \<Rightarrow> desired_refs ?fi' = []
          | Some p \<Rightarrow> p \<in> set (desired_refs ?fi')"
    proof (cases "p = d")
      case True
      then show ?thesis by (cases ?refs) auto
    next
      case False
      with D(4)[OF p] show ?thesis by auto
    qed
    moreover have "\<forall>d' \<in> set (desired_refs ?fi'). \<exists>fd'. dh' d' = Some fd' \<and> d_installed_flow fd' = Some i"
      using D(1,2) e(2) by auto
    moreover have "distinct (desired_refs ?fi')" using D(1) by simp
    ultimately show ?thesis using True e(1) unfolding links_ok_def by simp
  next
    case False
    from j obtain fj where fj: "ih j = Some fj" by (auto simp: links_ok_def)
    note J = links_okD[OF j fj]
    have "d \<notin> set (desired_refs fj)" using J(2)[of d] fd False by auto
    then have "\<forall>d' \<in> set (desired_refs fj). dh' d' = dh d'" using e(2) by auto
    with j fj False e(1) show ?thesis unfolding links_ok_def by auto
  qed
qed

text \<open>
  C9, amended: for an installed flow with consistent links, linking its primary again
  changes nothing; linking a desired flow that is linked to no installed flow makes it
  the primary when there is none, and otherwise appends it to \<^verbatim>\<open>desired_refs\<close> and leaves
  the primary; linking a desired flow that is on \<^verbatim>\<open>desired_refs\<close> and is not the primary
  is not a no-op (it inserts a list node that is already on the list).  Unlinking removes
  the back-link and, if the removed flow was the primary, promotes the head of the
  remaining \<^verbatim>\<open>desired_refs\<close> (or nothing if it is empty).  After every such link or
  unlink the links of every installed flow are still consistent; in particular an
  installed flow with a non-empty \<^verbatim>\<open>desired_refs\<close> has its primary among those flows.
\<close>

theorem link_unlink_installed_to_desired:
  assumes "links_ok ih dh i" and "ih i = Some fi"
  shows "(i_desired_flow fi = Some d \<longrightarrow> link_installed_to_desired ih dh i d = Some (ih, dh))
       \<and> (i_desired_flow fi = None \<and> dh d = Some fd \<and> d_installed_flow fd = None
          \<longrightarrow> link_installed_to_desired ih dh i d
                = Some (ih(i \<mapsto> fi\<lparr>desired_refs := [d], i_desired_flow := Some d\<rparr>),
                        dh(d \<mapsto> fd\<lparr>d_installed_flow := Some i\<rparr>)))
       \<and> (i_desired_flow fi = Some p \<and> p \<noteq> d \<and> dh d = Some fd \<and> d_installed_flow fd = None
          \<longrightarrow> link_installed_to_desired ih dh i d
                = Some (ih(i \<mapsto> fi\<lparr>desired_refs := desired_refs fi @ [d]\<rparr>),
                        dh(d \<mapsto> fd\<lparr>d_installed_flow := Some i\<rparr>)))
       \<and> (i_desired_flow fi \<noteq> Some d \<and> d \<in> set (desired_refs fi)
          \<longrightarrow> link_installed_to_desired ih dh i d = None)
       \<and> (d \<in> set (desired_refs fi) \<and> dh d = Some fd
          \<longrightarrow> unlink_installed_to_desired ih dh i d
                = Some (ih(i \<mapsto> fi\<lparr>desired_refs := remove1 d (desired_refs fi),
                                   i_desired_flow :=
                                     (if i_desired_flow fi = Some d
                                      then (case remove1 d (desired_refs fi) of
                                              [] \<Rightarrow> None | x # _ \<Rightarrow> Some x)
                                      else i_desired_flow fi)\<rparr>),
                        dh(d \<mapsto> fd\<lparr>d_installed_flow := None\<rparr>)))
       \<and> (link_installed_to_desired ih dh i d = Some (ih', dh') \<and> links_ok ih dh j
          \<longrightarrow> links_ok ih' dh' j \<and> primary_among_refs ih' j)
       \<and> (unlink_installed_to_desired ih dh i d = Some (ih', dh')
            \<and> d \<in> set (desired_refs fi) \<and> links_ok ih dh j
          \<longrightarrow> links_ok ih' dh' j \<and> primary_among_refs ih' j)"
proof (intro conjI impI)
  note D = links_okD[OF assms]
  show "link_installed_to_desired ih dh i d = Some (ih, dh)" if "i_desired_flow fi = Some d"
    using that assms(2) by (simp add: link_installed_to_desired_def)
  show "link_installed_to_desired ih dh i d
                = Some (ih(i \<mapsto> fi\<lparr>desired_refs := [d], i_desired_flow := Some d\<rparr>),
                        dh(d \<mapsto> fd\<lparr>d_installed_flow := Some i\<rparr>))"
    if a: "i_desired_flow fi = None \<and> dh d = Some fd \<and> d_installed_flow fd = None"
  proof -
    from a D(3) have e: "desired_refs fi = []" by simp
    have "i_desired_flow fi \<noteq> Some d" "desired_refs fi = [] \<longrightarrow> i_desired_flow fi = None"
      "dh d = Some fd" "d_installed_flow fd = None" "d \<notin> set (desired_refs fi)"
      using a e by auto
    from link_installed_to_desired_new[where ih=ih and i=i and dh=dh and d=d, OF assms(2) this] e
    show ?thesis by simp
  qed
  show "link_installed_to_desired ih dh i d
                = Some (ih(i \<mapsto> fi\<lparr>desired_refs := desired_refs fi @ [d]\<rparr>),
                        dh(d \<mapsto> fd\<lparr>d_installed_flow := Some i\<rparr>))"
    if a: "i_desired_flow fi = Some p \<and> p \<noteq> d \<and> dh d = Some fd \<and> d_installed_flow fd = None"
  proof -
    from a D(4)[of p] have ne: "desired_refs fi \<noteq> []" by auto
    have eq: "fi\<lparr>desired_refs := desired_refs fi @ [d],
                 i_desired_flow := (if desired_refs fi = [] then Some d else i_desired_flow fi)\<rparr>
          = fi\<lparr>desired_refs := desired_refs fi @ [d]\<rparr>"
      using ne by simp
    have nd: "d \<notin> set (desired_refs fi)" using D(2)[of d] a by auto
    have "i_desired_flow fi \<noteq> Some d" "desired_refs fi = [] \<longrightarrow> i_desired_flow fi = None"
      "dh d = Some fd" "d_installed_flow fd = None" "d \<notin> set (desired_refs fi)"
      using a ne nd by auto
    from link_installed_to_desired_new[where ih=ih and i=i and dh=dh and d=d, OF assms(2) this]
    show ?thesis unfolding eq by blast
  qed
  show "link_installed_to_desired ih dh i d = None"
    if a: "i_desired_flow fi \<noteq> Some d \<and> d \<in> set (desired_refs fi)"
  proof -
    from a D(2)[of d] obtain fd where "dh d = Some fd" "d_installed_flow fd = Some i" by blast
    with a assms(2) show ?thesis by (simp add: link_installed_to_desired_def)
  qed
  show "unlink_installed_to_desired ih dh i d
                = Some (ih(i \<mapsto> fi\<lparr>desired_refs := remove1 d (desired_refs fi),
                                   i_desired_flow :=
                                     (if i_desired_flow fi = Some d
                                      then (case remove1 d (desired_refs fi) of
                                              [] \<Rightarrow> None | x # _ \<Rightarrow> Some x)
                                      else i_desired_flow fi)\<rparr>),
                        dh(d \<mapsto> fd\<lparr>d_installed_flow := None\<rparr>))"
    if a: "d \<in> set (desired_refs fi) \<and> dh d = Some fd"
  proof -
    from a D(2)[of d] have di: "d_installed_flow fd = Some i" by auto
    from a D(3) obtain p where p: "i_desired_flow fi = Some p"
      by (cases "i_desired_flow fi") auto
    from a have ne: "desired_refs fi \<noteq> []" by auto
    from a have fd: "dh d = Some fd" by simp
    show ?thesis
      unfolding unlink_installed_to_desired_linked[where ih=ih and i=i and dh=dh and d=d, OF assms(2) p ne fd di] p by simp
  qed
  show "links_ok ih' dh' j" "primary_among_refs ih' j"
    if a: "link_installed_to_desired ih dh i d = Some (ih', dh') \<and> links_ok ih dh j"
    using links_ok_link[OF assms, of d ih' dh' j] a links_ok_primary by blast+
  show "links_ok ih' dh' j" "primary_among_refs ih' j"
    if a: "unlink_installed_to_desired ih dh i d = Some (ih', dh')
            \<and> d \<in> set (desired_refs fi) \<and> links_ok ih dh j"
    using links_ok_unlink[OF assms, of d ih' dh' j] a links_ok_primary by blast+
qed

theorem link_unlink_installed_to_desired_witness:
  "links_ok ex_ih ex_dh 0
   \<and> link_installed_to_desired ex_ih ex_dh 0 0 = Some (ex_ih, ex_dh)
   \<and> map_option (\<lambda>r. map_option desired_refs (fst r 0)) (link_installed_to_desired ex_ih ex_dh 0 2)
       = Some (Some [0, 1, 2])
   \<and> map_option (\<lambda>r. map_option i_desired_flow (fst r 0)) (link_installed_to_desired ex_ih ex_dh 0 2)
       = Some (Some (Some 0))
   \<and> map_option (\<lambda>r. map_option desired_refs (fst r 0)) (unlink_installed_to_desired ex_ih ex_dh 0 0)
       = Some (Some [1])
   \<and> map_option (\<lambda>r. map_option i_desired_flow (fst r 0)) (unlink_installed_to_desired ex_ih ex_dh 0 0)
       = Some (Some (Some 1))
   \<and> map_option (\<lambda>r. primary_among_refs (fst r) 0) (unlink_installed_to_desired ex_ih ex_dh 0 0)
       = Some True"
proof -
  have ok: "links_ok ex_ih ex_dh 0" by (simp add: links_ok_def ex_ih_def ex_dh_def)
  have fi: "ex_ih 0 = Some \<lparr>iflow = ex_flow, desired_refs = [0, 1], i_desired_flow = Some 0\<rparr>"
    by (simp add: ex_ih_def)
  have fd: "ex_dh 2 = Some \<lparr>dflow = ex_flow, references = [], d_installed_flow = None\<rparr>"
    "ex_dh 0 = Some \<lparr>dflow = ex_flow, references = [], d_installed_flow = Some 0\<rparr>"
    by (simp_all add: ex_dh_def)
  obtain ih' dh' where u: "unlink_installed_to_desired ex_ih ex_dh 0 0 = Some (ih', dh')"
    by (simp add: unlink_installed_to_desired_def ex_ih_def ex_dh_def)
  from link_unlink_installed_to_desired[OF ok fi, of 0 "\<lparr>dflow = ex_flow, references = [], d_installed_flow = Some 0\<rparr>" 0 ih' dh' 0]
       link_unlink_installed_to_desired[OF ok fi, of 2 "\<lparr>dflow = ex_flow, references = [], d_installed_flow = None\<rparr>" 0 ih' dh' 0]
       ok fi fd u
  show ?thesis by (auto simp: primary_among_refs_def)
qed

text \<open>
  C9 as stated fails: the desired flow 1 is linked to the installed flow 0 and is not
  its primary; linking it again does not leave the state as it is.
\<close>

theorem link_installed_to_desired_counterexample:
  "links_ok ex_ih ex_dh 0
   \<and> map_option (\<lambda>fd. d_installed_flow fd) (ex_dh 1) = Some (Some 0)
   \<and> map_option desired_refs (ex_ih 0) = Some [0, 1]
   \<and> link_installed_to_desired ex_ih ex_dh 0 1 \<noteq> Some (ex_ih, ex_dh)"
  by (simp add: links_ok_def link_installed_to_desired_def ex_ih_def ex_dh_def)

section \<open>Entering \<open>S_CLEAR_FLOWS\<close>\<close>

lemma run_S_CLEAR_FLOWS_unfold:
  "run_S_CLEAR_FLOWS s dh =
     (case ovn_installed_flow_table_clear
             (snd (queue_msg
                (snd (encode (snd (queue_msg (snd (encode (s\<lparr>need_reinstall_flows := True\<rparr>)
                                                      (OFPT_FLOW_MOD fm_delete_all)))
                                             (fst (encode (s\<lparr>need_reinstall_flows := True\<rparr>)
                                                      (OFPT_FLOW_MOD fm_delete_all)))))
                        (OFPT_GROUP_MOD gm_delete_all)))
                (fst (encode (snd (queue_msg (snd (encode (s\<lparr>need_reinstall_flows := True\<rparr>)
                                                      (OFPT_FLOW_MOD fm_delete_all)))
                                             (fst (encode (s\<lparr>need_reinstall_flows := True\<rparr>)
                                                      (OFPT_FLOW_MOD fm_delete_all)))))
                        (OFPT_GROUP_MOD gm_delete_all))))) dh of
        None \<Rightarrow> None
      | Some (s6, dh1) \<Rightarrow>
          Some ((snd (queue_msg
                   (snd (encode (case groups s6 of None \<Rightarrow> s6
                                 | Some g \<Rightarrow> s6\<lparr>groups := Some (ovn_extend_table_clear g True)\<rparr>)
                           (OFPT_METER_MOD mm_delete_all)))
                   (fst (encode (case groups s6 of None \<Rightarrow> s6
                                 | Some g \<Rightarrow> s6\<lparr>groups := Some (ovn_extend_table_clear g True)\<rparr>)
                           (OFPT_METER_MOD mm_delete_all)))))
                \<lparr>meters := map_option (\<lambda>m. ovn_extend_table_clear m True)
                             (meters (case groups s6 of None \<Rightarrow> s6
                                 | Some g \<Rightarrow> s6\<lparr>groups := Some (ovn_extend_table_clear g True)\<rparr>)),
                  flow_updates := [], state := S_UPDATE_FLOWS\<rparr>, dh1))"
  by (simp add: run_S_CLEAR_FLOWS_def Let_def split_beta encode_def queue_msg_def
      split: option.splits)

lemma run_S_CLEAR_FLOWS_flow_updates:
  assumes "run_S_CLEAR_FLOWS s dh = Some (s', dh')"
  shows "flow_updates s' = []"
  using assms unfolding run_S_CLEAR_FLOWS_unfold
  by (auto split: option.splits)

text \<open>The three messages of \<^verbatim>\<open>run_S_CLEAR_FLOWS\<close>, field by field.\<close>

lemma delete_all_msgs:
  "fm_delete_all = \<lparr>fm_match = None, fm_priority = 0, fm_table_id = 0xff, fm_ofpacts = [],
                    fm_new_cookie = 0, fm_modify_cookie = False, fm_command = OFPFC_DELETE\<rparr>"
  "gm_delete_all = \<lparr>gm_command = OFPGC11_DELETE, gm_group_id = 0xfffffffc,
                    gm_command_bucket_id = 0xffffffff, gm_buckets = []\<rparr>"
  "mm_delete_all = \<lparr>mm_command = OFPMC13_DELETE, mm_meter_id = 0xffffffff, mm_flags = 0,
                    mm_bands = []\<rparr>"
  by (simp_all add: fm_delete_all_def gm_delete_all_def mm_delete_all_def OFPTT_ALL_def
      OFPG_ALL_def OFPG15_BUCKET_ALL_def OFPM13_ALL_def)

text \<open>
  C8: on entering \<open>S_CLEAR_FLOWS\<close> the engine queues, in this order, a delete-all flow-mod
  (command \<^verbatim>\<open>OFPFC_DELETE\<close>, the catch-all match, table \<^verbatim>\<open>OFPTT_ALL\<close> = 0xff), a delete-all
  group-mod (command \<^verbatim>\<open>OFPGC11_DELETE\<close>, group \<^verbatim>\<open>OFPG_ALL\<close> = 0xfffffffc, bucket
  \<^verbatim>\<open>OFPG15_BUCKET_ALL\<close> = 0xffffffff) and a delete-all meter-mod (command
  \<^verbatim>\<open>OFPMC13_DELETE\<close>, meter \<^verbatim>\<open>OFPM13_ALL\<close> = 0xffffffff); it clears the installed flow table
  (every installed flow is freed and the desired flows it referred to are unlinked), the
  installed groups, the installed meters and every flow-update record; it sets
  \<^verbatim>\<open>need_reinstall_flows\<close> and goes to \<open>S_UPDATE_FLOWS\<close>.
\<close>

theorem run_S_CLEAR_FLOWS_effect:
  assumes "installed_table_ok s dh"
  shows "\<exists>s' dh'. run_S_CLEAR_FLOWS s dh = Some (s', dh')
           \<and> sent s' = sent s
                 @ [(next_xid s,
                     OFPT_FLOW_MOD \<lparr>fm_match = None, fm_priority = 0, fm_table_id = 0xff,
                                    fm_ofpacts = [], fm_new_cookie = 0, fm_modify_cookie = False,
                                    fm_command = OFPFC_DELETE\<rparr>),
                    (next_xid s + 1,
                     OFPT_GROUP_MOD \<lparr>gm_command = OFPGC11_DELETE, gm_group_id = 0xfffffffc,
                                     gm_command_bucket_id = 0xffffffff, gm_buckets = []\<rparr>),
                    (next_xid s + 2,
                     OFPT_METER_MOD \<lparr>mm_command = OFPMC13_DELETE, mm_meter_id = 0xffffffff,
                                     mm_flags = 0, mm_bands = []\<rparr>)]
           \<and> installed_flows s' = [] \<and> (\<forall>i \<in> set (installed_flows s). iheap s' i = None)
           \<and> groups s' = map_option (\<lambda>g. g\<lparr>existing := []\<rparr>) (groups s)
           \<and> meters s' = map_option (\<lambda>m. m\<lparr>existing := []\<rparr>) (meters s)
           \<and> flow_updates s' = []
           \<and> need_reinstall_flows s'
           \<and> state s' = S_UPDATE_FLOWS
           \<and> (\<forall>i \<in> set (installed_flows s). \<forall>fi. iheap s i = Some fi \<longrightarrow>
                 (\<forall>d \<in> set (desired_refs fi). \<exists>fd. dh' d = Some fd \<and> d_installed_flow fd = None))"
proof -
  let ?s1 = "s\<lparr>need_reinstall_flows := True\<rparr>"
  let ?e1 = "encode ?s1 (OFPT_FLOW_MOD fm_delete_all)"
  let ?q1 = "queue_msg (snd ?e1) (fst ?e1)"
  let ?e2 = "encode (snd ?q1) (OFPT_GROUP_MOD gm_delete_all)"
  let ?s5 = "snd (queue_msg (snd ?e2) (fst ?e2))"
  have s5: "installed_flows ?s5 = installed_flows s" "iheap ?s5 = iheap s"
    "groups ?s5 = groups s" "meters ?s5 = meters s" "next_xid ?s5 = next_xid s + 2"
    "sent ?s5 = sent s @ [(next_xid s, OFPT_FLOW_MOD fm_delete_all),
                          (next_xid s + 1, OFPT_GROUP_MOD gm_delete_all)]"
    "need_reinstall_flows ?s5"
    by (simp_all add: encode_def queue_msg_def)
  from assms have a: "distinct (installed_flows ?s5)"
    "\<forall>i \<in> set (installed_flows ?s5). links_ok (iheap ?s5) dh i"
    unfolding s5 installed_table_ok_def by simp_all
  let ?dh' = "cut_links dh (\<Union>i \<in> set (installed_flows ?s5). set (desired_refs (the (iheap ?s5 i))))"
  from installed_flow_table_clear_loop_ok[OF a(1) a(2) a(1)] obtain s6 where
    c: "ovn_installed_flow_table_clear ?s5 dh = Some (s6, ?dh')"
    and v: "engine_view s6 = engine_view ?s5" "groups s6 = groups ?s5" "meters s6 = meters ?s5"
      "next_xid s6 = next_xid ?s5"
      "installed_flows s6 = filter (\<lambda>i. i \<notin> set (installed_flows ?s5)) (installed_flows ?s5)"
      "iheap s6 = (\<lambda>i. if i \<in> set (installed_flows ?s5) then None else iheap ?s5 i)"
    unfolding ovn_installed_flow_table_clear_def by blast
  note f = view_fields[OF v(1)]
  have il: "installed_flows s6 = []" unfolding v(5) by (simp add: filter_empty_conv)
  obtain s' where r: "run_S_CLEAR_FLOWS s dh = Some (s', ?dh')"
    and p: "sent s' = sent s6 @ [(next_xid s6, OFPT_METER_MOD mm_delete_all)]"
      "installed_flows s' = installed_flows s6" "iheap s' = iheap s6"
      "groups s' = map_option (\<lambda>g. g\<lparr>existing := []\<rparr>) (groups s6)"
      "meters s' = map_option (\<lambda>m. m\<lparr>existing := []\<rparr>) (meters s6)"
      "flow_updates s' = []" "need_reinstall_flows s' = need_reinstall_flows s6"
      "state s' = S_UPDATE_FLOWS"
    unfolding run_S_CLEAR_FLOWS_unfold c
    by (cases "groups s6"; cases "meters s6")
       (simp_all add: encode_def queue_msg_def ovn_extend_table_clear_def)
  have dh': "\<exists>fd. ?dh' d = Some fd \<and> d_installed_flow fd = None"
    if "i \<in> set (installed_flows s)" "iheap s i = Some fi" "d \<in> set (desired_refs fi)" for i fi d
  proof -
    from assms that(1) have "links_ok (iheap s) dh i" by (simp add: installed_table_ok_def)
    with that(2,3) obtain fd where "dh d = Some fd" by (auto simp: links_ok_def)
    moreover have "d \<in> (\<Union>i \<in> set (installed_flows ?s5). set (desired_refs (the (iheap ?s5 i))))"
      unfolding s5 using that by force
    ultimately show ?thesis by (simp add: cut_links_def)
  qed
  show ?thesis
    using r p v(2-4) f(4,9) s5 il v(6) dh'
    by (intro exI[of _ s'] exI[of _ ?dh']) (simp add: delete_all_msgs)
qed

theorem run_S_CLEAR_FLOWS_effect_witness:
  "installed_table_ok ex_clear_engine ex_dh
   \<and> (case run_S_CLEAR_FLOWS ex_clear_engine ex_dh of
        None \<Rightarrow> False
      | Some (s', dh') \<Rightarrow>
          sent s'
            = [(1, OFPT_FLOW_MOD \<lparr>fm_match = None, fm_priority = 0, fm_table_id = 0xff,
                                  fm_ofpacts = [], fm_new_cookie = 0, fm_modify_cookie = False,
                                  fm_command = OFPFC_DELETE\<rparr>),
               (2, OFPT_GROUP_MOD \<lparr>gm_command = OFPGC11_DELETE, gm_group_id = 0xfffffffc,
                                   gm_command_bucket_id = 0xffffffff, gm_buckets = []\<rparr>),
               (3, OFPT_METER_MOD \<lparr>mm_command = OFPMC13_DELETE, mm_meter_id = 0xffffffff,
                                   mm_flags = 0, mm_bands = []\<rparr>)]
          \<and> installed_flows s' = [] \<and> iheap s' 0 = None
          \<and> groups s' = Some \<lparr>desired = [], existing = []\<rparr>
          \<and> meters s' = Some \<lparr>desired = [], existing = []\<rparr>
          \<and> flow_updates s' = [] \<and> need_reinstall_flows s' \<and> state s' = S_UPDATE_FLOWS
          \<and> map_option d_installed_flow (dh' 0) = Some None
          \<and> map_option d_installed_flow (dh' 1) = Some None)"
proof -
  have ok: "installed_table_ok ex_clear_engine ex_dh"
    by (simp add: installed_table_ok_def links_ok_def ex_clear_engine_def ex_ih_def ex_dh_def)
  have f: "sent ex_clear_engine = []" "next_xid ex_clear_engine = 1"
    "installed_flows ex_clear_engine = [0]"
    "groups ex_clear_engine = Some \<lparr>desired = [], existing = [\<lparr>info_table_id = 1, info_name = ''g''\<rparr>]\<rparr>"
    "meters ex_clear_engine = Some \<lparr>desired = [], existing = []\<rparr>"
    "iheap ex_clear_engine 0 = Some \<lparr>iflow = ex_flow, desired_refs = [0, 1], i_desired_flow = Some 0\<rparr>"
    by (simp_all add: ex_clear_engine_def ex_engine_def ofctrl_init_def ex_tables_def ex_ih_def)
  from run_S_CLEAR_FLOWS_effect[OF ok] ok f show ?thesis
    by auto
qed

section \<open>The queue of flow updates\<close>




text \<open>
  C10, amended: a queue of flow updates sorted by \<^verbatim>\<open>nb_cfg\<close> from head to tail is still
  sorted after \<^verbatim>\<open>ofctrl_put\<close> when the call queued messages (the backward scan drops the
  records with a greater \<^verbatim>\<open>nb_cfg\<close> and overwrites the xid of a tail with an equal one
  before appending), and, when it queued none, provided its \<^verbatim>\<open>nb_cfg\<close> is not below that of
  a record before the tail (the tail then takes the new \<^verbatim>\<open>nb_cfg\<close>); it is still sorted
  after a message is received in \<open>S_UPDATE_FLOWS\<close>, which only removes the head; and
  entering \<open>S_CLEAR_FLOWS\<close> empties it.
\<close>

theorem flow_updates_sorted_preserved:
  assumes "sorted (map fup_nb_cfg (flow_updates s))"
  shows "(ofctrl_put L s t p mt nb fc = Some (s1, t1, p1)
            \<and> (sent s1 = sent s \<longrightarrow> (\<forall>f \<in> set (butlast (flow_updates s)). fup_nb_cfg f \<le> nb))
          \<longrightarrow> sorted (map fup_nb_cfg (flow_updates s1)))
       \<and> sorted (map fup_nb_cfg (flow_updates (fst (recv_S_UPDATE_FLOWS s p oh))))
       \<and> (run_S_CLEAR_FLOWS s dh = Some (s2, dh2) \<longrightarrow> flow_updates s2 = [])"
proof (intro conjI impI)
  assume a: "ofctrl_put L s t p mt nb fc = Some (s1, t1, p1)
            \<and> (sent s1 = sent s \<longrightarrow> (\<forall>f \<in> set (butlast (flow_updates s)). fup_nb_cfg f \<le> nb))"
  then have pt: "ofctrl_put L s t p mt nb fc = Some (s1, t1, p1)" by simp
  have bl: "sorted (map fup_nb_cfg (butlast (flow_updates s)))"
    using assms sorted_butlast[of "map fup_nb_cfg (flow_updates s)"]
    by (cases "flow_updates s = []") (simp_all add: map_butlast)
  from ofctrl_put_cfg(2)[OF pt]
  consider (same) "flow_updates s1 = flow_updates s"
    | (track) x where "flow_updates s1 = rev (track_flow_update (rev (flow_updates s)) nb x)"
    | (tail) "sent s1 = sent s" "flow_updates s \<noteq> []"
      "flow_updates s1 = butlast (flow_updates s) @ [(last (flow_updates s))\<lparr>fup_nb_cfg := nb\<rparr>]"
    by blast
  then show "sorted (map fup_nb_cfg (flow_updates s1))"
  proof cases
    case same
    with assms show ?thesis by simp
  next
    case track
    then show ?thesis
      using assms track_flow_update_sorted[of "rev (flow_updates s)" nb x]
      by (simp add: sorted_map_rev)
  next
    case tail
    with a bl show ?thesis by (auto simp: sorted_append)
  qed
next
  show "sorted (map fup_nb_cfg (flow_updates (fst (recv_S_UPDATE_FLOWS s p oh))))"
    using assms
    by (auto simp: recv_S_UPDATE_FLOWS_def ofctrl_recv_def queue_msg_def Let_def split: list.splits)
next
  assume "run_S_CLEAR_FLOWS s dh = Some (s2, dh2)"
  then show "flow_updates s2 = []"
    by (rule run_S_CLEAR_FLOWS_flow_updates)
qed

theorem flow_updates_sorted_preserved_witness:
  "sorted (map fup_nb_cfg (flow_updates (ex_update_engine\<lparr>flow_updates := [ex_fup 1 3, ex_fup 2 5]\<rparr>)))
   \<and> map_option (\<lambda>r. flow_updates (fst r))
       (ofctrl_put ex_lib (ex_update_engine\<lparr>flow_updates := [ex_fup 1 3, ex_fup 2 5]\<rparr>)
          ex_table1 [] [] 4 True) = Some [ex_fup 1 3, ex_fup 2 4]
   \<and> sorted (map fup_nb_cfg [ex_fup 1 3, ex_fup 2 4])
   \<and> map_option (\<lambda>r. flow_updates (fst r))
       (ofctrl_put ex_lib (ex_update_engine\<lparr>flow_updates := [ex_fup 1 3, ex_fup 2 5]\<rparr>)
          ovn_desired_flow_table_init [] [] 4 True) = Some [ex_fup 1 3, ex_fup 2 4]"
proof -
  let ?s = "ex_update_engine\<lparr>flow_updates := [ex_fup 1 3, ex_fup 2 5]\<rparr>"
  have so: "sorted (map fup_nb_cfg (flow_updates ?s))" by (simp add: ex_fup_def)
  obtain s1 t1 p1 where r1: "ofctrl_put ex_lib ?s ex_table1 [] [] 4 True = Some (s1, t1, p1)"
    and f1: "flow_updates s1 = [ex_fup 1 3, ex_fup 2 4]" and n1: "sent s1 \<noteq> sent ?s"
    by (simp add: ex_defs put_defs Let_def ex_fup_def)
  obtain s2 t2 p2 where r2: "ofctrl_put ex_lib ?s ovn_desired_flow_table_init [] [] 4 True = Some (s2, t2, p2)"
    and f2: "flow_updates s2 = [ex_fup 1 3, ex_fup 2 4]" and n2: "sent s2 = sent ?s"
    by (simp add: ex_defs put_defs Let_def ex_fup_def)
  have h2: "\<forall>f \<in> set (butlast (flow_updates ?s)). fup_nb_cfg f \<le> 4" by (simp add: ex_fup_def)
  from flow_updates_sorted_preserved[OF so, of ex_lib ex_table1 "[]" "[]" 4 True s1 t1 p1]
       flow_updates_sorted_preserved[OF so, of ex_lib ovn_desired_flow_table_init "[]" "[]" 4 True s2 t2 p2]
       r1 f1 n1 r2 f2 n2 h2 so
  show ?thesis by simp
qed

text \<open>
  C10 as stated fails: after two calls of \<^verbatim>\<open>ofctrl_put\<close> that queue messages for
  \<^verbatim>\<open>nb_cfg\<close> 3 and 5, a call with \<^verbatim>\<open>nb_cfg\<close> 2 and nothing to send overwrites the tail:
  the queue holds 3 then 2.
\<close>

theorem flow_updates_sorted_counterexample:
  "map_option (\<lambda>r. map fup_nb_cfg (flow_updates (fst r))) ex_put1 = Some [3]
   \<and> map_option (\<lambda>r. map fup_nb_cfg (flow_updates (fst r))) ex_put2 = Some [3, 5]
   \<and> map_option (\<lambda>r. map fup_nb_cfg (flow_updates (fst r))) ex_put3 = Some [3, 2]
   \<and> \<not> sorted [3, 2 :: int]"
  by (simp add: ex_put1_def ex_put2_def ex_put3_def ex_defs put_defs Let_def)

section \<open>Adding desired flows\<close>

lemma desired_flow_lookup_walk_None:
  "desired_flow_lookup_walk dh ds target su = None \<longleftrightarrow>
     (\<forall>d \<in> set ds. \<forall>fd. dh d = Some fd \<longrightarrow>
        \<not> (hash (dflow fd) = hash target \<and> flow_key (dflow fd) = flow_key target
           \<and> (case su of None \<Rightarrow> True | Some u \<Rightarrow> u \<in> sfr_sb_uuid ` set (references fd))))"
  by (induction ds) (auto simp: flow_key_def split: option.splits)

lemma desired_flow_lookup_walk_Some:
  "desired_flow_lookup_walk dh ds target su = Some d \<Longrightarrow>
     \<exists>fd pre post. ds = pre @ d # post \<and> dh d = Some fd
        \<and> hash (dflow fd) = hash target \<and> flow_key (dflow fd) = flow_key target
        \<and> (case su of None \<Rightarrow> True | Some u \<Rightarrow> u \<in> sfr_sb_uuid ` set (references fd))
        \<and> desired_flow_lookup_walk dh pre target su = None"
proof (induction ds)
  case Nil
  then show ?case by simp
next
  case (Cons a ds)
  show ?case
  proof (cases "desired_flow_lookup_walk dh [a] target su")
    case None
    with Cons.prems have "desired_flow_lookup_walk dh ds target su = Some d"
      by (auto split: option.splits if_splits)
    from Cons.IH[OF this] obtain fd pre post where
      p: "ds = pre @ d # post" "dh d = Some fd" "hash (dflow fd) = hash target"
         "flow_key (dflow fd) = flow_key target"
         "case su of None \<Rightarrow> True | Some u \<Rightarrow> u \<in> sfr_sb_uuid ` set (references fd)"
         "desired_flow_lookup_walk dh pre target su = None"
      by blast
    have "desired_flow_lookup_walk dh (a # pre) target su = None"
      using None p(6) by (auto split: option.splits if_splits)
    with p show ?thesis by (intro exI[of _ fd] exI[of _ "a # pre"] exI[of _ post]) simp
  next
    case (Some x)
    with Cons.prems have "a = d" by (auto split: option.splits if_splits)
    with Some show ?thesis
      by (intro exI[of _ "the (dh d)"] exI[of _ "[]"] exI[of _ ds])
         (auto simp: flow_key_def split: option.splits if_splits)
  qed
qed

lemma hash_ok_key:
  "hash_ok H f \<Longrightarrow> hash_ok H g \<Longrightarrow> flow_key f = flow_key g \<Longrightarrow> hash f = hash g"
  by (simp add: hash_ok_def flow_key_def)

lemma hash_ok_init [simp]: "hash_ok H (ovn_flow_init H tid prio ck m a)"
  by (simp add: hash_ok_def ovn_flow_init_def)

lemma flow_key_init [simp]: "flow_key (ovn_flow_init H tid prio ck m a) = (tid, prio, m)"
  by (simp add: flow_key_def ovn_flow_init_def)

lemma desired_flow_lookup_None:
  assumes "desired_table_ok H t" "hash_ok H target"
  shows "desired_flow_lookup t target su = None \<longleftrightarrow>
     (\<forall>d \<in> set (match_flow_table t). \<forall>fd. dheap t d = Some fd \<longrightarrow>
        \<not> (flow_key (dflow fd) = flow_key target
           \<and> (case su of None \<Rightarrow> True | Some u \<Rightarrow> u \<in> desired_flow_sources fd)))"
proof -
  have h: "hash (dflow fd) = hash target"
    if "d \<in> set (match_flow_table t)" "dheap t d = Some fd" "flow_key (dflow fd) = flow_key target"
    for d fd
  proof -
    from assms(1) that(1,2) have "hash_ok H (dflow fd)" by (auto simp: desired_table_ok_def)
    from hash_ok_key[OF this assms(2) that(3)] show ?thesis .
  qed
  show ?thesis
    unfolding desired_flow_lookup_def desired_flow_lookup_walk_None desired_flow_sources_def
    using h by blast
qed

lemma link_flow_to_sb_fields:
  "match_flow_table (link_flow_to_sb t f u) = match_flow_table t"
  "dnext (link_flow_to_sb t f u) = dnext t"
  "dheap (link_flow_to_sb t f u)
     = (dheap t)(f := map_option (\<lambda>fd. fd\<lparr>references := references fd
                                         @ [\<lparr>sfr_flow = f, sfr_sb_uuid = u\<rparr>]\<rparr>) (dheap t f))"
  by (simp_all add: link_flow_to_sb_def Let_def split: option.splits)

lemma sb_to_flow_find_insert:
  "sb_to_flow_find stfs u = Some stf \<Longrightarrow>
   \<exists>stf'. sb_to_flow_find (sb_to_flow_insert stfs u sfr) u = Some stf'
      \<and> flows stf' = flows stf @ [sfr]"
  by (induction stfs) (auto split: if_splits)

lemma link_flow_to_sb_uuid:
  "\<exists>stf. sb_to_flow_find (uuid_flow_table (link_flow_to_sb t f u)) u = Some stf
     \<and> flows stf = (case sb_to_flow_find (uuid_flow_table t) u of
                      None \<Rightarrow> [] | Some stf0 \<Rightarrow> flows stf0) @ [\<lparr>sfr_flow = f, sfr_sb_uuid = u\<rparr>]"
proof (cases "sb_to_flow_find (uuid_flow_table t) u")
  case None
  then show ?thesis by (simp add: link_flow_to_sb_def Let_def)
next
  case (Some stf0)
  from sb_to_flow_find_insert[OF this, of "\<lparr>sfr_flow = f, sfr_sb_uuid = u\<rparr>"] Some
  show ?thesis by (simp add: link_flow_to_sb_def Let_def)
qed

lemma desired_flow_lookup_walk_first:
  assumes "\<forall>d \<in> set ds. \<exists>fd. dh d = Some fd \<and> hash_ok H (dflow fd)" "hash_ok H target"
  shows "desired_flow_lookup_walk dh ds target None
           = (case filter (\<lambda>d. map_option (\<lambda>fd. flow_key (dflow fd)) (dh d)
                                 = Some (flow_key target)) ds of
                [] \<Rightarrow> None | e # es \<Rightarrow> Some e)"
  using assms(1)
proof (induction ds)
  case Nil
  then show ?case by simp
next
  case (Cons d ds)
  from Cons.prems obtain fd where fd: "dh d = Some fd" "hash_ok H (dflow fd)" by auto
  show ?case
  proof (cases "flow_key (dflow fd) = flow_key target")
    case True
    from hash_ok_key[OF fd(2) assms(2) True] True fd(1) show ?thesis
      by (simp add: flow_key_def)
  next
    case False
    with fd(1) Cons show ?thesis by (auto simp: flow_key_def)
  qed
qed


lemma sb_to_flow_find_insert_other:
  "u' \<noteq> u \<Longrightarrow> sb_to_flow_find (sb_to_flow_insert stfs u sfr) u' = sb_to_flow_find stfs u'"
  by (induction stfs) auto

lemma sb_flow_refs_link:
  "sb_flow_refs (link_flow_to_sb t f u) u'
     = sb_flow_refs t u' @ (if u' = u then [\<lparr>sfr_flow = f, sfr_sb_uuid = u\<rparr>] else [])"
proof (cases "u' = u")
  case True
  from link_flow_to_sb_uuid[of t f u] True show ?thesis
    by (auto simp: sb_flow_refs_def)
next
  case False
  then show ?thesis
    by (cases "sb_to_flow_find (uuid_flow_table t) u")
       (simp_all add: sb_flow_refs_def link_flow_to_sb_def Let_def sb_to_flow_find_insert_other)
qed

lemma sb_flow_refs_cong:
  "uuid_flow_table t' = uuid_flow_table t \<Longrightarrow> sb_flow_refs t' u = sb_flow_refs t u"
  by (simp add: sb_flow_refs_def)

lemma hmap_okD:
  assumes "hmap_ok H" "distinct xs" "x \<notin> set xs"
  shows "distinct (hmap_insert H xs x h)" "set (hmap_insert H xs x h) = insert x (set xs)"
  using assms by (simp_all add: hmap_ok_def)


lemma desired_flow_insert_link:
  assumes "desired_table_ok H t" and "hmap_ok H"
  shows "set (match_flow_table (link_flow_to_sb (snd (desired_flow_insert H t (desired_flow_alloc H tid prio ck m a)))
                             (dnext t) u)) = insert (dnext t) (set (match_flow_table t))"
    and "dnext (link_flow_to_sb (snd (desired_flow_insert H t (desired_flow_alloc H tid prio ck m a)))
                             (dnext t) u) = Suc (dnext t)"
    and "dheap (link_flow_to_sb (snd (desired_flow_insert H t (desired_flow_alloc H tid prio ck m a)))
                             (dnext t) u)
           = (dheap t)(dnext t \<mapsto> \<lparr>dflow = ovn_flow_init H tid prio ck m a,
                                     references = [\<lparr>sfr_flow = dnext t, sfr_sb_uuid = u\<rparr>],
                                     d_installed_flow = None\<rparr>)"
    and "desired_table_ok H (link_flow_to_sb (snd (desired_flow_insert H t (desired_flow_alloc H tid prio ck m a)))
                             (dnext t) u)"
    and "set (desired_flows_of_key (link_flow_to_sb (snd (desired_flow_insert H t (desired_flow_alloc H tid prio ck m a)))
                             (dnext t) u) k)
           = (if k = (tid, prio, m) then {dnext t} else {}) \<union> set (desired_flows_of_key t k)"
    and "sb_flow_refs (link_flow_to_sb (snd (desired_flow_insert H t (desired_flow_alloc H tid prio ck m a)))
                             (dnext t) u) u'
           = sb_flow_refs t u' @ (if u' = u then [\<lparr>sfr_flow = dnext t, sfr_sb_uuid = u\<rparr>] else [])"
    and "distinct (match_flow_table (link_flow_to_sb (snd (desired_flow_insert H t (desired_flow_alloc H tid prio ck m a)))
                             (dnext t) u))"
proof -
  let ?t1 = "snd (desired_flow_insert H t (desired_flow_alloc H tid prio ck m a))"
  let ?t' = "link_flow_to_sb ?t1 (dnext t) u"
  have lt: "\<forall>d \<in> set (match_flow_table t). d < dnext t" and dm: "distinct (match_flow_table t)"
    using assms(1) by (simp_all add: desired_table_ok_def)
  then have nin: "dnext t \<notin> set (match_flow_table t)" by auto
  have mt: "match_flow_table ?t' = hmap_insert H (match_flow_table t) (dnext t)
                                       (ovn_flow_match_hash H tid prio m)"
    by (simp add: link_flow_to_sb_fields desired_flow_insert_def desired_flow_alloc_def
        ovn_flow_init_def)
  show m: "set (match_flow_table ?t') = insert (dnext t) (set (match_flow_table t))"
    unfolding mt by (rule hmap_okD(2)[OF assms(2) dm nin])
  show dd: "distinct (match_flow_table ?t')"
    unfolding mt by (rule hmap_okD(1)[OF assms(2) dm nin])
  show n: "dnext ?t' = Suc (dnext t)"
    by (simp add: link_flow_to_sb_fields desired_flow_insert_def)
  show h: "dheap ?t' = (dheap t)(dnext t \<mapsto> \<lparr>dflow = ovn_flow_init H tid prio ck m a,
                                     references = [\<lparr>sfr_flow = dnext t, sfr_sb_uuid = u\<rparr>],
                                     d_installed_flow = None\<rparr>)"
    by (simp add: link_flow_to_sb_fields desired_flow_insert_def desired_flow_alloc_def)
  have old: "dheap ?t' d = dheap t d" if "d \<in> set (match_flow_table t)" for d
    using that nin unfolding h by auto
  show "desired_table_ok H ?t'"
    unfolding desired_table_ok_def n
  proof (intro conjI ballI)
    show "distinct (match_flow_table ?t')" by (rule dd)
    fix d assume "d \<in> set (match_flow_table ?t')"
    then have c: "d = dnext t \<or> d \<in> set (match_flow_table t)" unfolding m by simp
    with lt show "d < Suc (dnext t)" by (auto simp: less_Suc_eq)
    from c show "\<exists>fd. dheap ?t' d = Some fd \<and> hash_ok H (dflow fd)"
    proof
      assume "d = dnext t"
      then show ?thesis unfolding h by simp
    next
      assume d: "d \<in> set (match_flow_table t)"
      with assms(1) obtain fd where "dheap t d = Some fd" "hash_ok H (dflow fd)"
        by (auto simp: desired_table_ok_def)
      with old[OF d] show ?thesis by simp
    qed
  qed
  show "set (desired_flows_of_key ?t' k)
           = (if k = (tid, prio, m) then {dnext t} else {}) \<union> set (desired_flows_of_key t k)"
  proof -
    have "set (desired_flows_of_key ?t' k)
          = {d \<in> insert (dnext t) (set (match_flow_table t)).
               map_option (\<lambda>fd. flow_key (dflow fd)) (dheap ?t' d) = Some k}"
      unfolding desired_flows_of_key_def using m by simp
    also have "\<dots> = (if k = (tid, prio, m) then {dnext t} else {})
                 \<union> {d \<in> set (match_flow_table t).
                      map_option (\<lambda>fd. flow_key (dflow fd)) (dheap t d) = Some k}"
      using old nin by (auto simp: h)
    finally show ?thesis by (simp add: desired_flows_of_key_def)
  qed
  have "uuid_flow_table ?t1 = uuid_flow_table t" by (simp add: desired_flow_insert_def)
  from sb_flow_refs_cong[OF this, of u'] sb_flow_refs_link[of ?t1 "dnext t" u u']
  show "sb_flow_refs ?t' u'
           = sb_flow_refs t u' @ (if u' = u then [\<lparr>sfr_flow = dnext t, sfr_sb_uuid = u\<rparr>] else [])"
    by simp
qed

text \<open>
  C3, amended: for \<^verbatim>\<open>ofctrl_check_and_add_flow\<close> (and \<^verbatim>\<open>ofctrl_add_flow\<close>, which is the same
  with logging on) on a well-formed table: if a desired flow with the same key already
  lists the source \<^verbatim>\<open>sb_uuid\<close> among its references, the candidate is discarded and the
  table is unchanged; otherwise the candidate is inserted as a new desired flow into the
  match index (wherever the hash map puts it) and linked to the source, in the flow's
  references and at the end of the source's list in the source index, also when desired
  flows with the same key from other sources are there: they stay, and the key then has one
  more desired flow.
\<close>

theorem ofctrl_check_and_add_flow_cases:
  assumes "desired_table_ok H t" and "hmap_ok H"
  shows "((\<exists>d \<in> set (desired_flows_of_key t (tid, prio, m)).
             \<exists>fd. dheap t d = Some fd \<and> u \<in> desired_flow_sources fd)
          \<longrightarrow> ofctrl_check_and_add_flow H t tid prio ck m actions u lg = t)
       \<and> (\<not> (\<exists>d \<in> set (desired_flows_of_key t (tid, prio, m)).
               \<exists>fd. dheap t d = Some fd \<and> u \<in> desired_flow_sources fd)
          \<longrightarrow> set (match_flow_table (ofctrl_check_and_add_flow H t tid prio ck m actions u lg))
                 = insert (dnext t) (set (match_flow_table t))
            \<and> distinct (match_flow_table (ofctrl_check_and_add_flow H t tid prio ck m actions u lg))
            \<and> dheap (ofctrl_check_and_add_flow H t tid prio ck m actions u lg)
                 = (dheap t)(dnext t \<mapsto>
                      \<lparr>dflow = ovn_flow_init H tid prio ck m actions,
                       references = [\<lparr>sfr_flow = dnext t, sfr_sb_uuid = u\<rparr>],
                       d_installed_flow = None\<rparr>)
            \<and> (\<exists>stf. sb_to_flow_find
                        (uuid_flow_table (ofctrl_check_and_add_flow H t tid prio ck m actions u lg)) u
                        = Some stf
                     \<and> \<lparr>sfr_flow = dnext t, sfr_sb_uuid = u\<rparr> \<in> set (flows stf))
            \<and> sb_flow_refs (ofctrl_check_and_add_flow H t tid prio ck m actions u lg) u
                 = sb_flow_refs t u @ [\<lparr>sfr_flow = dnext t, sfr_sb_uuid = u\<rparr>]
            \<and> (\<forall>u'. u' \<noteq> u \<longrightarrow>
                  sb_flow_refs (ofctrl_check_and_add_flow H t tid prio ck m actions u lg) u'
                    = sb_flow_refs t u')
            \<and> set (desired_flows_of_key (ofctrl_check_and_add_flow H t tid prio ck m actions u lg)
                    (tid, prio, m))
                 = insert (dnext t) (set (desired_flows_of_key t (tid, prio, m)))
            \<and> dnext t \<notin> set (desired_flows_of_key t (tid, prio, m))
            \<and> desired_table_ok H (ofctrl_check_and_add_flow H t tid prio ck m actions u lg))
       \<and> ofctrl_add_flow H t tid prio ck m actions u
           = ofctrl_check_and_add_flow H t tid prio ck m actions u True"
proof -
  let ?f = "desired_flow_alloc H tid prio ck m actions"
  let ?P = "\<exists>d \<in> set (desired_flows_of_key t (tid, prio, m)).
             \<exists>fd. dheap t d = Some fd \<and> u \<in> desired_flow_sources fd"
  let ?t' = "ofctrl_check_and_add_flow H t tid prio ck m actions u lg"
  have hk: "hash_ok H (dflow ?f)" "flow_key (dflow ?f) = (tid, prio, m)"
    by (simp_all add: desired_flow_alloc_def)
  have l: "desired_flow_lookup t (dflow ?f) (Some u) \<noteq> None \<longleftrightarrow> ?P"
    unfolding desired_flow_lookup_None[OF assms(1) hk(1)] hk(2) desired_flows_of_key_def
    by simp (metis option.inject)
  have a: "?t' = t" if ?P
  proof -
    from that l have "desired_flow_lookup t (dflow ?f) (Some u) \<noteq> None" by blast
    then show ?thesis by (simp add: ofctrl_check_and_add_flow_def Let_def)
  qed
  have b: "?t' = link_flow_to_sb (snd (desired_flow_insert H t ?f)) (dnext t) u" if "\<not> ?P"
  proof -
    from that l have "desired_flow_lookup t (dflow ?f) (Some u) = None" by blast
    then show ?thesis
      by (simp add: ofctrl_check_and_add_flow_def Let_def split_beta desired_flow_insert_def)
  qed
  have lt: "\<forall>d \<in> set (match_flow_table t). d < dnext t"
    using assms(1) by (simp add: desired_table_ok_def)
  then have nin: "dnext t \<notin> set (desired_flows_of_key t (tid, prio, m))"
    by (auto simp: desired_flows_of_key_def)
  have c: "set (match_flow_table ?t') = insert (dnext t) (set (match_flow_table t))
            \<and> distinct (match_flow_table ?t')
            \<and> dheap ?t' = (dheap t)(dnext t \<mapsto>
                      \<lparr>dflow = ovn_flow_init H tid prio ck m actions,
                       references = [\<lparr>sfr_flow = dnext t, sfr_sb_uuid = u\<rparr>],
                       d_installed_flow = None\<rparr>)
            \<and> (\<exists>stf. sb_to_flow_find (uuid_flow_table ?t') u = Some stf
                     \<and> \<lparr>sfr_flow = dnext t, sfr_sb_uuid = u\<rparr> \<in> set (flows stf))
            \<and> sb_flow_refs ?t' u = sb_flow_refs t u @ [\<lparr>sfr_flow = dnext t, sfr_sb_uuid = u\<rparr>]
            \<and> (\<forall>u'. u' \<noteq> u \<longrightarrow> sb_flow_refs ?t' u' = sb_flow_refs t u')
            \<and> set (desired_flows_of_key ?t' (tid, prio, m))
                 = insert (dnext t) (set (desired_flows_of_key t (tid, prio, m)))
            \<and> desired_table_ok H ?t'" if np: "\<not> ?P"
  proof -
    note I = desired_flow_insert_link[OF assms, of tid prio ck m actions u, folded b[OF np]]
    have u: "\<exists>stf. sb_to_flow_find (uuid_flow_table ?t') u = Some stf
                     \<and> \<lparr>sfr_flow = dnext t, sfr_sb_uuid = u\<rparr> \<in> set (flows stf)"
      unfolding b[OF np]
      using link_flow_to_sb_uuid[of "snd (desired_flow_insert H t ?f)" "dnext t" u] by auto
    show ?thesis
      using I(1,3,4,7) I(5)[of "(tid, prio, m)"] I(6)[of u] I(6) u by simp
  qed
  show ?thesis
    using a c nin by (auto simp: ofctrl_add_flow_def)
qed

lemma ex_hash_ok: "hmap_ok ex_hash"
  by (simp add: hmap_ok_def ex_hash_def)

lemma ex_table1_fields:
  "match_flow_table ex_table1 = [0]" "dnext ex_table1 = 1"
  "dheap ex_table1 = [0 \<mapsto> \<lparr>dflow = ovn_flow_init ex_hash 0 100 7 42 [1, 2],
                              references = [\<lparr>sfr_flow = 0, sfr_sb_uuid = 11\<rparr>],
                              d_installed_flow = None\<rparr>]"
  "uuid_flow_table ex_table1 = [\<lparr>stf_sb_uuid = 11, flows = [\<lparr>sfr_flow = 0, sfr_sb_uuid = 11\<rparr>]\<rparr>]"
  by (simp_all add: ex_table1_def ofctrl_add_flow_def ofctrl_check_and_add_flow_def Let_def
      desired_flow_lookup_def ovn_desired_flow_table_init_def desired_flow_insert_def
      link_flow_to_sb_def desired_flow_alloc_def ex_hash_def)

theorem ofctrl_check_and_add_flow_cases_witness:
  "desired_table_ok ex_hash ex_table1 \<and> hmap_ok ex_hash
   \<and> ofctrl_add_flow ex_hash ex_table1 0 100 7 42 [1, 2] 11 = ex_table1
   \<and> set (match_flow_table (ofctrl_add_flow ex_hash ex_table1 0 100 7 42 [1, 2] 12)) = {0, 1}
   \<and> set (desired_flows_of_key (ofctrl_add_flow ex_hash ex_table1 0 100 7 42 [1, 2] 12)
            (0, 100, 42)) = {0, 1}
   \<and> sb_flow_refs (ofctrl_add_flow ex_hash ex_table1 0 100 7 42 [1, 2] 12) 12
       = [\<lparr>sfr_flow = 1, sfr_sb_uuid = 12\<rparr>]
   \<and> sb_flow_refs (ofctrl_add_flow ex_hash ex_table1 0 100 7 42 [1, 2] 12) 11
       = [\<lparr>sfr_flow = 0, sfr_sb_uuid = 11\<rparr>]
   \<and> set (match_flow_table (ofctrl_add_flow ex_hash ex_table1 0 100 7 43 [1, 2] 11)) = {0, 1}
   \<and> set (desired_flows_of_key (ofctrl_add_flow ex_hash ex_table1 0 100 7 43 [1, 2] 11)
            (0, 100, 43)) = {1}
   \<and> sb_flow_refs (ofctrl_add_flow ex_hash ex_table1 0 100 7 43 [1, 2] 11) 11
       = [\<lparr>sfr_flow = 0, sfr_sb_uuid = 11\<rparr>, \<lparr>sfr_flow = 1, sfr_sb_uuid = 11\<rparr>]"
proof -
  have ok: "desired_table_ok ex_hash ex_table1"
    by (simp add: desired_table_ok_def ex_table1_fields)
  have k: "desired_flows_of_key ex_table1 (0, 100, 42) = [0]"
    "desired_flows_of_key ex_table1 (0, 100, 43) = []"
    by (simp_all add: desired_flows_of_key_def ex_table1_fields)
  have s: "desired_flow_sources \<lparr>dflow = ovn_flow_init ex_hash 0 100 7 42 [1, 2],
                              references = [\<lparr>sfr_flow = 0, sfr_sb_uuid = 11\<rparr>],
                              d_installed_flow = None\<rparr> = {11}"
    by (simp add: desired_flow_sources_def)
  have r: "sb_flow_refs ex_table1 11 = [\<lparr>sfr_flow = 0, sfr_sb_uuid = 11\<rparr>]"
    "sb_flow_refs ex_table1 12 = []"
    by (simp_all add: sb_flow_refs_def ex_table1_fields)
  from ofctrl_check_and_add_flow_cases[OF ok ex_hash_ok, of 0 100 42 11 7 "[1, 2]" True]
       ofctrl_check_and_add_flow_cases[OF ok ex_hash_ok, of 0 100 42 12 7 "[1, 2]" True]
       ofctrl_check_and_add_flow_cases[OF ok ex_hash_ok, of 0 100 43 11 7 "[1, 2]" True]
       ok ex_hash_ok k s r
  show ?thesis by (simp add: ex_table1_fields insert_commute)
qed

text \<open>
  C3 as stated fails: after the sources 11 and 12 have added the same flow, the match
  index holds two desired flows with the same key, one for each source.
\<close>

theorem ofctrl_add_flow_counterexample:
  "set (match_flow_table ex_table2) = {0, 1}
   \<and> length (match_flow_table ex_table2) = 2
   \<and> map_option (\<lambda>fd. (flow_key (dflow fd), references fd)) (dheap ex_table2 0)
       = Some ((0, 100, 42), [\<lparr>sfr_flow = 0, sfr_sb_uuid = 11\<rparr>])
   \<and> map_option (\<lambda>fd. (flow_key (dflow fd), references fd)) (dheap ex_table2 1)
       = Some ((0, 100, 42), [\<lparr>sfr_flow = 1, sfr_sb_uuid = 12\<rparr>])"
  by (simp add: ex_table2_def ex_table1_fields ofctrl_add_flow_def ofctrl_check_and_add_flow_def
      Let_def desired_flow_lookup_def desired_flow_insert_def link_flow_to_sb_def
      desired_flow_alloc_def ovn_flow_init_def flow_key_def ex_hash_def insert_commute)

lemma ofpacts_init:
  "(ovn_flow_init H tid prio ck m a)\<lparr>ofpacts := b\<rparr> = ovn_flow_init H tid prio ck m b"
  by (simp add: ovn_flow_init_def)







section \<open>What a reconciliation achieves\<close>

lemma put_invD:
  assumes "put_inv H il ih mt dh"
  shows "distinct il" and "distinct mt"
    and "\<And>i. i \<in> set il \<Longrightarrow> links_ok ih dh i"
    and "\<And>i fi. i \<in> set il \<Longrightarrow> ih i = Some fi \<Longrightarrow> hash_ok H (iflow fi)"
    and "\<And>i fi d. i \<in> set il \<Longrightarrow> ih i = Some fi \<Longrightarrow> d \<in> set (desired_refs fi) \<Longrightarrow>
           d \<in> set mt \<and> (\<exists>fd. dh d = Some fd \<and> flow_key (dflow fd) = flow_key (iflow fi))"
    and "\<And>i j fi fj. i \<in> set il \<Longrightarrow> j \<in> set il \<Longrightarrow> ih i = Some fi \<Longrightarrow> ih j = Some fj \<Longrightarrow>
           flow_key (iflow fi) = flow_key (iflow fj) \<Longrightarrow> i = j"
    and "\<And>d. d \<in> set mt \<Longrightarrow> \<exists>fd. dh d = Some fd \<and> hash_ok H (dflow fd)"
    and "\<And>d fd i. d \<in> set mt \<Longrightarrow> dh d = Some fd \<Longrightarrow> d_installed_flow fd = Some i \<Longrightarrow>
           i \<in> set il \<and> (\<exists>fi. ih i = Some fi \<and> d \<in> set (desired_refs fi))"
proof -
  show "distinct il" "distinct mt" using assms by (simp_all add: put_inv_def)
  show "links_ok ih dh i" if "i \<in> set il" for i using assms that by (simp add: put_inv_def)
  show "hash_ok H (iflow fi)" if "i \<in> set il" "ih i = Some fi" for i fi
    using assms that unfolding put_inv_def by blast
  show "d \<in> set mt \<and> (\<exists>fd. dh d = Some fd \<and> flow_key (dflow fd) = flow_key (iflow fi))"
    if "i \<in> set il" "ih i = Some fi" "d \<in> set (desired_refs fi)" for i fi d
    using assms that unfolding put_inv_def by blast
  show "i = j" if "i \<in> set il" "j \<in> set il" "ih i = Some fi" "ih j = Some fj"
    "flow_key (iflow fi) = flow_key (iflow fj)" for i j fi fj
    using assms that unfolding put_inv_def by blast
  show "\<exists>fd. dh d = Some fd \<and> hash_ok H (dflow fd)" if "d \<in> set mt" for d
    using assms that unfolding put_inv_def by blast
  show "i \<in> set il \<and> (\<exists>fi. ih i = Some fi \<and> d \<in> set (desired_refs fi))"
    if "d \<in> set mt" "dh d = Some fd" "d_installed_flow fd = Some i" for d fd i
  proof -
    from assms that(1) obtain fd' where "dh d = Some fd'"
      "\<forall>i. d_installed_flow fd' = Some i
                 \<longrightarrow> i \<in> set il \<and> (\<exists>fi. ih i = Some fi \<and> d \<in> set (desired_refs fi))"
      unfolding put_inv_def by blast
    with that(2,3) show ?thesis by simp
  qed
qed

lemma put_invI:
  assumes "distinct il" and "distinct mt"
    and "\<And>i. i \<in> set il \<Longrightarrow> links_ok ih dh i"
    and "\<And>i fi. i \<in> set il \<Longrightarrow> ih i = Some fi \<Longrightarrow> hash_ok H (iflow fi)"
    and "\<And>i fi d. i \<in> set il \<Longrightarrow> ih i = Some fi \<Longrightarrow> d \<in> set (desired_refs fi) \<Longrightarrow>
           d \<in> set mt \<and> (\<exists>fd. dh d = Some fd \<and> flow_key (dflow fd) = flow_key (iflow fi))"
    and "\<And>i j fi fj. i \<in> set il \<Longrightarrow> j \<in> set il \<Longrightarrow> ih i = Some fi \<Longrightarrow> ih j = Some fj \<Longrightarrow>
           flow_key (iflow fi) = flow_key (iflow fj) \<Longrightarrow> i = j"
    and "\<And>d. d \<in> set mt \<Longrightarrow> \<exists>fd. dh d = Some fd \<and> hash_ok H (dflow fd)"
    and "\<And>d fd i. d \<in> set mt \<Longrightarrow> dh d = Some fd \<Longrightarrow> d_installed_flow fd = Some i \<Longrightarrow>
           i \<in> set il \<and> (\<exists>fi. ih i = Some fi \<and> d \<in> set (desired_refs fi))"
  shows "put_inv H il ih mt dh"
  unfolding put_inv_def
proof (intro conjI ballI allI impI)
  show "distinct il" "distinct mt" by fact+
  show "links_ok ih dh i" if "i \<in> set il" for i using assms(3) that .
  show "hash_ok H (iflow fi)" if "i \<in> set il" "ih i = Some fi" for i fi using assms(4) that .
  show "d \<in> set mt" if "i \<in> set il" "ih i = Some fi" "d \<in> set (desired_refs fi)" for i fi d
    using assms(5)[OF that] by simp
  show "\<exists>fd. dh d = Some fd \<and> flow_key (dflow fd) = flow_key (iflow fi)"
    if "i \<in> set il" "ih i = Some fi" "d \<in> set (desired_refs fi)" for i fi d
    using assms(5)[OF that] by simp
  show "i = j" if "i \<in> set il" "j \<in> set il"
    "ih i = Some fi \<and> ih j = Some fj \<and> flow_key (iflow fi) = flow_key (iflow fj)" for i j fi fj
    using assms(6)[of i j fi fj] that by simp
  show "\<exists>fd. dh d = Some fd \<and> hash_ok H (dflow fd)
           \<and> (\<forall>i. d_installed_flow fd = Some i
                 \<longrightarrow> i \<in> set il \<and> (\<exists>fi. ih i = Some fi \<and> d \<in> set (desired_refs fi)))"
    if "d \<in> set mt" for d
  proof -
    from assms(7)[OF that] obtain fd where fd: "dh d = Some fd" "hash_ok H (dflow fd)" by blast
    with assms(8)[OF that fd(1)] show ?thesis by blast
  qed
qed

lemma cut_links_Some:
  assumes "dh d = Some fd"
  shows "cut_links dh R d
           = Some (fd\<lparr>d_installed_flow := (if d \<in> R then None else d_installed_flow fd)\<rparr>)"
  using assms by (simp add: cut_links_def)

lemma cut_links_SomeD:
  assumes "cut_links dh R d = Some fd'"
  obtains fd where "dh d = Some fd"
    "fd' = fd\<lparr>d_installed_flow := (if d \<in> R then None else d_installed_flow fd)\<rparr>"
proof (cases "dh d")
  case None
  with assms show ?thesis by (simp add: cut_links_def split: if_splits)
next
  case (Some fd)
  have "cut_links dh R d
           = Some (fd\<lparr>d_installed_flow := (if d \<in> R then None else d_installed_flow fd)\<rparr>)"
    using Some by (simp add: cut_links_def)
  with assms that[of fd] Some show ?thesis by simp
qed

lemma links_ok_cong:
  assumes "links_ok ih dh j" "ih' j = ih j"
    and "\<And>fj d fd. ih j = Some fj \<Longrightarrow> d \<in> set (desired_refs fj) \<Longrightarrow> dh d = Some fd \<Longrightarrow>
           \<exists>fd'. dh' d = Some fd' \<and> d_installed_flow fd' = d_installed_flow fd"
  shows "links_ok ih' dh' j"
proof -
  from assms(1) obtain fj where fj: "ih j = Some fj" "distinct (desired_refs fj)"
    "\<forall>d \<in> set (desired_refs fj). \<exists>fd. dh d = Some fd \<and> d_installed_flow fd = Some j"
    "case i_desired_flow fj of None \<Rightarrow> desired_refs fj = [] | Some p \<Rightarrow> p \<in> set (desired_refs fj)"
    unfolding links_ok_def by blast
  have "\<exists>fd'. dh' d = Some fd' \<and> d_installed_flow fd' = Some j" if "d \<in> set (desired_refs fj)" for d
  proof -
    from fj(3) that obtain fd where fd: "dh d = Some fd" "d_installed_flow fd = Some j" by blast
    from assms(3)[OF fj(1) that fd(1)] fd(2) show ?thesis by auto
  qed
  with fj assms(2) show ?thesis unfolding links_ok_def by auto
qed

lemma refs_disjoint:
  assumes "links_ok ih dh i" "links_ok ih dh j" "i \<noteq> j" "ih i = Some fi" "ih j = Some fj"
  shows "set (desired_refs fi) \<inter> set (desired_refs fj) = {}"
proof -
  have "False" if "d \<in> set (desired_refs fi)" "d \<in> set (desired_refs fj)" for d
  proof -
    from links_okD(2)[OF assms(1,4) that(1)] links_okD(2)[OF assms(2,5) that(2)] assms(3)
    show False by auto
  qed
  then show ?thesis by auto
qed

lemma put_inv_delete:
  assumes inv: "put_inv H il ih mt dh" and i: "i \<in> set il" and fi: "ih i = Some fi"
  shows "put_inv H (remove1 i il) (ih(i := None)) mt (cut_links dh (set (desired_refs fi)))"
proof (rule put_invI)
  note D = put_invD[OF inv]
  let ?R = "set (desired_refs fi)"
  let ?dh = "cut_links dh ?R"
  have mem: "j \<in> set (remove1 i il) \<longleftrightarrow> j \<in> set il \<and> j \<noteq> i" for j
    using D(1) by simp
  show "distinct (remove1 i il)" using D(1) by simp
  show "distinct mt" by (rule D(2))
  show "links_ok (ih(i := None)) ?dh j" if "j \<in> set (remove1 i il)" for j
  proof -
    from that mem have j: "j \<in> set il" "i \<noteq> j" by auto
    show ?thesis by (rule links_ok_other[OF D(3)[OF j(1)] D(3)[OF i] j(2) fi])
  qed
  show "hash_ok H (iflow fj)" if "j \<in> set (remove1 i il)" "(ih(i := None)) j = Some fj" for j fj
    using D(4)[of j fj] that mem by (auto split: if_splits)
  show "d \<in> set mt \<and> (\<exists>fd. ?dh d = Some fd \<and> flow_key (dflow fd) = flow_key (iflow fj))"
    if "j \<in> set (remove1 i il)" "(ih(i := None)) j = Some fj" "d \<in> set (desired_refs fj)"
    for j fj d
  proof -
    from that mem have j: "j \<in> set il" "ih j = Some fj" by (auto split: if_splits)
    from D(5)[OF j that(3)] obtain fd where "d \<in> set mt" "dh d = Some fd"
      "flow_key (dflow fd) = flow_key (iflow fj)" by blast
    then show ?thesis by (simp add: cut_links_Some)
  qed
  show "j = k" if "j \<in> set (remove1 i il)" "k \<in> set (remove1 i il)"
    "(ih(i := None)) j = Some fj" "(ih(i := None)) k = Some fk"
    "flow_key (iflow fj) = flow_key (iflow fk)" for j k fj fk
    using D(6)[of j k fj fk] that mem by (auto split: if_splits)
  show "\<exists>fd. ?dh d = Some fd \<and> hash_ok H (dflow fd)" if "d \<in> set mt" for d
    using D(7)[OF that] by (auto simp: cut_links_Some)
  show "j \<in> set (remove1 i il) \<and> (\<exists>fj. (ih(i := None)) j = Some fj \<and> d \<in> set (desired_refs fj))"
    if "d \<in> set mt" "?dh d = Some fd'" "d_installed_flow fd' = Some j" for d fd' j
  proof -
    from that(2) obtain fd where fd: "dh d = Some fd"
      "fd' = fd\<lparr>d_installed_flow := (if d \<in> ?R then None else d_installed_flow fd)\<rparr>"
      by (rule cut_links_SomeD)
    with that(3) have nR: "d \<notin> ?R" and dj: "d_installed_flow fd = Some j"
      by (auto split: if_splits)
    from D(8)[OF that(1) fd(1) dj] obtain fj where j: "j \<in> set il" "ih j = Some fj"
      "d \<in> set (desired_refs fj)" by blast
    with nR fi have "j \<noteq> i" by auto
    with j mem show ?thesis by auto
  qed
qed

lemma put_inv_relink:
  assumes inv: "put_inv H il ih mt dh" and i: "i \<in> set il" and fi: "ih i = Some fi"
    and d: "d \<in> set mt" and fd: "dh d = Some fd"
    and k: "flow_key (dflow fd) = flow_key (iflow fi)"
  shows "put_inv H il
           (ih(i \<mapsto> \<lparr>iflow = (iflow fi)\<lparr>ofpacts := a, cookie := c\<rparr>, desired_refs = [d],
                     i_desired_flow = Some d\<rparr>))
           mt ((cut_links dh (set (desired_refs fi)))(d \<mapsto> fd\<lparr>d_installed_flow := Some i\<rparr>))"
proof (rule put_invI)
  note D = put_invD[OF inv]
  let ?R = "set (desired_refs fi)"
  let ?fi = "\<lparr>iflow = (iflow fi)\<lparr>ofpacts := a, cookie := c\<rparr>, desired_refs = [d],
             i_desired_flow = Some d\<rparr>"
  let ?ih = "ih(i \<mapsto> ?fi)"
  let ?dh = "(cut_links dh ?R)(d \<mapsto> fd\<lparr>d_installed_flow := Some i\<rparr>)"
  have kk: "flow_key (iflow ?fi) = flow_key (iflow fi)" "hash_ok H (iflow ?fi) = hash_ok H (iflow fi)"
    by (simp_all add: flow_key_def hash_ok_def)
  have dj: "d \<notin> set (desired_refs fj)" if "j \<in> set il" "j \<noteq> i" "ih j = Some fj" for j fj
  proof
    assume m: "d \<in> set (desired_refs fj)"
    from D(5)[OF that(1,3) m] fd have "flow_key (dflow fd) = flow_key (iflow fj)" by auto
    with k D(6)[OF i that(1) fi that(3)] that(2) show False by simp
  qed
  show "distinct il" "distinct mt" by (rule D(1), rule D(2))
  show "links_ok ?ih ?dh j" if "j \<in> set il" for j
  proof (cases "j = i")
    case True
    then show ?thesis by (simp add: links_ok_def)
  next
    case False
    from D(3)[OF that] obtain fj where fj: "ih j = Some fj" by (auto simp: links_ok_def)
    have "links_ok (ih(i := Some ?fi)) (cut_links dh ?R) j"
      by (rule links_ok_other[OF D(3)[OF that] D(3)[OF i] _ fi]) (use False in simp)
    then show ?thesis
    proof (rule links_ok_cong)
      show "?ih j = (ih(i := Some ?fi)) j" by simp
      show "\<exists>fd'. ?dh d' = Some fd' \<and> d_installed_flow fd' = d_installed_flow fd0"
        if "(ih(i := Some ?fi)) j = Some fj'" "d' \<in> set (desired_refs fj')"
          "cut_links dh ?R d' = Some fd0" for fj' d' fd0
      proof -
        from that(1) False fj have "fj' = fj" by simp
        with that(2) dj[OF \<open>j \<in> set il\<close> False fj] have "d' \<noteq> d" by auto
        with that(3) show ?thesis by simp
      qed
    qed
  qed
  show "hash_ok H (iflow fj)" if "j \<in> set il" "?ih j = Some fj" for j fj
    using D(4)[of j fj] D(4)[OF i fi] that kk by (auto split: if_splits)
  show "d' \<in> set mt \<and> (\<exists>fd'. ?dh d' = Some fd' \<and> flow_key (dflow fd') = flow_key (iflow fj))"
    if "j \<in> set il" "?ih j = Some fj" "d' \<in> set (desired_refs fj)" for j fj d'
  proof (cases "j = i")
    case True
    with that d k kk show ?thesis by auto
  next
    case False
    with that have j: "ih j = Some fj" by simp
    from dj[OF that(1) False j] that(3) have ne: "d' \<noteq> d" by auto
    from D(5)[OF that(1) j that(3)] obtain fd' where "d' \<in> set mt" "dh d' = Some fd'"
      "flow_key (dflow fd') = flow_key (iflow fj)" by blast
    with ne show ?thesis by (simp add: cut_links_Some)
  qed
  show "j = l" if a: "j \<in> set il" "l \<in> set il" "?ih j = Some fj" "?ih l = Some fl"
    "flow_key (iflow fj) = flow_key (iflow fl)" for j l fj fl
  proof -
    have "\<exists>fj0. ih j = Some fj0 \<and> flow_key (iflow fj0) = flow_key (iflow fj)"
      using a(3) fi kk by (cases "j = i") auto
    then obtain fj0 where j0: "ih j = Some fj0" "flow_key (iflow fj0) = flow_key (iflow fj)"
      by blast
    have "\<exists>fl0. ih l = Some fl0 \<and> flow_key (iflow fl0) = flow_key (iflow fl)"
      using a(4) fi kk by (cases "l = i") auto
    then obtain fl0 where l0: "ih l = Some fl0" "flow_key (iflow fl0) = flow_key (iflow fl)"
      by blast
    from D(6)[OF a(1,2) j0(1) l0(1)] j0(2) l0(2) a(5) show ?thesis by simp
  qed
  show "\<exists>fd'. ?dh d' = Some fd' \<and> hash_ok H (dflow fd')" if "d' \<in> set mt" for d'
    using D(7)[OF that] D(7)[OF d] fd by (auto simp: cut_links_Some)
  show "j \<in> set il \<and> (\<exists>fj. ?ih j = Some fj \<and> d' \<in> set (desired_refs fj))"
    if "d' \<in> set mt" "?dh d' = Some fd'" "d_installed_flow fd' = Some j" for d' fd' j
  proof (cases "d' = d")
    case True
    with that i show ?thesis by auto
  next
    case False
    with that(2) have "cut_links dh ?R d' = Some fd'" by simp
    then obtain fd0 where fd0: "dh d' = Some fd0"
      "fd' = fd0\<lparr>d_installed_flow := (if d' \<in> ?R then None else d_installed_flow fd0)\<rparr>"
      by (rule cut_links_SomeD)
    with that(3) have nR: "d' \<notin> ?R" and dj': "d_installed_flow fd0 = Some j"
      by (auto split: if_splits)
    from D(8)[OF that(1) fd0(1) dj'] obtain fj where j: "j \<in> set il" "ih j = Some fj"
      "d' \<in> set (desired_refs fj)" by blast
    with nR fi have "j \<noteq> i" by auto
    with j show ?thesis by auto
  qed
qed

lemma flow_view_fields:
  assumes "flow_view s' = flow_view s"
  shows "installed_flows s' = installed_flows s" "iheap s' = iheap s" "inext s' = inext s"
  using assms by (simp_all add: flow_view_def)

lemma flow_view_add_flow_mod [simp]: "flow_view (fst (add_flow_mod s fm msgs)) = flow_view s"
  by (simp add: add_flow_mod_def encode_def flow_view_def)

lemma desired_flows_of_key_cut:
  "desired_flows_of_key (t\<lparr>dheap := cut_links (dheap t) R\<rparr>) k = desired_flows_of_key t k"
proof -
  have "map_option (\<lambda>fd. flow_key (dflow fd)) (cut_links (dheap t) R d)
        = map_option (\<lambda>fd. flow_key (dflow fd)) (dheap t d)" for d
    by (cases "dheap t d") (simp_all add: cut_links_def)
  then show ?thesis by (simp add: desired_flows_of_key_def)
qed

lemma desired_flows_of_key_Cons:
  assumes "desired_flows_of_key t k = d # ds"
  shows "d \<in> set (match_flow_table t)"
    and "\<exists>fd. dheap t d = Some fd \<and> flow_key (dflow fd) = k"
proof -
  from assms have "d \<in> set (desired_flows_of_key t k)" by simp
  then show "d \<in> set (match_flow_table t)"
    and "\<exists>fd. dheap t d = Some fd \<and> flow_key (dflow fd) = k"
    by (auto simp: desired_flows_of_key_def)
qed

lemma put_inv_lookup:
  assumes inv: "put_inv H il ih (match_flow_table t) (dheap t)" and "hash_ok H target"
  shows "desired_flow_lookup (t\<lparr>dheap := cut_links (dheap t) R\<rparr>) target None
           = (case desired_flows_of_key t (flow_key target) of [] \<Rightarrow> None | e # es \<Rightarrow> Some e)"
proof -
  let ?t = "t\<lparr>dheap := cut_links (dheap t) R\<rparr>"
  have "\<forall>d \<in> set (match_flow_table ?t). \<exists>fd. dheap ?t d = Some fd \<and> hash_ok H (dflow fd)"
  proof
    fix d assume "d \<in> set (match_flow_table ?t)"
    then have "d \<in> set (match_flow_table t)" by simp
    from put_invD(7)[OF inv this] obtain fd where "dheap t d = Some fd" "hash_ok H (dflow fd)"
      by blast
    then show "\<exists>fd. dheap ?t d = Some fd \<and> hash_ok H (dflow fd)"
      by (simp add: cut_links_def)
  qed
  from desired_flow_lookup_walk_first[OF this assms(2)]
  show ?thesis
    unfolding desired_flow_lookup_def desired_flows_of_key_cut[of t R, symmetric]
    by (simp add: desired_flows_of_key_def)
qed

lemma put_installed_step_delete:
  assumes inv: "put_inv H (installed_flows s) (iheap s) (match_flow_table t) (dheap t)"
    and i: "i \<in> set (installed_flows s)" and fi: "iheap s i = Some fi"
    and k: "desired_flows_of_key t (flow_key (iflow fi)) = []"
  shows "\<exists>s' t' msgs'. put_installed_step s t i msgs = Some (s', t', msgs')
           \<and> installed_flows s' = remove1 i (installed_flows s)
           \<and> iheap s' = (iheap s)(i := None) \<and> inext s' = inext s
           \<and> match_flow_table t' = match_flow_table t
           \<and> dheap t' = cut_links (dheap t) (set (desired_refs fi))"
proof -
  note D = put_invD[OF inv]
  let ?fi1 = "fi\<lparr>desired_refs := [], i_desired_flow := None\<rparr>"
  let ?ih1 = "(iheap s)(i \<mapsto> ?fi1)"
  let ?dh1 = "cut_links (dheap t) (set (desired_refs fi))"
  from unlink_all_refs_ok[OF D(3)[OF i]] fi
  have u: "unlink_all_refs_for_installed_flow (iheap s) (dheap t) i = Some (?ih1, ?dh1)"
    by auto
  have l: "desired_flow_lookup (t\<lparr>dheap := ?dh1\<rparr>) (iflow fi) None = None"
    using put_inv_lookup[OF inv D(4)[OF i fi], of "set (desired_refs fi)"] k by simp
  have fv: "flow_view (fst (add_flow_mod (s\<lparr>iheap := ?ih1\<rparr>) fm msgs))
              = flow_view (s\<lparr>iheap := ?ih1\<rparr>)" for fm
    by simp
  note f = flow_view_fields[OF fv]
  show ?thesis
    by (simp add: put_installed_step_def u l Let_def split_beta installed_flow_destroy_def f)
qed

lemma put_inv_unlinked:
  assumes inv: "put_inv H il ih mt dh" and i: "i \<in> set il" and fi: "ih i = Some fi"
    and d: "d \<in> set mt" and fd: "dh d = Some fd"
    and k: "flow_key (dflow fd) = flow_key (iflow fi)"
    and n: "d \<notin> set (desired_refs fi)"
  shows "d_installed_flow fd = None"
proof (cases "d_installed_flow fd")
  case None
  then show ?thesis .
next
  case (Some j)
  note D = put_invD[OF inv]
  from D(8)[OF d fd Some] obtain fj where j: "j \<in> set il" "ih j = Some fj"
    "d \<in> set (desired_refs fj)" by blast
  from D(5)[OF j] fd have "flow_key (dflow fd) = flow_key (iflow fj)" by auto
  with k D(6)[OF i j(1) fi j(2)] have "i = j" by simp
  with j fi n show ?thesis by simp
qed

lemma put_installed_step_keep:
  assumes inv: "put_inv H (installed_flows s) (iheap s) (match_flow_table t) (dheap t)"
    and i: "i \<in> set (installed_flows s)" and fi: "iheap s i = Some fi"
    and k: "desired_flows_of_key t (flow_key (iflow fi)) = d # ds"
    and fd: "dheap t d = Some fd"
  shows "\<exists>s' t' msgs'. put_installed_step s t i msgs = Some (s', t', msgs')
           \<and> installed_flows s' = installed_flows s
           \<and> iheap s' = (iheap s)(i \<mapsto>
                 \<lparr>iflow = (iflow fi)\<lparr>ofpacts := ofpacts (dflow fd), cookie := cookie (dflow fd)\<rparr>,
                  desired_refs = [d], i_desired_flow = Some d\<rparr>)
           \<and> inext s' = inext s
           \<and> match_flow_table t' = match_flow_table t
           \<and> dheap t' = (cut_links (dheap t) (set (desired_refs fi)))
                           (d \<mapsto> fd\<lparr>d_installed_flow := Some i\<rparr>)"
proof -
  note D = put_invD[OF inv]
  let ?R = "set (desired_refs fi)"
  let ?fi1 = "fi\<lparr>desired_refs := [], i_desired_flow := None\<rparr>"
  let ?ih1 = "(iheap s)(i \<mapsto> ?fi1)"
  let ?dh1 = "cut_links (dheap t) ?R"
  let ?fdc = "fd\<lparr>d_installed_flow := None\<rparr>"
  from unlink_all_refs_ok[OF D(3)[OF i]] fi
  have u: "unlink_all_refs_for_installed_flow (iheap s) (dheap t) i = Some (?ih1, ?dh1)"
    by auto
  have l: "desired_flow_lookup (t\<lparr>dheap := ?dh1\<rparr>) (iflow fi) None = Some d"
    using put_inv_lookup[OF inv D(4)[OF i fi], of ?R] k by simp
  from desired_flows_of_key_Cons[OF k] fd
  have dm: "d \<in> set (match_flow_table t)" and dk: "flow_key (dflow fd) = flow_key (iflow fi)"
    by auto
  have c: "?dh1 d = Some ?fdc"
  proof (cases "d \<in> ?R")
    case True
    with fd show ?thesis by (simp add: cut_links_def)
  next
    case False
    from put_inv_unlinked[OF inv i fi dm fd dk False] have "?fdc = fd" by simp
    with fd False show ?thesis by (simp add: cut_links_def)
  qed
  let ?fi2 = "\<lparr>iflow = (iflow fi)\<lparr>ofpacts := ofpacts (dflow fd), cookie := cookie (dflow fd)\<rparr>,
               desired_refs = [], i_desired_flow = None\<rparr>"
  have lk: "link_installed_to_desired ((iheap s)(i \<mapsto> ?fi2)) ?dh1 i d
              = Some ((iheap s)(i \<mapsto> ?fi2\<lparr>desired_refs := [d], i_desired_flow := Some d\<rparr>),
                      ?dh1(d \<mapsto> fd\<lparr>d_installed_flow := Some i\<rparr>))"
    using c by (simp add: link_installed_to_desired_def)
  show ?thesis
  proof (cases "ofpacts (iflow fi) \<noteq> ofpacts (dflow fd) \<or> cookie (iflow fi) \<noteq> cookie (dflow fd)")
    case True
    have fv: "flow_view (fst (add_flow_mod (s\<lparr>iheap := ?ih1\<rparr>) fm msgs))
              = flow_view (s\<lparr>iheap := ?ih1\<rparr>)" for fm
      by simp
    note f = flow_view_fields[OF fv]
    have e: "fi\<lparr>desired_refs := [], i_desired_flow := None,
                iflow := (iflow fi)\<lparr>ofpacts := ofpacts (dflow fd),
                                      cookie := cookie (dflow fd)\<rparr>\<rparr> = ?fi2"
      by (cases fi) simp
    show ?thesis
      using True lk
      by (simp add: put_installed_step_def u l c Let_def split_beta installed_flow_mod_def f e)
  next
    case False
    then have "?fi2 = ?fi1" by simp
    with lk have lk': "link_installed_to_desired ?ih1 ?dh1 i d
              = Some ((iheap s)(i \<mapsto> ?fi2\<lparr>desired_refs := [d], i_desired_flow := Some d\<rparr>),
                      ?dh1(d \<mapsto> fd\<lparr>d_installed_flow := Some i\<rparr>))"
      by simp
    show ?thesis
      using False lk'
      by (simp add: put_installed_step_def u l c Let_def split_beta)
  qed
qed

lemma desired_content_cut [simp]: "desired_content (cut_links dh R) = desired_content dh"
proof
  fix d show "desired_content (cut_links dh R) d = desired_content dh d"
    by (cases "dh d") (simp_all add: desired_content_def cut_links_def)
qed

lemma desired_content_link:
  "dh d = Some fd \<Longrightarrow> desired_content (dh(d \<mapsto> fd\<lparr>d_installed_flow := x\<rparr>)) = desired_content dh"
  by (auto simp: desired_content_def fun_eq_iff)

lemma desired_content_linkc:
  "dh d = Some fd \<Longrightarrow>
   desired_content ((cut_links dh R)(d \<mapsto> fd\<lparr>d_installed_flow := x\<rparr>)) = desired_content dh"
  by (auto simp: desired_content_def fun_eq_iff cut_links_def option.map_comp comp_def)

lemma desired_contentD:
  assumes "desired_content dh' = desired_content dh" "dh d = Some fd"
  obtains fd' where "dh' d = Some fd'" "dflow fd' = dflow fd" "references fd' = references fd"
proof -
  from assms have "desired_content dh' d = Some (dflow fd, references fd)"
    by (simp add: desired_content_def)
  then show ?thesis using that by (auto simp: desired_content_def)
qed

lemma installed_synced_cong:
  assumes "installed_synced ih dh j" "ih' j = ih j" "desired_content dh' = desired_content dh"
  shows "installed_synced ih' dh' j"
proof -
  from assms(1) obtain fi p fd where a: "ih j = Some fi" "i_desired_flow fi = Some p"
    "dh p = Some fd" "ofpacts (iflow fi) = ofpacts (dflow fd)"
    "cookie (iflow fi) = cookie (dflow fd)"
    unfolding installed_synced_def by blast
  from desired_contentD[OF assms(3) a(3)] obtain fd' where
    "dh' p = Some fd'" "dflow fd' = dflow fd" by blast
  with a assms(2) show ?thesis unfolding installed_synced_def by auto
qed

lemma installed_relinked_cong:
  assumes "installed_relinked ih dh j" "ih' j = ih j" "desired_content dh' = desired_content dh"
  shows "installed_relinked ih' dh' j"
proof -
  from assms(1) have a: "installed_synced ih dh j" "\<exists>fi p. ih j = Some fi \<and> desired_refs fi = [p]"
    by (simp_all add: installed_relinked_def)
  from a(1) have "installed_synced ih' dh' j"
    by (rule installed_synced_cong) (use assms in simp_all)
  with a(2) assms(2) show ?thesis by (simp add: installed_relinked_def)
qed

lemma put_installed_loop_inv:
  assumes "put_inv H (installed_flows s) (iheap s) (match_flow_table t) (dheap t)"
    and "set rest \<subseteq> set (installed_flows s)" and "distinct rest"
    and "\<forall>i \<in> set (installed_flows s) - set rest. installed_relinked (iheap s) (dheap t) i"
  shows "\<exists>s' t' msgs'. put_installed_loop rest s t msgs = Some (s', t', msgs')
           \<and> put_inv H (installed_flows s') (iheap s') (match_flow_table t') (dheap t')
           \<and> (\<forall>i \<in> set (installed_flows s'). installed_relinked (iheap s') (dheap t') i)
           \<and> set (installed_flows s') \<subseteq> set (installed_flows s)
           \<and> inext s' = inext s \<and> match_flow_table t' = match_flow_table t
           \<and> desired_content (dheap t') = desired_content (dheap t)"
  using assms
proof (induction rest arbitrary: s t msgs)
  case Nil
  then show ?case by simp
next
  case (Cons i rest)
  note inv = Cons.prems(1)
  note D = put_invD[OF inv]
  from Cons.prems(2) have i: "i \<in> set (installed_flows s)" by simp
  from D(3)[OF i] obtain fi where fi: "iheap s i = Some fi" by (auto simp: links_ok_def)
  from Cons.prems(3) have ni: "i \<notin> set rest" and dr: "distinct rest" by simp_all
  have "\<exists>s1 t1 msgs1. put_installed_step s t i msgs = Some (s1, t1, msgs1)
          \<and> put_inv H (installed_flows s1) (iheap s1) (match_flow_table t1) (dheap t1)
          \<and> set rest \<subseteq> set (installed_flows s1)
          \<and> (\<forall>j \<in> set (installed_flows s1) - set rest. installed_relinked (iheap s1) (dheap t1) j)
          \<and> set (installed_flows s1) \<subseteq> set (installed_flows s)
          \<and> inext s1 = inext s \<and> match_flow_table t1 = match_flow_table t
          \<and> desired_content (dheap t1) = desired_content (dheap t)"
  proof (cases "desired_flows_of_key t (flow_key (iflow fi))")
    case Nil
    from put_installed_step_delete[OF inv i fi Nil, of msgs] obtain s1 t1 msgs1 where
      e: "put_installed_step s t i msgs = Some (s1, t1, msgs1)"
        "installed_flows s1 = remove1 i (installed_flows s)"
        "iheap s1 = (iheap s)(i := None)" "inext s1 = inext s"
        "match_flow_table t1 = match_flow_table t"
        "dheap t1 = cut_links (dheap t) (set (desired_refs fi))"
      by blast
    have mem: "j \<in> set (remove1 i (installed_flows s)) \<longleftrightarrow> j \<in> set (installed_flows s) \<and> j \<noteq> i"
      for j using D(1) by simp
    have "put_inv H (installed_flows s1) (iheap s1) (match_flow_table t1) (dheap t1)"
      unfolding e by (rule put_inv_delete[OF inv i fi])
    moreover have "set rest \<subseteq> set (installed_flows s1)"
      unfolding e using Cons.prems(2) ni mem by auto
    moreover have "installed_relinked (iheap s1) (dheap t1) j"
      if "j \<in> set (installed_flows s1) - set rest" for j
    proof -
      from that mem have j: "j \<in> set (installed_flows s) - set (i # rest)" "j \<noteq> i"
        unfolding e by auto
      from Cons.prems(4) j(1) have "installed_relinked (iheap s) (dheap t) j" by blast
      then show ?thesis unfolding e
        by (rule installed_relinked_cong) (use j(2) in simp_all)
    qed
    moreover have "set (installed_flows s1) \<subseteq> set (installed_flows s)"
      unfolding e using mem by auto
    moreover have "desired_content (dheap t1) = desired_content (dheap t)"
      unfolding e by simp
    ultimately show ?thesis using e(1,4,5) by blast
  next
    case (Cons d ds)
    from desired_flows_of_key_Cons[OF Cons] obtain fd where
      fd: "dheap t d = Some fd" and dm: "d \<in> set (match_flow_table t)"
      and dk: "flow_key (dflow fd) = flow_key (iflow fi)" by blast
    let ?fi = "\<lparr>iflow = (iflow fi)\<lparr>ofpacts := ofpacts (dflow fd), cookie := cookie (dflow fd)\<rparr>,
                  desired_refs = [d], i_desired_flow = Some d\<rparr>"
    from put_installed_step_keep[OF inv i fi Cons fd, of msgs] obtain s1 t1 msgs1 where
      e: "put_installed_step s t i msgs = Some (s1, t1, msgs1)"
        "installed_flows s1 = installed_flows s"
        "iheap s1 = (iheap s)(i \<mapsto> ?fi)" "inext s1 = inext s"
        "match_flow_table t1 = match_flow_table t"
        "dheap t1 = (cut_links (dheap t) (set (desired_refs fi)))
                           (d \<mapsto> fd\<lparr>d_installed_flow := Some i\<rparr>)"
      by blast
    have dc: "desired_content (dheap t1) = desired_content (dheap t)"
      unfolding e by (rule desired_content_linkc[where dh = "dheap t" and d = d, OF fd])
    have "put_inv H (installed_flows s1) (iheap s1) (match_flow_table t1) (dheap t1)"
      unfolding e by (rule put_inv_relink[OF inv i fi dm fd dk])
    moreover have "set rest \<subseteq> set (installed_flows s1)"
      unfolding e using Cons.prems(2) by auto
    moreover have "installed_relinked (iheap s1) (dheap t1) j"
      if "j \<in> set (installed_flows s1) - set rest" for j
    proof (cases "j = i")
      case True
      show ?thesis unfolding True e
        by (simp add: installed_relinked_def installed_synced_def)
    next
      case False
      with that have j: "j \<in> set (installed_flows s) - set (i # rest)"
        unfolding e by auto
      from \<open>\<forall>i\<in>set (installed_flows s) - set (i # rest). installed_relinked (iheap s) (dheap t) i\<close> j
      have "installed_relinked (iheap s) (dheap t) j" by blast
      then show ?thesis
        by (rule installed_relinked_cong) (use False dc in \<open>simp_all add: e(3)\<close>)
    qed
    ultimately show ?thesis using e(1,2,4,5) dc by auto
  qed
  then obtain s1 t1 msgs1 where
    st: "put_installed_step s t i msgs = Some (s1, t1, msgs1)"
    and inv1: "put_inv H (installed_flows s1) (iheap s1) (match_flow_table t1) (dheap t1)"
    and r1: "set rest \<subseteq> set (installed_flows s1)"
    and q1: "\<forall>j \<in> set (installed_flows s1) - set rest. installed_relinked (iheap s1) (dheap t1) j"
    and f1: "set (installed_flows s1) \<subseteq> set (installed_flows s)"
      "inext s1 = inext s" "match_flow_table t1 = match_flow_table t"
      "desired_content (dheap t1) = desired_content (dheap t)"
    by blast
  from Cons.IH[OF inv1 r1 dr q1, of msgs1] st f1 show ?case by auto
qed

lemma installed_flow_dup_simps [simp]:
  "flow_key (iflow (installed_flow_dup fd)) = flow_key (dflow fd)"
  "hash_ok H (iflow (installed_flow_dup fd)) = hash_ok H (dflow fd)"
  "ofpacts (iflow (installed_flow_dup fd)) = ofpacts (dflow fd)"
  "cookie (iflow (installed_flow_dup fd)) = cookie (dflow fd)"
  "desired_refs (installed_flow_dup fd) = []"
  "i_desired_flow (installed_flow_dup fd) = None"
  by (simp_all add: installed_flow_dup_def flow_key_def hash_ok_def)

lemma put_inv_append:
  assumes inv: "put_inv H il ih mt dh" and i: "i \<in> set il" and fi: "ih i = Some fi"
    and d: "d \<in> set mt" and fd: "dh d = Some fd" and un: "d_installed_flow fd = None"
    and k: "flow_key (dflow fd) = flow_key (iflow fi)" and ne: "desired_refs fi \<noteq> []"
  shows "put_inv H il (ih(i \<mapsto> fi\<lparr>desired_refs := desired_refs fi @ [d]\<rparr>)) mt
           (dh(d \<mapsto> fd\<lparr>d_installed_flow := Some i\<rparr>))"
proof (rule put_invI)
  note D = put_invD[OF inv]
  note L = links_okD[OF D(3)[OF i] fi]
  let ?fi = "fi\<lparr>desired_refs := desired_refs fi @ [d]\<rparr>"
  let ?ih = "ih(i \<mapsto> ?fi)"
  let ?dh = "dh(d \<mapsto> fd\<lparr>d_installed_flow := Some i\<rparr>)"
  have nr: "d \<notin> set (desired_refs fj)" if "j \<in> set il" "ih j = Some fj" for j fj
    using links_okD(2)[OF D(3)[OF that(1)] that(2), of d] fd un by auto
  from L(3) ne obtain p where p: "i_desired_flow fi = Some p" by (cases "i_desired_flow fi") auto
  with L(4)[OF p] nr[OF i fi] have pd: "i_desired_flow fi \<noteq> Some d" by auto
  have e: "fi\<lparr>desired_refs := desired_refs fi @ [d],
              i_desired_flow := (if desired_refs fi = [] then Some d else i_desired_flow fi)\<rparr> = ?fi"
    using ne by simp
  have l: "link_installed_to_desired ih dh i d = Some (?ih, ?dh)"
    using link_installed_to_desired_new[where ih=ih and i=i and dh=dh and d=d, OF fi pd _ fd un nr[OF i fi]]
      ne unfolding e by simp
  show "distinct il" "distinct mt" by (rule D(1), rule D(2))
  show "links_ok ?ih ?dh j" if "j \<in> set il" for j
    by (rule links_ok_link[OF D(3)[OF i] fi l D(3)[OF that]])
  show "hash_ok H (iflow fj)" if "j \<in> set il" "?ih j = Some fj" for j fj
    using D(4)[of j fj] D(4)[OF i fi] that by (auto split: if_splits)
  show "d' \<in> set mt \<and> (\<exists>fd'. ?dh d' = Some fd' \<and> flow_key (dflow fd') = flow_key (iflow fj))"
    if a: "j \<in> set il" "?ih j = Some fj" "d' \<in> set (desired_refs fj)" for j fj d'
  proof (cases "d' = d")
    case True
    have "flow_key (iflow fj) = flow_key (iflow fi)"
    proof (cases "j = i")
      case True
      with a(2) show ?thesis by auto
    next
      case False
      with a have "ih j = Some fj" by simp
      from nr[OF a(1) this] a(3) \<open>d' = d\<close> show ?thesis by simp
    qed
    with True d k show ?thesis by simp
  next
    case False
    obtain fj0 where j0: "ih j = Some fj0" "d' \<in> set (desired_refs fj0)"
      "flow_key (iflow fj0) = flow_key (iflow fj)"
    proof (cases "j = i")
      case True
      with a False fi that[of fi] show ?thesis by auto
    next
      case False
      with a that[of fj] show ?thesis by simp
    qed
    from D(5)[OF a(1) j0(1,2)] j0(3) False show ?thesis by simp
  qed
  show "j = l" if a: "j \<in> set il" "l \<in> set il" "?ih j = Some fj" "?ih l = Some fl"
    "flow_key (iflow fj) = flow_key (iflow fl)" for j l fj fl
  proof -
    have "\<exists>fj0. ih j = Some fj0 \<and> flow_key (iflow fj0) = flow_key (iflow fj)"
      using a(3) fi by (cases "j = i") auto
    then obtain fj0 where j0: "ih j = Some fj0" "flow_key (iflow fj0) = flow_key (iflow fj)"
      by blast
    have "\<exists>fl0. ih l = Some fl0 \<and> flow_key (iflow fl0) = flow_key (iflow fl)"
      using a(4) fi by (cases "l = i") auto
    then obtain fl0 where l0: "ih l = Some fl0" "flow_key (iflow fl0) = flow_key (iflow fl)"
      by blast
    from D(6)[OF a(1,2) j0(1) l0(1)] j0(2) l0(2) a(5) show ?thesis by simp
  qed
  show "\<exists>fd'. ?dh d' = Some fd' \<and> hash_ok H (dflow fd')" if "d' \<in> set mt" for d'
    using D(7)[OF that] D(7)[OF d] fd by auto
  show "j \<in> set il \<and> (\<exists>fj. ?ih j = Some fj \<and> d' \<in> set (desired_refs fj))"
    if a: "d' \<in> set mt" "?dh d' = Some fd'" "d_installed_flow fd' = Some j" for d' fd' j
  proof (cases "d' = d")
    case True
    with a i show ?thesis by auto
  next
    case False
    with a(2) have "dh d' = Some fd'" by simp
    from D(8)[OF a(1) this a(3)] obtain fj where "j \<in> set il" "ih j = Some fj"
      "d' \<in> set (desired_refs fj)" by blast
    with fi show ?thesis by (cases "j = i") auto
  qed
qed

lemma put_inv_new:
  assumes inv: "put_inv H il ih mt dh" and n: "n \<notin> set il"
    and d: "d \<in> set mt" and fd: "dh d = Some fd" and un: "d_installed_flow fd = None"
    and nk: "\<And>j fj. j \<in> set il \<Longrightarrow> ih j = Some fj \<Longrightarrow>
               flow_key (iflow fj) \<noteq> flow_key (dflow fd)"
  shows "put_inv H (n # il)
           (ih(n \<mapsto> (installed_flow_dup fd)\<lparr>desired_refs := [d], i_desired_flow := Some d\<rparr>)) mt
           (dh(d \<mapsto> fd\<lparr>d_installed_flow := Some n\<rparr>))"
proof (rule put_invI)
  note D = put_invD[OF inv]
  let ?fn = "(installed_flow_dup fd)\<lparr>desired_refs := [d], i_desired_flow := Some d\<rparr>"
  let ?ih = "ih(n \<mapsto> ?fn)"
  let ?dh = "dh(d \<mapsto> fd\<lparr>d_installed_flow := Some n\<rparr>)"
  have kn: "flow_key (iflow ?fn) = flow_key (dflow fd)" "hash_ok H (iflow ?fn) = hash_ok H (dflow fd)"
    by (simp_all add: installed_flow_dup_def flow_key_def hash_ok_def)
  have nr: "d \<notin> set (desired_refs fj)" if "j \<in> set il" "ih j = Some fj" for j fj
    using links_okD(2)[OF D(3)[OF that(1)] that(2), of d] fd un by auto
  have old: "?ih j = ih j" if "j \<in> set il" for j using that n by auto
  show "distinct (n # il)" using D(1) n by simp
  show "distinct mt" by (rule D(2))
  show "links_ok ?ih ?dh j" if "j \<in> set (n # il)" for j
  proof (cases "j = n")
    case True
    then show ?thesis by (simp add: links_ok_def)
  next
    case False
    with that have j: "j \<in> set il" by simp
    show ?thesis
    proof (rule links_ok_cong[where ih = ih and dh = dh and ih' = "?ih" and dh' = "?dh" and j = j,
          OF D(3)[OF j] old[OF j]])
      show "\<exists>fd'. ?dh d' = Some fd' \<and> d_installed_flow fd' = d_installed_flow fd0"
        if "ih j = Some fj" "d' \<in> set (desired_refs fj)" "dh d' = Some fd0" for fj d' fd0
        using nr[OF j that(1)] that by auto
    qed
  qed
  show "hash_ok H (iflow fj)" if "j \<in> set (n # il)" "?ih j = Some fj" for j fj
  proof (cases "j = n")
    case True
    with that(2) kn(2) D(7)[OF d] fd show ?thesis by auto
  next
    case False
    with that D(4)[of j fj] show ?thesis by simp
  qed
  show "d' \<in> set mt \<and> (\<exists>fd'. ?dh d' = Some fd' \<and> flow_key (dflow fd') = flow_key (iflow fj))"
    if a: "j \<in> set (n # il)" "?ih j = Some fj" "d' \<in> set (desired_refs fj)" for j fj d'
  proof (cases "j = n")
    case True
    with a d kn(1) show ?thesis by auto
  next
    case False
    with a have j: "j \<in> set il" "ih j = Some fj" by simp_all
    from nr[OF j] a(3) have "d' \<noteq> d" by auto
    with D(5)[OF j a(3)] show ?thesis by simp
  qed
  show "j = l" if a: "j \<in> set (n # il)" "l \<in> set (n # il)" "?ih j = Some fj" "?ih l = Some fl"
    "flow_key (iflow fj) = flow_key (iflow fl)" for j l fj fl
  proof (cases "j = n")
    case jn: True
    show ?thesis
    proof (cases "l = n")
      case True
      with jn show ?thesis by simp
    next
      case False
      with a have "l \<in> set il" "ih l = Some fl" by simp_all
      from nk[OF this] a(3,5) jn kn(1) show ?thesis by auto
    qed
  next
    case jn: False
    with a have j: "j \<in> set il" "ih j = Some fj" by simp_all
    show ?thesis
    proof (cases "l = n")
      case True
      from nk[OF j] a(4,5) True kn(1) show ?thesis by auto
    next
      case False
      with a have "l \<in> set il" "ih l = Some fl" by simp_all
      from D(6)[OF j(1) this(1) j(2) this(2) a(5)] show ?thesis .
    qed
  qed
  show "\<exists>fd'. ?dh d' = Some fd' \<and> hash_ok H (dflow fd')" if "d' \<in> set mt" for d'
    using D(7)[OF that] D(7)[OF d] fd by auto
  show "j \<in> set (n # il) \<and> (\<exists>fj. ?ih j = Some fj \<and> d' \<in> set (desired_refs fj))"
    if a: "d' \<in> set mt" "?dh d' = Some fd'" "d_installed_flow fd' = Some j" for d' fd' j
  proof (cases "d' = d")
    case True
    with a show ?thesis by auto
  next
    case False
    with a(2) have "dh d' = Some fd'" by simp
    from D(8)[OF a(1) this a(3)] obtain fj where j: "j \<in> set il" "ih j = Some fj"
      "d' \<in> set (desired_refs fj)" by blast
    with old[OF j(1)] show ?thesis by auto
  qed
qed

lemma installed_flow_lookup_walk_first:
  assumes "\<forall>i \<in> set il. \<exists>fi. ih i = Some fi \<and> hash_ok H (iflow fi)" "hash_ok H target"
  shows "installed_flow_lookup_walk ih il target
           = (case filter (\<lambda>i. map_option (\<lambda>fi. flow_key (iflow fi)) (ih i)
                                 = Some (flow_key target)) il of
                [] \<Rightarrow> None | e # es \<Rightarrow> Some e)"
  using assms(1)
proof (induction il)
  case Nil
  then show ?case by simp
next
  case (Cons i il)
  from Cons.prems obtain fi where fi: "ih i = Some fi" "hash_ok H (iflow fi)" by auto
  show ?case
  proof (cases "flow_key (iflow fi) = flow_key target")
    case True
    from hash_ok_key[OF fi(2) assms(2) True] True fi(1) show ?thesis
      by (simp add: flow_key_def)
  next
    case False
    with fi(1) Cons show ?thesis by (auto simp: flow_key_def)
  qed
qed

lemma put_inv_installed_lookup:
  assumes inv: "put_inv H (installed_flows s) (iheap s) mt dh" and h: "hash_ok H target"
  shows "installed_flow_lookup s target = None \<Longrightarrow> i \<in> set (installed_flows s) \<Longrightarrow>
           iheap s i = Some fi \<Longrightarrow> flow_key (iflow fi) \<noteq> flow_key target"
    and "installed_flow_lookup s target = Some i \<Longrightarrow>
           i \<in> set (installed_flows s)
           \<and> (\<exists>fi. iheap s i = Some fi \<and> flow_key (iflow fi) = flow_key target)"
proof -
  note D = put_invD[OF inv]
  let ?P = "\<lambda>i. map_option (\<lambda>fi. flow_key (iflow fi)) (iheap s i) = Some (flow_key target)"
  have a: "\<forall>i \<in> set (installed_flows s). \<exists>fi. iheap s i = Some fi \<and> hash_ok H (iflow fi)"
  proof
    fix i assume i: "i \<in> set (installed_flows s)"
    from D(3)[OF i] obtain fi where "iheap s i = Some fi" by (auto simp: links_ok_def)
    with D(4)[OF i this] show "\<exists>fi. iheap s i = Some fi \<and> hash_ok H (iflow fi)" by blast
  qed
  note w = installed_flow_lookup_walk_first[OF a h, folded installed_flow_lookup_def]
  show "flow_key (iflow fi) \<noteq> flow_key target"
    if "installed_flow_lookup s target = None" "i \<in> set (installed_flows s)" "iheap s i = Some fi"
  proof
    assume "flow_key (iflow fi) = flow_key target"
    with that(2,3) have "i \<in> set (filter ?P (installed_flows s))" by simp
    then have "filter ?P (installed_flows s) \<noteq> []" by (metis empty_iff list.set(1))
    then obtain e es where "filter ?P (installed_flows s) = e # es"
      by (cases "filter ?P (installed_flows s)") auto
    with that(1) show False unfolding w by (simp del: filter.simps)
  qed
  show "i \<in> set (installed_flows s)
           \<and> (\<exists>fi. iheap s i = Some fi \<and> flow_key (iflow fi) = flow_key target)"
    if "installed_flow_lookup s target = Some i"
  proof -
    from that obtain es where "filter ?P (installed_flows s) = i # es"
      unfolding w by (cases "filter ?P (installed_flows s)") auto
    then have "i \<in> set (filter ?P (installed_flows s))" by (metis list.set_intros(1))
    then show ?thesis by auto
  qed
qed

lemma installed_viewD:
  assumes "installed_view ih' j = installed_view ih j" "ih j = Some fi"
  obtains fi' where "ih' j = Some fi'" "iflow fi' = iflow fi"
    "i_desired_flow fi' = i_desired_flow fi"
proof -
  from assms have "installed_view ih' j = Some (iflow fi, i_desired_flow fi)"
    by (simp add: installed_view_def)
  then show ?thesis using that by (auto simp: installed_view_def)
qed

lemma put_desired_step_effect:
  assumes inv: "put_inv H (installed_flows s) (iheap s) (match_flow_table t) (dheap t)"
    and d: "d \<in> set (match_flow_table t)" and fd: "dheap t d = Some fd"
    and syn: "\<forall>i \<in> set (installed_flows s). installed_synced (iheap s) (dheap t) i"
    and R: "\<And>i. d_installed_flow fd = Some i \<Longrightarrow>
              \<exists>fi. iheap s i = Some fi \<and> i_desired_flow fi = Some d"
    and al: "\<forall>i \<in> set (installed_flows s). i < inext s"
  shows "\<exists>s' t' msgs'. put_desired_step s t d msgs = Some (s', t', msgs')
           \<and> put_inv H (installed_flows s') (iheap s') (match_flow_table t') (dheap t')
           \<and> (\<forall>i \<in> set (installed_flows s'). installed_synced (iheap s') (dheap t') i)
           \<and> (\<forall>i \<in> set (installed_flows s'). i < inext s')
           \<and> set (installed_flows s) \<subseteq> set (installed_flows s')
           \<and> match_flow_table t' = match_flow_table t
           \<and> desired_content (dheap t') = desired_content (dheap t)
           \<and> key_installed (installed_flows s') (iheap s') (dheap t') d
           \<and> (\<forall>j \<in> set (installed_flows s). installed_view (iheap s') j = installed_view (iheap s) j)
           \<and> (\<forall>d'. d' \<noteq> d \<longrightarrow> dheap t' d' = dheap t d')"
proof -
  note D = put_invD[OF inv]
  from D(7)[OF d] fd have hd: "hash_ok H (dflow fd)" by auto
  note LK = put_inv_installed_lookup[OF inv hd]
  show ?thesis
  proof (cases "installed_flow_lookup s (dflow fd)")
    case None
    let ?n = "inext s"
    let ?fn = "(installed_flow_dup fd)\<lparr>desired_refs := [d], i_desired_flow := Some d\<rparr>"
    let ?ih = "(iheap s)(?n \<mapsto> ?fn)"
    let ?dh = "(dheap t)(d \<mapsto> fd\<lparr>d_installed_flow := Some ?n\<rparr>)"
    have n: "?n \<notin> set (installed_flows s)" using al by auto
    have un: "d_installed_flow fd = None"
    proof (cases "d_installed_flow fd")
      case (Some j)
      from D(8)[OF d fd Some] obtain fj where j: "j \<in> set (installed_flows s)"
        "iheap s j = Some fj" "d \<in> set (desired_refs fj)" by blast
      from D(5)[OF j] fd have "flow_key (iflow fj) = flow_key (dflow fd)" by auto
      with LK(1)[OF None j(1,2)] show ?thesis by simp
    qed simp
    have nk: "flow_key (iflow fj) \<noteq> flow_key (dflow fd)"
      if "j \<in> set (installed_flows s)" "iheap s j = Some fj" for j fj
      using LK(1)[OF None that] .
    have inv': "put_inv H (?n # installed_flows s) ?ih (match_flow_table t) ?dh"
      by (rule put_inv_new[OF inv n d fd un nk])
    have lk: "link_installed_to_desired ((iheap s)(?n \<mapsto> installed_flow_dup fd)) (dheap t) ?n d
                = Some (?ih, ?dh)"
      using fd un by (simp add: link_installed_to_desired_def)
    have fv: "flow_view (fst (add_flow_mod s fm msgs)) = flow_view s" for fm by simp
    note f = flow_view_fields[OF fv]
    obtain s' t' msgs' where e: "put_desired_step s t d msgs = Some (s', t', msgs')"
      "installed_flows s' = ?n # installed_flows s" "iheap s' = ?ih" "inext s' = Suc ?n"
      "match_flow_table t' = match_flow_table t" "dheap t' = ?dh"
      using lk
      by (simp add: put_desired_step_def fd put_desired_installed_def None Let_def split_beta f)
    have dc: "desired_content (dheap t') = desired_content (dheap t)"
      unfolding e by (rule desired_content_link[where dh = "dheap t" and d = d, OF fd])
    have "installed_synced (iheap s') (dheap t') j" if "j \<in> set (installed_flows s')" for j
    proof (cases "j = ?n")
      case True
      then show ?thesis unfolding e by (simp add: installed_synced_def)
    next
      case False
      with that have j: "j \<in> set (installed_flows s)" unfolding e by simp
      from syn j have "installed_synced (iheap s) (dheap t) j" by blast
      then show ?thesis by (rule installed_synced_cong) (use False dc in \<open>simp_all add: e(3)\<close>)
    qed
    moreover have "key_installed (installed_flows s') (iheap s') (dheap t') d"
      unfolding e key_installed_def by simp
    moreover have "installed_view (iheap s') j = installed_view (iheap s) j"
      if "j \<in> set (installed_flows s)" for j
      using that n unfolding e installed_view_def by auto
    ultimately show ?thesis using e inv' al dc by auto
  next
    case (Some i)
    from LK(2)[OF Some] obtain fi where i: "i \<in> set (installed_flows s)"
      and fi: "iheap s i = Some fi" and k: "flow_key (iflow fi) = flow_key (dflow fd)"
      by blast
    from syn i fi obtain p where p: "i_desired_flow fi = Some p"
      by (auto simp: installed_synced_def)
    note L = links_okD[OF D(3)[OF i] fi]
    have ki: "key_installed (installed_flows s) (iheap s) (dheap t) d"
      unfolding key_installed_def using fd i fi k by auto
    show ?thesis
    proof (cases "p = d")
      case True
      have lk: "link_installed_to_desired (iheap s) (dheap t) i d = Some (iheap s, dheap t)"
        using fi p True by (simp add: link_installed_to_desired_def)
      have e: "put_desired_step s t d msgs = Some (s, t, msgs)"
        using lk by (simp add: put_desired_step_def fd put_desired_installed_def Some)
      show ?thesis using e inv syn al ki by auto
    next
      case False
      have un: "d_installed_flow fd = None"
      proof (cases "d_installed_flow fd")
        case (Some j)
        from D(8)[OF d fd Some] obtain fj where j: "j \<in> set (installed_flows s)"
          "iheap s j = Some fj" "d \<in> set (desired_refs fj)" by blast
        from D(5)[OF j] fd have "flow_key (iflow fj) = flow_key (dflow fd)" by auto
        with D(6)[OF i j(1) fi j(2)] k have "i = j" by simp
        with R[OF Some] fi p False show ?thesis by simp
      qed simp
      have nr: "d \<notin> set (desired_refs fi)"
        using L(2)[of d] fd un by auto
      from L(4)[OF p] have ne: "desired_refs fi \<noteq> []" by auto
      let ?fi = "fi\<lparr>desired_refs := desired_refs fi @ [d]\<rparr>"
      let ?ih = "(iheap s)(i \<mapsto> ?fi)"
      let ?dh = "(dheap t)(d \<mapsto> fd\<lparr>d_installed_flow := Some i\<rparr>)"
      have pd: "i_desired_flow fi \<noteq> Some d" using p False by simp
      have eq: "fi\<lparr>desired_refs := desired_refs fi @ [d],
                  i_desired_flow := (if desired_refs fi = [] then Some d else i_desired_flow fi)\<rparr> = ?fi"
        using ne by simp
      have lk: "link_installed_to_desired (iheap s) (dheap t) i d = Some (?ih, ?dh)"
        using link_installed_to_desired_new[where ih="iheap s" and i=i and dh="dheap t" and d=d,
            OF fi pd _ fd un nr] ne unfolding eq by simp
      have inv': "put_inv H (installed_flows s) ?ih (match_flow_table t) ?dh"
        by (rule put_inv_append[OF inv i fi d fd un k[symmetric] ne])
      obtain s' t' msgs' where e: "put_desired_step s t d msgs = Some (s', t', msgs')"
        "installed_flows s' = installed_flows s" "iheap s' = ?ih" "inext s' = inext s"
        "match_flow_table t' = match_flow_table t" "dheap t' = ?dh"
        using lk by (simp add: put_desired_step_def fd put_desired_installed_def Some)
      have dc: "desired_content (dheap t') = desired_content (dheap t)"
        unfolding e by (rule desired_content_link[where dh = "dheap t" and d = d, OF fd])
      have iv: "installed_view (iheap s') j = installed_view (iheap s) j" for j
        unfolding e installed_view_def using fi by auto
      have "installed_synced (iheap s') (dheap t') j" if "j \<in> set (installed_flows s')" for j
      proof -
        from syn that have "installed_synced (iheap s) (dheap t) j" unfolding e by blast
        then obtain fj q fq where a: "iheap s j = Some fj" "i_desired_flow fj = Some q"
          "dheap t q = Some fq" "ofpacts (iflow fj) = ofpacts (dflow fq)"
          "cookie (iflow fj) = cookie (dflow fq)"
          unfolding installed_synced_def by blast
        from desired_contentD[OF dc a(3)] obtain fq' where
          q: "dheap t' q = Some fq'" "dflow fq' = dflow fq" by blast
        from installed_viewD[OF iv[of j] a(1)]
        obtain fj' where j': "iheap s' j = Some fj'" "iflow fj' = iflow fj"
          "i_desired_flow fj' = i_desired_flow fj"
          by blast
        with a q show ?thesis unfolding installed_synced_def by auto
      qed
      moreover have "key_installed (installed_flows s') (iheap s') (dheap t') d"
        unfolding e key_installed_def using i k by auto
      ultimately show ?thesis using e inv' al dc iv by auto
    qed
  qed
qed

lemma key_installed_mono:
  assumes "key_installed il ih dh d" "set il \<subseteq> set il'"
    and "\<forall>j \<in> set il. installed_view ih' j = installed_view ih j"
    and "desired_content dh' = desired_content dh"
  shows "key_installed il' ih' dh' d"
proof -
  from assms(1) obtain fd i fi where a: "dh d = Some fd" "i \<in> set il" "ih i = Some fi"
    "flow_key (iflow fi) = flow_key (dflow fd)"
    unfolding key_installed_def by blast
  from desired_contentD[OF assms(4) a(1)] obtain fd' where
    d': "dh' d = Some fd'" "dflow fd' = dflow fd" by blast
  from assms(3) a(2) have "installed_view ih' i = installed_view ih i" by blast
  from installed_viewD[OF this a(3)] obtain fi' where i': "ih' i = Some fi'" "iflow fi' = iflow fi"
    by blast
  from a(2) assms(2) have "i \<in> set il'" by auto
  moreover from a(4) d'(2) i'(2) have "flow_key (iflow fi') = flow_key (dflow fd')" by simp
  ultimately show ?thesis unfolding key_installed_def using d'(1) i'(1) by blast
qed

lemma put_desired_loop_inv:
  assumes "put_inv H (installed_flows s) (iheap s) (match_flow_table t) (dheap t)"
    and "\<forall>i \<in> set (installed_flows s). installed_synced (iheap s) (dheap t) i"
    and "\<forall>i \<in> set (installed_flows s). i < inext s"
    and "set rest \<subseteq> set (match_flow_table t)" and "distinct rest"
    and "\<forall>d \<in> set rest. \<forall>fd i. dheap t d = Some fd \<and> d_installed_flow fd = Some i
           \<longrightarrow> (\<exists>fi. iheap s i = Some fi \<and> i_desired_flow fi = Some d)"
    and "\<forall>d \<in> set (match_flow_table t) - set rest.
           key_installed (installed_flows s) (iheap s) (dheap t) d"
  shows "\<exists>s' t' msgs'. put_desired_loop rest s t msgs = Some (s', t', msgs')
           \<and> put_inv H (installed_flows s') (iheap s') (match_flow_table t') (dheap t')
           \<and> (\<forall>i \<in> set (installed_flows s'). installed_synced (iheap s') (dheap t') i)
           \<and> (\<forall>i \<in> set (installed_flows s'). i < inext s')
           \<and> match_flow_table t' = match_flow_table t
           \<and> desired_content (dheap t') = desired_content (dheap t)
           \<and> (\<forall>d \<in> set (match_flow_table t').
                 key_installed (installed_flows s') (iheap s') (dheap t') d)"
  using assms
proof (induction rest arbitrary: s t msgs)
  case Nil
  then show ?case by simp
next
  case (Cons d rest)
  note inv = Cons.prems(1)
  note D = put_invD[OF inv]
  from Cons.prems(4) have d: "d \<in> set (match_flow_table t)" by simp
  from D(7)[OF d] obtain fd where fd: "dheap t d = Some fd" by blast
  from Cons.prems(5) have nd: "d \<notin> set rest" and dr: "distinct rest" by simp_all
  have R: "\<exists>fi. iheap s i = Some fi \<and> i_desired_flow fi = Some d"
    if "d_installed_flow fd = Some i" for i
    using Cons.prems(6) fd that by auto
  from put_desired_step_effect[OF inv d fd Cons.prems(2) R Cons.prems(3), of msgs]
  obtain s1 t1 msgs1 where
    st: "put_desired_step s t d msgs = Some (s1, t1, msgs1)"
    and inv1: "put_inv H (installed_flows s1) (iheap s1) (match_flow_table t1) (dheap t1)"
    and syn1: "\<forall>i \<in> set (installed_flows s1). installed_synced (iheap s1) (dheap t1) i"
    and al1: "\<forall>i \<in> set (installed_flows s1). i < inext s1"
    and sub: "set (installed_flows s) \<subseteq> set (installed_flows s1)"
    and mt: "match_flow_table t1 = match_flow_table t"
    and dc: "desired_content (dheap t1) = desired_content (dheap t)"
    and kd: "key_installed (installed_flows s1) (iheap s1) (dheap t1) d"
    and iv: "\<forall>j \<in> set (installed_flows s). installed_view (iheap s1) j = installed_view (iheap s) j"
    and oth: "\<forall>d'. d' \<noteq> d \<longrightarrow> dheap t1 d' = dheap t d'"
    by blast
  have r1: "set rest \<subseteq> set (match_flow_table t1)" using Cons.prems(4) mt by simp
  have R1: "\<forall>d' \<in> set rest. \<forall>fd' i. dheap t1 d' = Some fd' \<and> d_installed_flow fd' = Some i
           \<longrightarrow> (\<exists>fi. iheap s1 i = Some fi \<and> i_desired_flow fi = Some d')"
  proof (intro ballI allI impI)
    fix d' fd' i
    assume d': "d' \<in> set rest" and a: "dheap t1 d' = Some fd' \<and> d_installed_flow fd' = Some i"
    from d' nd have ne: "d' \<noteq> d" by auto
    with oth a have b: "dheap t d' = Some fd'" "d_installed_flow fd' = Some i" by auto
    from d' Cons.prems(4) have m: "d' \<in> set (match_flow_table t)" by auto
    from D(8)[OF m b] have i: "i \<in> set (installed_flows s)" by simp
    from Cons.prems(6) d' b obtain fi where fi: "iheap s i = Some fi" "i_desired_flow fi = Some d'"
      by fastforce
    from iv i have "installed_view (iheap s1) i = installed_view (iheap s) i" by blast
    from installed_viewD[OF this fi(1)]
    obtain fi' where "iheap s1 i = Some fi'" "i_desired_flow fi' = i_desired_flow fi"
      by blast
    with fi(2) show "\<exists>fi. iheap s1 i = Some fi \<and> i_desired_flow fi = Some d'" by simp
  qed
  have c1: "\<forall>d' \<in> set (match_flow_table t1) - set rest.
           key_installed (installed_flows s1) (iheap s1) (dheap t1) d'"
  proof
    fix d' assume a: "d' \<in> set (match_flow_table t1) - set rest"
    show "key_installed (installed_flows s1) (iheap s1) (dheap t1) d'"
    proof (cases "d' = d")
      case True
      with kd show ?thesis by simp
    next
      case False
      with a mt have "d' \<in> set (match_flow_table t) - set (d # rest)" by simp
      with Cons.prems(7) have "key_installed (installed_flows s) (iheap s) (dheap t) d'" by blast
      then show ?thesis by (rule key_installed_mono[OF _ sub iv dc])
    qed
  qed
  from Cons.IH[OF inv1 syn1 al1 r1 dr R1 c1, of msgs1] st mt dc show ?case by auto
qed

lemma fview_add_mod:
  "flow_view (fst (add_flow_mod s fm msgs)) = flow_view s"
  "flow_view (fst (add_group_mod s gm msgs)) = flow_view s"
  "flow_view (fst (add_meter_mod s mm msgs)) = flow_view s"
  "flow_view (fst (add_ct_flush_zone s z msgs)) = flow_view s"
  by (simp_all add: add_flow_mod_def add_group_mod_def add_meter_mod_def add_ct_flush_zone_def
      encode_def flow_view_def)

lemma fview_add_meter:
  "flow_view (fst (add_meter s m mt msgs)) = flow_view s"
  "flow_view (fst (add_meter_string L s m msgs)) = flow_view s"
  by (simp_all add: add_meter_def add_meter_string_def fview_add_mod Let_def split: option.splits)

lemma fview_update [simp]:
  "flow_view (s\<lparr>groups := g\<rparr>) = flow_view s"
  "flow_view (s\<lparr>meters := m\<rparr>) = flow_view s"
  "flow_view (s\<lparr>next_xid := x\<rparr>) = flow_view s"
  "flow_view (s\<lparr>sent := ms\<rparr>) = flow_view s"
  "flow_view (s\<lparr>tx_counter := n\<rparr>) = flow_view s"
  "flow_view (s\<lparr>flow_updates := fu\<rparr>) = flow_view s"
  "flow_view (s\<lparr>cur_cfg := c\<rparr>) = flow_view s"
  "flow_view (s\<lparr>old_nb_cfg := c\<rparr>) = flow_view s"
  "flow_view (s\<lparr>skipped_last_time := b\<rparr>) = flow_view s"
  "flow_view (s\<lparr>need_reinstall_flows := b\<rparr>) = flow_view s"
  by (simp_all add: flow_view_def)

lemma fview_put_ct_flush:
  "put_ct_flush p s msgs = (p', s', msgs') \<Longrightarrow> flow_view s' = flow_view s"
proof (induction p arbitrary: s msgs p' s' msgs')
  case Nil
  then show ?case by simp
next
  case (Cons a p)
  obtain name e where a: "a = (name, e)" by (cases a)
  show ?case
  proof (cases "ct_state e = CT_ZONE_OF_QUEUED")
    case True
    obtain s1 msgs1 where am: "add_ct_flush_zone s (zone e) msgs = (s1, msgs1)" by force
    obtain r1 s2 msgs2 where r: "put_ct_flush p s1 msgs1 = (r1, s2, msgs2)" by (metis prod_cases3)
    from Cons.prems a True am r have "s' = s2" by simp
    moreover have "flow_view s1 = flow_view s" using fview_add_mod(4)[of s "zone e" msgs] am by simp
    ultimately show ?thesis using Cons.IH[OF r] by simp
  next
    case False
    obtain r1 s2 msgs2 where r: "put_ct_flush p s msgs = (r1, s2, msgs2)" by (metis prod_cases3)
    from Cons.prems a False r have "s' = s2" by simp
    then show ?thesis using Cons.IH[OF r] by simp
  qed
qed

lemma fview_put_add_groups:
  "put_add_groups L gs s msgs = (s', msgs') \<Longrightarrow> flow_view s' = flow_view s"
proof (induction gs arbitrary: s msgs)
  case Nil
  then show ?case by simp
next
  case (Cons g gs)
  show ?case
  proof (cases "parse_ofp_group_mod_str L OFPGC11_ADD (info_table_id g) (info_name g)")
    case None
    with Cons show ?thesis by simp
  next
    case (Some gm)
    obtain s1 msgs1 where am: "add_group_mod s gm msgs = (s1, msgs1)" by force
    have "flow_view s1 = flow_view s" using fview_add_mod(2)[of s gm msgs] am by simp
    with Cons Some am show ?thesis by simp
  qed
qed

lemma fview_put_add_meters:
  "put_add_meters L mt ms s msgs = (s', msgs') \<Longrightarrow> flow_view s' = flow_view s"
proof (induction ms arbitrary: s msgs)
  case Nil
  then show ?case by simp
next
  case (Cons m ms)
  let ?r = "if take 10 (info_name m) = ''__string: '' then add_meter_string L s m msgs
            else add_meter s m mt msgs"
  obtain s1 msgs1 where am: "?r = (s1, msgs1)" by force
  have "flow_view s1 = flow_view s"
    using fview_add_meter(1)[of s m mt msgs] fview_add_meter(2)[of L s m msgs] am
    by (auto split: if_splits)
  with Cons am show ?case by simp
qed

lemma fview_put_del_groups:
  "put_del_groups L gs tab s msgs = (tab', s', msgs') \<Longrightarrow> flow_view s' = flow_view s"
proof (induction gs arbitrary: tab s msgs)
  case Nil
  then show ?case by simp
next
  case (Cons g gs)
  let ?r = "case parse_ofp_group_mod_str L OFPGC11_DELETE (info_table_id g) [] of
               Some gm \<Rightarrow> add_group_mod s gm msgs | None \<Rightarrow> (s, msgs)"
  obtain s1 msgs1 where am: "?r = (s1, msgs1)" by force
  have "flow_view s1 = flow_view s"
  proof (cases "parse_ofp_group_mod_str L OFPGC11_DELETE (info_table_id g) []")
    case None
    with am show ?thesis by simp
  next
    case (Some gm)
    with am fview_add_mod(2)[of s gm msgs] show ?thesis by simp
  qed
  with Cons am show ?case by simp
qed

lemma fview_put_del_meters:
  "put_del_meters ms tab s msgs = (tab', s', msgs') \<Longrightarrow> flow_view s' = flow_view s"
proof (induction ms arbitrary: tab s msgs)
  case Nil
  then show ?case by simp
next
  case (Cons m ms)
  let ?mm = "\<lparr>mm_command = OFPMC13_DELETE, mm_meter_id = info_table_id m, mm_flags = 0, mm_bands = []\<rparr>"
  obtain s1 msgs1 where am: "add_meter_mod s ?mm msgs = (s1, msgs1)" by force
  have "flow_view s1 = flow_view s"
    using am fview_add_mod(3)[of s ?mm msgs] by simp
  with Cons am show ?case by simp
qed

lemma fview_fold_queue_msg:
  "flow_view (fold (\<lambda>msg s'. snd (queue_msg s' msg)) ms s) = flow_view s"
  by (induction ms arbitrary: s) (simp_all add: queue_msg_def)

lemma fview_queue_msg [simp]: "flow_view (snd (queue_msg s msg)) = flow_view s"
  by (simp add: queue_msg_def)

lemma fview_put_finish:
  "flow_view (fst (put_finish s p msgs nb)) = flow_view s"
  by (simp add: put_finish_def Let_def split_beta encode_def fview_fold_queue_msg)

lemma groups_put_del_meters:
  "put_del_meters ms tab s msgs = (tab', s', msgs') \<Longrightarrow> groups s' = groups s"
proof (induction ms arbitrary: tab s msgs)
  case Nil
  then show ?case by simp
next
  case (Cons a ms)
  obtain s1 msgs1 where am:
    "add_meter_mod s \<lparr>mm_command = OFPMC13_DELETE, mm_meter_id = info_table_id a, mm_flags = 0,
                        mm_bands = []\<rparr> msgs = (s1, msgs1)"
    by force
  then have g: "groups s1 = groups s" by (auto simp: add_meter_mod_def encode_def)
  from Cons.prems am have "put_del_meters ms (ovn_extend_table_remove_existing tab a) s1 msgs1
                             = (tab', s', msgs')"
    by simp
  from Cons.IH[OF this] g show ?case by simp
qed

lemma put_reconcile_flows:
  assumes inv: "put_inv H (installed_flows s) (iheap s) (match_flow_table t) (dheap t)"
    and al: "\<forall>i \<in> set (installed_flows s). i < inext s"
    and g: "groups s = Some g" and m: "meters s = Some m"
  shows "\<exists>s' t' p' msgs. put_reconcile L s t p mt = Some (s', t', p', msgs)
           \<and> put_inv H (installed_flows s') (iheap s') (match_flow_table t') (dheap t')
           \<and> (\<forall>i \<in> set (installed_flows s'). installed_synced (iheap s') (dheap t') i)
           \<and> (\<forall>i \<in> set (installed_flows s'). i < inext s')
           \<and> match_flow_table t' = match_flow_table t
           \<and> desired_content (dheap t') = desired_content (dheap t)
           \<and> (\<forall>d \<in> set (match_flow_table t').
                 key_installed (installed_flows s') (iheap s') (dheap t') d)
           \<and> groups s' \<noteq> None \<and> meters s' \<noteq> None"
proof -
  obtain p1 s1 msgs1 where a1: "put_ct_flush p s [] = (p1, s1, msgs1)"
    by (cases "put_ct_flush p s []")
  obtain s2 msgs2 where a2: "put_add_groups L (extend_table_uninstalled g) s1 msgs1 = (s2, msgs2)"
    by (cases "put_add_groups L (extend_table_uninstalled g) s1 msgs1")
  obtain s3 msgs3 where a3: "put_add_meters L mt (extend_table_uninstalled m) s2 msgs2 = (s3, msgs3)"
    by (cases "put_add_meters L mt (extend_table_uninstalled m) s2 msgs2")
  have v3: "flow_view s3 = flow_view s"
    using fview_put_ct_flush[OF a1] fview_put_add_groups[OF a2] fview_put_add_meters[OF a3]
    by simp
  note f3 = flow_view_fields[OF v3]
  have inv3: "put_inv H (installed_flows s3) (iheap s3) (match_flow_table t) (dheap t)"
    unfolding f3 by (rule inv)
  from put_installed_loop_inv[OF inv3 subset_refl put_invD(1)[OF inv3], of msgs3]
  obtain s4 t4 msgs4 where
    a4: "put_installed_loop (installed_flows s3) s3 t msgs3 = Some (s4, t4, msgs4)"
    and inv4: "put_inv H (installed_flows s4) (iheap s4) (match_flow_table t4) (dheap t4)"
    and rl4: "\<forall>i \<in> set (installed_flows s4). installed_relinked (iheap s4) (dheap t4) i"
    and f4: "set (installed_flows s4) \<subseteq> set (installed_flows s3)" "inext s4 = inext s3"
      "match_flow_table t4 = match_flow_table t"
      "desired_content (dheap t4) = desired_content (dheap t)"
    by auto
  note D4 = put_invD[OF inv4]
  have syn4: "\<forall>i \<in> set (installed_flows s4). installed_synced (iheap s4) (dheap t4) i"
    using rl4 by (simp add: installed_relinked_def)
  have al4: "\<forall>i \<in> set (installed_flows s4). i < inext s4"
    using al f4(1,2) f3 by auto
  have R4: "\<forall>d \<in> set (match_flow_table t4). \<forall>fd i.
              dheap t4 d = Some fd \<and> d_installed_flow fd = Some i
              \<longrightarrow> (\<exists>fi. iheap s4 i = Some fi \<and> i_desired_flow fi = Some d)"
  proof (intro ballI allI impI)
    fix d fd i
    assume d: "d \<in> set (match_flow_table t4)"
      and a: "dheap t4 d = Some fd \<and> d_installed_flow fd = Some i"
    from D4(8)[OF d] a obtain fi where i: "i \<in> set (installed_flows s4)"
      and fi: "iheap s4 i = Some fi" and r: "d \<in> set (desired_refs fi)" by blast
    from rl4 i fi obtain q where q: "desired_refs fi = [q]"
      by (auto simp: installed_relinked_def)
    from syn4 i fi obtain q' where q': "i_desired_flow fi = Some q'"
      by (auto simp: installed_synced_def)
    from links_okD(4)[OF D4(3)[OF i] fi q'] q r have "q' = d" by simp
    with fi q' show "\<exists>fi. iheap s4 i = Some fi \<and> i_desired_flow fi = Some d" by simp
  qed
  have c4: "\<forall>d \<in> set (match_flow_table t4) - set (match_flow_table t4).
              key_installed (installed_flows s4) (iheap s4) (dheap t4) d"
    by simp
  from put_desired_loop_inv[OF inv4 syn4 al4 subset_refl D4(2) R4 c4, of msgs4]
  obtain s5 t5 msgs5 where
    a5: "put_desired_loop (match_flow_table t4) s4 t4 msgs4 = Some (s5, t5, msgs5)"
    and inv5: "put_inv H (installed_flows s5) (iheap s5) (match_flow_table t5) (dheap t5)"
    and syn5: "\<forall>i \<in> set (installed_flows s5). installed_synced (iheap s5) (dheap t5) i"
    and al5: "\<forall>i \<in> set (installed_flows s5). i < inext s5"
    and f5: "match_flow_table t5 = match_flow_table t4"
      "desired_content (dheap t5) = desired_content (dheap t4)"
    and k5: "\<forall>d \<in> set (match_flow_table t5).
                 key_installed (installed_flows s5) (iheap s5) (dheap t5) d"
    by auto
  obtain g6 s6 msgs6 where a6: "put_del_groups L (extend_table_installed g) g s5 msgs5 = (g6, s6, msgs6)"
    by (cases "put_del_groups L (extend_table_installed g) g s5 msgs5")
  obtain m8 s8 msgs8 where
    a8: "put_del_meters (extend_table_installed m) m (s6\<lparr>groups := Some (ovn_extend_table_sync g6)\<rparr>) msgs6
          = (m8, s8, msgs8)"
    by (cases "put_del_meters (extend_table_installed m) m (s6\<lparr>groups := Some (ovn_extend_table_sync g6)\<rparr>) msgs6")
  let ?s9 = "s8\<lparr>meters := Some (ovn_extend_table_sync m8)\<rparr>"
  have v9: "flow_view ?s9 = flow_view s5"
    using fview_put_del_groups[OF a6] fview_put_del_meters[OF a8] by simp
  note f9 = flow_view_fields[OF v9]
  have r: "put_reconcile L s t p mt = Some (?s9, t5, p1, msgs8)"
    by (simp add: put_reconcile_def g m a1 a2 a3 a4 a5 a6 a8)
  have g9: "groups ?s9 \<noteq> None" "meters ?s9 \<noteq> None"
    using groups_put_del_meters[OF a8] by simp_all
  have mt5: "match_flow_table t5 = match_flow_table t" using f5(1) f4(3) by simp
  have dc5: "desired_content (dheap t5) = desired_content (dheap t)" using f5(2) f4(4) by simp
  have "put_inv H (installed_flows ?s9) (iheap ?s9) (match_flow_table t5) (dheap t5)"
    unfolding f9 by (rule inv5)
  moreover have "\<forall>i \<in> set (installed_flows ?s9). installed_synced (iheap ?s9) (dheap t5) i"
    unfolding f9 by (rule syn5)
  moreover have "\<forall>i \<in> set (installed_flows ?s9). i < inext ?s9"
    unfolding f9 by (rule al5)
  moreover have "\<forall>d \<in> set (match_flow_table t5).
                 key_installed (installed_flows ?s9) (iheap ?s9) (dheap t5) d"
    unfolding f9 by (rule k5)
  ultimately show ?thesis using r g9 mt5 dc5 by blast
qed

lemma installed_keys_view: "flow_view s' = flow_view s \<Longrightarrow> installed_keys s' = installed_keys s"
  by (simp add: installed_keys_def flow_view_def)

lemma tables_fold_queue_msg:
  "groups (fold (\<lambda>msg s'. snd (queue_msg s' msg)) ms s) = groups s"
  "meters (fold (\<lambda>msg s'. snd (queue_msg s' msg)) ms s) = meters s"
  by (induction ms arbitrary: s) (simp_all add: queue_msg_def)

lemma tables_queue_msg:
  "groups (snd (queue_msg s msg)) = groups s"
  "meters (snd (queue_msg s msg)) = meters s"
  by (simp_all add: queue_msg_def)

lemma tables_put_finish:
  "groups (fst (put_finish s p msgs nb)) = groups s"
  "meters (fst (put_finish s p msgs nb)) = meters s"
  by (simp_all add: put_finish_def Let_def split_beta encode_def tables_fold_queue_msg
      tables_queue_msg)

lemma ofctrl_put_needed:
  assumes "put_ok H s t" and "ofctrl_can_put s" and "put_need_put s nb_cfg flow_changed"
  shows "\<exists>s' t' p'. ofctrl_put L s t p mt nb_cfg flow_changed = Some (s', t', p')
           \<and> match_flow_table t' = match_flow_table t
           \<and> desired_content (dheap t') = desired_content (dheap t)
           \<and> installed_keys s' = desired_keys t'
           \<and> (\<forall>i \<in> set (installed_flows s'). primary_installed s' t' i)
           \<and> put_ok H s' t'"
proof -
  from assms(1) obtain g m where
    inv: "put_inv H (installed_flows s) (iheap s) (match_flow_table t) (dheap t)"
    and al: "\<forall>i \<in> set (installed_flows s). i < inext s"
    and g: "groups s = Some g" and m: "meters s = Some m"
    unfolding put_ok_def by auto
  let ?s1 = "if \<not> (flow_changed \<or> skipped_last_time s \<or> need_reinstall_flows s)
                   \<and> nb_cfg \<noteq> old_nb_cfg s \<and> cur_cfg s = old_nb_cfg s
                then s\<lparr>cur_cfg := nb_cfg\<rparr> else s"
  let ?s2 = "?s1\<lparr>old_nb_cfg := nb_cfg\<rparr>"
  let ?s3 = "?s2\<lparr>skipped_last_time := False, need_reinstall_flows := False\<rparr>"
  have v: "flow_view ?s3 = flow_view s" "groups ?s3 = Some g" "meters ?s3 = Some m"
    using g m by (simp_all add: flow_view_def)
  note f = flow_view_fields[OF v(1)]
  have cp: "ofctrl_can_put ?s2" using assms(2) by (auto simp: ofctrl_can_put_def split: if_splits)
  have inv3: "put_inv H (installed_flows ?s3) (iheap ?s3) (match_flow_table t) (dheap t)"
    unfolding f by (rule inv)
  have al3: "\<forall>i \<in> set (installed_flows ?s3). i < inext ?s3"
    unfolding f by (rule al)
  from put_reconcile_flows[OF inv3 al3 v(2,3), of L p mt]
  obtain s4 t4 p4 msgs where
    r: "put_reconcile L ?s3 t p mt = Some (s4, t4, p4, msgs)"
    and inv4: "put_inv H (installed_flows s4) (iheap s4) (match_flow_table t4) (dheap t4)"
    and syn4: "\<forall>i \<in> set (installed_flows s4). installed_synced (iheap s4) (dheap t4) i"
    and al4: "\<forall>i \<in> set (installed_flows s4). i < inext s4"
    and mt4: "match_flow_table t4 = match_flow_table t"
    and dc4: "desired_content (dheap t4) = desired_content (dheap t)"
    and k4: "\<forall>d \<in> set (match_flow_table t4).
                 key_installed (installed_flows s4) (iheap s4) (dheap t4) d"
    and gm4: "groups s4 \<noteq> None" "meters s4 \<noteq> None"
    by blast
  note D = put_invD[OF inv4]
  let ?s5 = "fst (put_finish s4 p4 msgs nb_cfg)"
  let ?p5 = "snd (put_finish s4 p4 msgs nb_cfg)"
  have e: "ofctrl_put L s t p mt nb_cfg flow_changed = Some (?s5, t4, ?p5)"
    using assms(3) cp r
    by (simp add: ofctrl_put_def Let_def split_beta)
  have v5: "flow_view ?s5 = flow_view s4" by (rule fview_put_finish)
  note f5 = flow_view_fields[OF v5]
  have gm5: "groups ?s5 \<noteq> None" "meters ?s5 \<noteq> None"
    using gm4 by (simp_all add: tables_put_finish)
  have pr: "primary_installed ?s5 t4 i" if i: "i \<in> set (installed_flows s4)" for i
  proof -
    from syn4 i obtain fi q fq where a: "iheap s4 i = Some fi" "i_desired_flow fi = Some q"
      "dheap t4 q = Some fq" "ofpacts (iflow fi) = ofpacts (dflow fq)"
      "cookie (iflow fi) = cookie (dflow fq)"
      unfolding installed_synced_def by blast
    from links_okD(4)[OF D(3)[OF i] a(1,2)] have "q \<in> set (desired_refs fi)" .
    from D(5)[OF i a(1) this] a(3) have "q \<in> set (match_flow_table t4)"
      "flow_key (dflow fq) = flow_key (iflow fi)" by auto
    with a show ?thesis unfolding primary_installed_def f5 by blast
  qed
  have k1: "installed_keys s4 \<subseteq> desired_keys t4"
  proof
    fix x assume "x \<in> installed_keys s4"
    then obtain i where i: "i \<in> set (installed_flows s4)"
      and x: "x = map_option (\<lambda>fi. flow_key (iflow fi)) (iheap s4 i)"
      unfolding installed_keys_def by blast
    from pr[OF i] obtain fi d fd where "iheap s4 i = Some fi" "d \<in> set (match_flow_table t4)"
      "dheap t4 d = Some fd" "flow_key (dflow fd) = flow_key (iflow fi)"
      unfolding primary_installed_def f5 by blast
    with x have "x = map_option (\<lambda>fd. flow_key (dflow fd)) (dheap t4 d)" by simp
    with \<open>d \<in> set (match_flow_table t4)\<close> show "x \<in> desired_keys t4"
      unfolding desired_keys_def by blast
  qed
  have k2: "desired_keys t4 \<subseteq> installed_keys s4"
  proof
    fix x assume "x \<in> desired_keys t4"
    then obtain d where d: "d \<in> set (match_flow_table t4)"
      and x: "x = map_option (\<lambda>fd. flow_key (dflow fd)) (dheap t4 d)"
      unfolding desired_keys_def by blast
    from k4 d obtain fd i fi where "dheap t4 d = Some fd" "i \<in> set (installed_flows s4)"
      "iheap s4 i = Some fi" "flow_key (iflow fi) = flow_key (dflow fd)"
      unfolding key_installed_def by blast
    with x have "x = map_option (\<lambda>fi. flow_key (iflow fi)) (iheap s4 i)" by simp
    with \<open>i \<in> set (installed_flows s4)\<close> show "x \<in> installed_keys s4"
      unfolding installed_keys_def by blast
  qed
  have "installed_keys ?s5 = desired_keys t4"
    unfolding installed_keys_view[OF v5] using k1 k2 by blast
  moreover have "\<forall>i \<in> set (installed_flows ?s5). primary_installed ?s5 t4 i"
    unfolding f5(1) using pr by blast
  moreover have "put_ok H ?s5 t4"
    unfolding put_ok_def f5 using inv4 al4 gm5 by simp
  ultimately show ?thesis using e mt4 dc4 by blast
qed

lemma ofctrl_put_not_needed:
  assumes "\<not> put_need_put s nb_cfg flow_changed"
  shows "\<exists>s'. ofctrl_put L s t p mt nb_cfg flow_changed = Some (s', t, p)
           \<and> installed_flows s' = installed_flows s \<and> iheap s' = iheap s"
  using assms by (simp add: ofctrl_put_def Let_def)

text \<open>
  C1, amended: for every engine state in which \<^verbatim>\<open>ofctrl_can_put\<close> returns true and every
  call of \<^verbatim>\<open>ofctrl_put\<close> that decides to reconcile (\<^verbatim>\<open>flow_changed\<close> is set, or the last call
  was skipped, or the flows must be reinstalled, or \<^verbatim>\<open>nb_cfg\<close> changed while the engine was
  not up to date), on well-formed tables: the call returns, it changes nothing of the
  desired flow table but the links to installed flows, and afterwards the set of flow keys
  of the installed table equals the set of flow keys of the match index of the desired
  table, every installed flow has a primary, which is a desired flow of the match index
  with the same key, and the installed flow's actions and cookie equal those of its
  primary.  The tables are well formed again afterwards.  A call that does not decide to
  reconcile returns with both tables as they were.
\<close>

theorem ofctrl_put_reconciles:
  assumes "put_ok H s t" and "ofctrl_can_put s"
  shows "(put_need_put s nb_cfg flow_changed \<longrightarrow>
            (\<exists>s' t' p'. ofctrl_put L s t p mt nb_cfg flow_changed = Some (s', t', p')
               \<and> match_flow_table t' = match_flow_table t
               \<and> desired_content (dheap t') = desired_content (dheap t)
               \<and> installed_keys s' = desired_keys t'
               \<and> (\<forall>i \<in> set (installed_flows s'). primary_installed s' t' i)
               \<and> put_ok H s' t'))
       \<and> (\<not> put_need_put s nb_cfg flow_changed \<longrightarrow>
            (\<exists>s'. ofctrl_put L s t p mt nb_cfg flow_changed = Some (s', t, p)
               \<and> installed_flows s' = installed_flows s \<and> iheap s' = iheap s))"
  using ofctrl_put_needed[OF assms, of nb_cfg flow_changed L p mt]
        ofctrl_put_not_needed[of s nb_cfg flow_changed L t p mt]
  by blast

lemma desired_keys_content:
  assumes "desired_content (dheap t') = desired_content (dheap t)"
    and "match_flow_table t' = match_flow_table t"
  shows "desired_keys t' = desired_keys t"
proof -
  have "map_option (\<lambda>fd. flow_key (dflow fd)) (dheap t' d)
        = map_option (\<lambda>fd. flow_key (dflow fd)) (dheap t d)" for d
  proof -
    from assms(1) have "desired_content (dheap t') d = desired_content (dheap t) d" by simp
    then show ?thesis
      by (cases "dheap t' d"; cases "dheap t d") (simp_all add: desired_content_def)
  qed
  then show ?thesis by (simp add: desired_keys_def assms(2))
qed

lemma ex_put1_fields:
  "installed_flows ex_engine2 = [0]"
  "iheap ex_engine2 0 = Some \<lparr>iflow = ovn_flow_init ex_hash 0 100 7 42 [1, 2],
                             desired_refs = [0], i_desired_flow = Some 0\<rparr>"
  "inext ex_engine2 = 1"
  "state ex_engine2 = S_UPDATE_FLOWS" "tx_counter ex_engine2 = 0" "version ex_engine2 = 4"
  "groups ex_engine2 = ex_tables" "meters ex_engine2 = ex_tables"
  "old_nb_cfg ex_engine2 = 3" "skipped_last_time ex_engine2 = False"
  "need_reinstall_flows ex_engine2 = False"
  "match_flow_table ex_table4 = [0, 1]"
  "dheap ex_table4 0 = Some \<lparr>dflow = ovn_flow_init ex_hash 0 100 7 42 [1, 2],
                            references = [\<lparr>sfr_flow = 0, sfr_sb_uuid = 11\<rparr>],
                            d_installed_flow = Some 0\<rparr>"
  "dheap ex_table4 1 = Some \<lparr>dflow = ovn_flow_init ex_hash 0 100 8 43 [3],
                            references = [\<lparr>sfr_flow = 1, sfr_sb_uuid = 12\<rparr>],
                            d_installed_flow = None\<rparr>"
  "dheap ex_table4 (Suc 0) = Some \<lparr>dflow = ovn_flow_init ex_hash 0 100 8 43 [3],
                            references = [\<lparr>sfr_flow = 1, sfr_sb_uuid = 12\<rparr>],
                            d_installed_flow = None\<rparr>"
  by (simp_all add: ex_engine2_def ex_table4_def ex_put1_def ex_defs put_defs Let_def
      ovn_extend_table_sync_def)

theorem ofctrl_put_reconciles_witness:
  "put_ok ex_hash ex_update_engine ex_table1
   \<and> ofctrl_can_put ex_update_engine \<and> put_need_put ex_update_engine 3 True
   \<and> map_option (\<lambda>r. installed_keys (fst r)) ex_put1 = Some {Some (0, 100, 42)}
   \<and> desired_keys ex_table1 = {Some (0, 100, 42)}
   \<and> put_ok ex_hash ex_engine2 ex_table4
   \<and> ofctrl_can_put ex_engine2 \<and> put_need_put ex_engine2 5 True
   \<and> map_option (\<lambda>r. installed_keys (fst r)) (ofctrl_put ex_lib ex_engine2 ex_table4 [] [] 5 True)
       = Some {Some (0, 100, 42), Some (0, 100, 43)}
   \<and> desired_keys ex_table4 = {Some (0, 100, 42), Some (0, 100, 43)}"
proof -
  have ok1: "put_ok ex_hash ex_update_engine ex_table1"
    by (simp add: put_ok_def put_inv_def ex_table1_fields hash_ok_def ovn_flow_init_def
        ex_update_engine_def ex_engine_def ofctrl_init_def ex_tables_def)
  have c1: "ofctrl_can_put ex_update_engine" "put_need_put ex_update_engine 3 True"
    by (simp_all add: ofctrl_can_put_def put_need_put_def ex_update_engine_def ex_engine_def
        ofctrl_init_def)
  have k1: "desired_keys ex_table1 = {Some (0, 100, 42)}"
    by (simp add: desired_keys_def ex_table1_fields)
  have ok2: "put_ok ex_hash ex_engine2 ex_table4"
    by (simp add: put_ok_def put_inv_def links_ok_def ex_put1_fields hash_ok_def ovn_flow_init_def
        flow_key_def ex_tables_def)
  have c2: "ofctrl_can_put ex_engine2" "put_need_put ex_engine2 5 True"
    by (simp_all add: ofctrl_can_put_def put_need_put_def ex_put1_fields)
  have k2: "desired_keys ex_table4 = {Some (0, 100, 42), Some (0, 100, 43)}"
    by (auto simp: desired_keys_def ex_put1_fields)
  from ofctrl_put_reconciles[OF ok1 c1(1), of 3 True ex_lib "[]" "[]"] c1(2)
  obtain s1 t1 p1 where r1: "ofctrl_put ex_lib ex_update_engine ex_table1 [] [] 3 True = Some (s1, t1, p1)"
    and e1: "match_flow_table t1 = match_flow_table ex_table1"
      "desired_content (dheap t1) = desired_content (dheap ex_table1)"
      "installed_keys s1 = desired_keys t1"
    by blast
  from ofctrl_put_reconciles[OF ok2 c2(1), of 5 True ex_lib "[]" "[]"] c2(2)
  obtain s2 t2 p2 where r2: "ofctrl_put ex_lib ex_engine2 ex_table4 [] [] 5 True = Some (s2, t2, p2)"
    and e2: "match_flow_table t2 = match_flow_table ex_table4"
      "desired_content (dheap t2) = desired_content (dheap ex_table4)"
      "installed_keys s2 = desired_keys t2"
    by blast
  from desired_keys_content[OF e1(2,1)] e1(3) k1 have "installed_keys s1 = {Some (0, 100, 42)}"
    by simp
  moreover from desired_keys_content[OF e2(2,1)] e2(3) k2
  have "installed_keys s2 = {Some (0, 100, 42), Some (0, 100, 43)}"
    by simp
  ultimately show ?thesis using ok1 c1 k1 ok2 c2 k2 r1 r2 by (simp add: ex_put1_def)
qed

text \<open>
  C1 as stated fails: \<^verbatim>\<open>ofctrl_can_put\<close> is true, the desired table has a flow that is not
  installed, and a call with \<^verbatim>\<open>flow_changed\<close> false and the \<^verbatim>\<open>nb_cfg\<close> of the call before
  returns without reconciling: the installed table still lacks the key.
\<close>

theorem ofctrl_put_counterexample:
  "ofctrl_can_put ex_engine2
   \<and> ofctrl_put ex_lib ex_engine2 ex_table4 [] [] 3 False = Some (ex_engine2, ex_table4, [])
   \<and> installed_keys ex_engine2 = {Some (0, 100, 42)}
   \<and> desired_keys ex_table4 = {Some (0, 100, 42), Some (0, 100, 43)}
   \<and> installed_keys ex_engine2 \<noteq> desired_keys ex_table4"
proof -
  have a: "ofctrl_can_put ex_engine2"
    by (simp add: ofctrl_can_put_def ex_put1_fields)
  have b: "ofctrl_put ex_lib ex_engine2 ex_table4 [] [] 3 False = Some (ex_engine2, ex_table4, [])"
    by (simp add: ofctrl_put_def put_need_put_def ex_put1_fields Let_def)
  have c: "installed_keys ex_engine2 = {Some (0, 100, 42)}"
    by (simp add: installed_keys_def ex_put1_fields)
  have d: "desired_keys ex_table4 = {Some (0, 100, 42), Some (0, 100, 43)}"
    by (auto simp: desired_keys_def ex_put1_fields)
  from a b c d show ?thesis by auto
qed

section \<open>Where the tables are well formed\<close>

text \<open>
  The tables are well formed after \<^verbatim>\<open>ofctrl_init\<close> and \<^verbatim>\<open>ovn_desired_flow_table_init\<close>, and
  they stay so when a flow is added to the desired table and when the engine enters
  \<open>S_CLEAR_FLOWS\<close>; \<^verbatim>\<open>ofctrl_put\<close> keeps them so too.
\<close>

lemma put_ok_installed_table_ok: "put_ok H s t \<Longrightarrow> installed_table_ok s (dheap t)"
  by (simp add: put_ok_def put_inv_def installed_table_ok_def)

lemma put_ok_init:
  "g \<noteq> None \<Longrightarrow> m \<noteq> None \<Longrightarrow> put_ok H (ofctrl_init g m) ovn_desired_flow_table_init"
  by (simp add: put_ok_def put_inv_def ofctrl_init_def ovn_desired_flow_table_init_def)

lemma put_inv_desired_cong:
  assumes inv: "put_inv H il ih mt dh"
    and same: "\<And>d fd. d \<in> set mt \<Longrightarrow> dh d = Some fd \<Longrightarrow>
                 \<exists>fd'. dh' d = Some fd' \<and> flow_key (dflow fd') = flow_key (dflow fd)
                    \<and> hash (dflow fd') = hash (dflow fd)
                    \<and> d_installed_flow fd' = d_installed_flow fd"
    and new: "\<And>d. d \<in> set new \<Longrightarrow>
                 \<exists>fd. dh' d = Some fd \<and> hash_ok H (dflow fd) \<and> d_installed_flow fd = None"
    and dis: "distinct (new @ mt)"
  shows "put_inv H il ih (new @ mt) dh'"
proof (rule put_invI)
  note D = put_invD[OF inv]
  have hk: "hash_ok H (dflow fd') = hash_ok H (dflow fd)"
    if "flow_key (dflow fd') = flow_key (dflow fd)" "hash (dflow fd') = hash (dflow fd)" for fd fd'
    using that by (simp add: hash_ok_def flow_key_def)
  show "distinct il" by (rule D(1))
  show "distinct (new @ mt)" by (rule dis)
  show "links_ok ih dh' i" if i: "i \<in> set il" for i
  proof (rule links_ok_cong[where ih = ih and dh = dh and ih' = ih and dh' = dh' and j = i,
        OF D(3)[OF i] refl])
    show "\<exists>fd'. dh' d = Some fd' \<and> d_installed_flow fd' = d_installed_flow fd"
      if "ih i = Some fi" "d \<in> set (desired_refs fi)" "dh d = Some fd" for fi d fd
    proof -
      from D(5)[OF i that(1,2)] have "d \<in> set mt" by simp
      from same[OF this that(3)] show ?thesis by blast
    qed
  qed
  show "hash_ok H (iflow fi)" if "i \<in> set il" "ih i = Some fi" for i fi
    by (rule D(4)[OF that])
  show "d \<in> set (new @ mt) \<and> (\<exists>fd. dh' d = Some fd \<and> flow_key (dflow fd) = flow_key (iflow fi))"
    if "i \<in> set il" "ih i = Some fi" "d \<in> set (desired_refs fi)" for i fi d
  proof -
    from D(5)[OF that] obtain fd where a: "d \<in> set mt" "dh d = Some fd"
      "flow_key (dflow fd) = flow_key (iflow fi)" by blast
    from same[OF a(1,2)] a(1,3) show ?thesis by auto
  qed
  show "i = j" if "i \<in> set il" "j \<in> set il" "ih i = Some fi" "ih j = Some fj"
    "flow_key (iflow fi) = flow_key (iflow fj)" for i j fi fj
    by (rule D(6)[OF that])
  show "\<exists>fd. dh' d = Some fd \<and> hash_ok H (dflow fd)" if "d \<in> set (new @ mt)" for d
  proof (cases "d \<in> set new")
    case True
    from new[OF this] show ?thesis by blast
  next
    case False
    with that have m: "d \<in> set mt" by simp
    from D(7)[OF m] obtain fd where fd: "dh d = Some fd" "hash_ok H (dflow fd)" by blast
    from same[OF m fd(1)] obtain fd' where "dh' d = Some fd'"
      "flow_key (dflow fd') = flow_key (dflow fd)" "hash (dflow fd') = hash (dflow fd)" by blast
    with hk[of fd' fd] fd(2) show ?thesis by auto
  qed
  show "i \<in> set il \<and> (\<exists>fi. ih i = Some fi \<and> d \<in> set (desired_refs fi))"
    if a: "d \<in> set (new @ mt)" "dh' d = Some fd'" "d_installed_flow fd' = Some i" for d fd' i
  proof (cases "d \<in> set new")
    case True
    from new[OF this] a(2,3) show ?thesis by auto
  next
    case False
    with a(1) have m: "d \<in> set mt" by simp
    from D(7)[OF m] obtain fd where fd: "dh d = Some fd" by blast
    from same[OF m fd] a(2,3) have "d_installed_flow fd = Some i" by auto
    from D(8)[OF m fd this] show ?thesis .
  qed
qed

lemma put_inv_perm:
  assumes "put_inv H il ih mt dh" "set mt' = set mt" "distinct mt'"
  shows "put_inv H il ih mt' dh"
  using assms unfolding put_inv_def by simp

lemma ofctrl_check_and_add_flow_result:
  assumes "desired_table_ok H t"
  shows "ofctrl_check_and_add_flow H t tid prio ck m actions u lg = t
         \<or> ofctrl_check_and_add_flow H t tid prio ck m actions u lg
             = link_flow_to_sb (snd (desired_flow_insert H t (desired_flow_alloc H tid prio ck m actions)))
                 (dnext t) u"
  by (simp add: ofctrl_check_and_add_flow_def Let_def split_beta desired_flow_insert_def)

lemma put_ok_add_flow:
  assumes "put_ok H s t" "desired_table_ok H t" "hmap_ok H"
  shows "put_ok H s (ofctrl_check_and_add_flow H t tid prio ck m actions u lg)"
    and "desired_table_ok H (ofctrl_check_and_add_flow H t tid prio ck m actions u lg)"
proof -
  let ?t = "ofctrl_check_and_add_flow H t tid prio ck m actions u lg"
  from assms(1) have inv: "put_inv H (installed_flows s) (iheap s) (match_flow_table t) (dheap t)"
    and rest: "\<forall>i \<in> set (installed_flows s). i < inext s" "groups s \<noteq> None" "meters s \<noteq> None"
    by (simp_all add: put_ok_def)
  have lt: "\<forall>d \<in> set (match_flow_table t). d < dnext t"
    using assms(2) by (simp add: desired_table_ok_def)
  have "put_ok H s ?t \<and> desired_table_ok H ?t"
  proof (cases "?t = t")
    case True
    with assms show ?thesis by simp
  next
    case False
    with ofctrl_check_and_add_flow_result[OF assms(2), of tid prio ck m actions u lg]
    have r: "?t = link_flow_to_sb (snd (desired_flow_insert H t (desired_flow_alloc H tid prio ck m actions)))
                 (dnext t) u"
      by blast
    note I = desired_flow_insert_link[OF assms(2,3), of tid prio ck m actions u, folded r]
    have e: "set (match_flow_table ?t) = set ([dnext t] @ match_flow_table t)"
      "distinct (match_flow_table ?t)"
      "dheap ?t = (dheap t)(dnext t \<mapsto>
                      \<lparr>dflow = ovn_flow_init H tid prio ck m actions,
                       references = [\<lparr>sfr_flow = dnext t, sfr_sb_uuid = u\<rparr>],
                       d_installed_flow = None\<rparr>)"
      and ok: "desired_table_ok H ?t"
      using I(1,3,4,7) by simp_all
    have "put_inv H (installed_flows s) (iheap s) ([dnext t] @ match_flow_table t) (dheap ?t)"
      unfolding e(3)
    proof (rule put_inv_desired_cong[OF inv])
      show "\<exists>fd'. ((dheap t)(dnext t \<mapsto>
                      \<lparr>dflow = ovn_flow_init H tid prio ck m actions,
                       references = [\<lparr>sfr_flow = dnext t, sfr_sb_uuid = u\<rparr>],
                       d_installed_flow = None\<rparr>)) d = Some fd'
              \<and> flow_key (dflow fd') = flow_key (dflow fd)
              \<and> hash (dflow fd') = hash (dflow fd)
              \<and> d_installed_flow fd' = d_installed_flow fd"
        if "d \<in> set (match_flow_table t)" "dheap t d = Some fd" for d fd
        using that lt by auto
      show "\<exists>fd. ((dheap t)(dnext t \<mapsto>
                      \<lparr>dflow = ovn_flow_init H tid prio ck m actions,
                       references = [\<lparr>sfr_flow = dnext t, sfr_sb_uuid = u\<rparr>],
                       d_installed_flow = None\<rparr>)) d = Some fd
              \<and> hash_ok H (dflow fd) \<and> d_installed_flow fd = None"
        if "d \<in> set [dnext t]" for d
        using that by simp
      show "distinct ([dnext t] @ match_flow_table t)"
        using lt put_invD(2)[OF inv] by auto
    qed
    from put_inv_perm[OF this e(1,2)] rest ok show ?thesis by (simp add: put_ok_def)
  qed
  then show "put_ok H s ?t" "desired_table_ok H ?t" by simp_all
qed

lemma ofctrl_add_or_append_flow_result:
  "(\<exists>e fe. e \<in> set (match_flow_table t) \<and> dheap t e = Some fe
       \<and> match_flow_table (ofctrl_add_or_append_flow H t tid prio ck m actions u)
           = match_flow_table t
       \<and> dnext (ofctrl_add_or_append_flow H t tid prio ck m actions u) = dnext t
       \<and> dheap (ofctrl_add_or_append_flow H t tid prio ck m actions u)
           = (dheap t)(e \<mapsto>
                fe\<lparr>dflow := (dflow fe)\<lparr>ofpacts := ofpacts (dflow fe) @ actions\<rparr>,
                   references := references fe @ [\<lparr>sfr_flow = e, sfr_sb_uuid = u\<rparr>]\<rparr>))
   \<or> ofctrl_add_or_append_flow H t tid prio ck m actions u
       = link_flow_to_sb (snd (desired_flow_insert H t (desired_flow_alloc H tid prio ck m actions)))
           (dnext t) u"
proof (cases "desired_flow_lookup t (dflow (desired_flow_alloc H tid prio ck m actions)) None")
  case None
  then show ?thesis
    by (simp add: ofctrl_add_or_append_flow_def Let_def split_beta desired_flow_insert_def)
next
  case (Some e)
  from desired_flow_lookup_walk_Some[OF Some[unfolded desired_flow_lookup_def]]
  obtain fe where e: "e \<in> set (match_flow_table t)" "dheap t e = Some fe" by auto
  have a: "ofpacts (dflow (desired_flow_alloc H tid prio ck m actions)) = actions"
    by (simp add: desired_flow_alloc_def ovn_flow_init_def)
  from Some e a show ?thesis
    by (intro disjI1 exI[of _ e] exI[of _ fe])
       (simp add: ofctrl_add_or_append_flow_def Let_def link_flow_to_sb_fields)
qed

lemma put_ok_add_or_append_flow:
  assumes "put_ok H s t" "desired_table_ok H t" "hmap_ok H"
  shows "put_ok H s (ofctrl_add_or_append_flow H t tid prio ck m actions u)"
    and "desired_table_ok H (ofctrl_add_or_append_flow H t tid prio ck m actions u)"
proof -
  let ?t = "ofctrl_add_or_append_flow H t tid prio ck m actions u"
  from assms(1) have inv: "put_inv H (installed_flows s) (iheap s) (match_flow_table t) (dheap t)"
    and rest: "\<forall>i \<in> set (installed_flows s). i < inext s" "groups s \<noteq> None" "meters s \<noteq> None"
    by (simp_all add: put_ok_def)
  have lt: "\<forall>d \<in> set (match_flow_table t). d < dnext t"
    using assms(2) by (simp add: desired_table_ok_def)
  from ofctrl_add_or_append_flow_result[of t H tid prio ck m actions u]
  have "put_inv H (installed_flows s) (iheap s) (match_flow_table ?t) (dheap ?t)
        \<and> desired_table_ok H ?t"
  proof
    assume "\<exists>e fe. e \<in> set (match_flow_table t) \<and> dheap t e = Some fe
       \<and> match_flow_table ?t = match_flow_table t \<and> dnext ?t = dnext t
       \<and> dheap ?t
           = (dheap t)(e \<mapsto>
                fe\<lparr>dflow := (dflow fe)\<lparr>ofpacts := ofpacts (dflow fe) @ actions\<rparr>,
                   references := references fe @ [\<lparr>sfr_flow = e, sfr_sb_uuid = u\<rparr>]\<rparr>)"
    then obtain e fe where e: "e \<in> set (match_flow_table t)" "dheap t e = Some fe"
      and r: "match_flow_table ?t = [] @ match_flow_table t" "dnext ?t = dnext t"
        "dheap ?t = (dheap t)(e \<mapsto>
                fe\<lparr>dflow := (dflow fe)\<lparr>ofpacts := ofpacts (dflow fe) @ actions\<rparr>,
                   references := references fe @ [\<lparr>sfr_flow = e, sfr_sb_uuid = u\<rparr>]\<rparr>)"
      by auto
    have same: "\<exists>fd'. dheap ?t d = Some fd'
              \<and> flow_key (dflow fd') = flow_key (dflow fd)
              \<and> hash (dflow fd') = hash (dflow fd)
              \<and> d_installed_flow fd' = d_installed_flow fd"
      if "dheap t d = Some fd" for d fd
      using that e(2) unfolding r(3) by (auto simp: flow_key_def)
    have "put_inv H (installed_flows s) (iheap s) (match_flow_table ?t) (dheap ?t)"
      unfolding r(1)
      by (rule put_inv_desired_cong[OF inv]) (use same put_invD(2)[OF inv] in auto)
    moreover have "desired_table_ok H ?t"
      unfolding desired_table_ok_def
    proof (intro conjI ballI)
      show "distinct (match_flow_table ?t)" using r(1) put_invD(2)[OF inv] by simp
      fix d assume "d \<in> set (match_flow_table ?t)"
      with r(1) have d: "d \<in> set (match_flow_table t)" by simp
      with lt r(2) show "d < dnext ?t" by simp
      from put_invD(7)[OF inv d] obtain fd where fd: "dheap t d = Some fd" "hash_ok H (dflow fd)"
        by blast
      from same[OF fd(1)] fd(2) show "\<exists>fd. dheap ?t d = Some fd \<and> hash_ok H (dflow fd)"
        by (auto simp: hash_ok_def flow_key_def)
    qed
    ultimately show ?thesis ..
  next
    assume r: "?t = link_flow_to_sb (snd (desired_flow_insert H t (desired_flow_alloc H tid prio ck m actions)))
                 (dnext t) u"
    note I = desired_flow_insert_link[OF assms(2,3), of tid prio ck m actions u, folded r]
    have e: "set (match_flow_table ?t) = set ([dnext t] @ match_flow_table t)"
      "distinct (match_flow_table ?t)"
      "dheap ?t = (dheap t)(dnext t \<mapsto>
                      \<lparr>dflow = ovn_flow_init H tid prio ck m actions,
                       references = [\<lparr>sfr_flow = dnext t, sfr_sb_uuid = u\<rparr>],
                       d_installed_flow = None\<rparr>)"
      and ok: "desired_table_ok H ?t"
      using I(1,3,4,7) by simp_all
    have "put_inv H (installed_flows s) (iheap s) ([dnext t] @ match_flow_table t) (dheap ?t)"
      unfolding e(3)
    proof (rule put_inv_desired_cong[OF inv])
      show "\<exists>fd'. ((dheap t)(dnext t \<mapsto>
                      \<lparr>dflow = ovn_flow_init H tid prio ck m actions,
                       references = [\<lparr>sfr_flow = dnext t, sfr_sb_uuid = u\<rparr>],
                       d_installed_flow = None\<rparr>)) d = Some fd'
              \<and> flow_key (dflow fd') = flow_key (dflow fd)
              \<and> hash (dflow fd') = hash (dflow fd)
              \<and> d_installed_flow fd' = d_installed_flow fd"
        if "d \<in> set (match_flow_table t)" "dheap t d = Some fd" for d fd
        using that lt by auto
      show "\<exists>fd. ((dheap t)(dnext t \<mapsto>
                      \<lparr>dflow = ovn_flow_init H tid prio ck m actions,
                       references = [\<lparr>sfr_flow = dnext t, sfr_sb_uuid = u\<rparr>],
                       d_installed_flow = None\<rparr>)) d = Some fd
              \<and> hash_ok H (dflow fd) \<and> d_installed_flow fd = None"
        if "d \<in> set [dnext t]" for d
        using that by simp
      show "distinct ([dnext t] @ match_flow_table t)"
        using lt put_invD(2)[OF inv] by auto
    qed
    from put_inv_perm[OF this e(1,2)] ok show ?thesis by simp
  qed
  with rest show "put_ok H s ?t" "desired_table_ok H ?t" by (simp_all add: put_ok_def)
qed

lemma put_ok_run_S_CLEAR_FLOWS:
  assumes "put_ok H s t"
  shows "\<exists>s' dh'. run_S_CLEAR_FLOWS s (dheap t) = Some (s', dh') \<and> put_ok H s' (t\<lparr>dheap := dh'\<rparr>)"
proof -
  from assms have inv: "put_inv H (installed_flows s) (iheap s) (match_flow_table t) (dheap t)"
    and gm: "groups s \<noteq> None" "meters s \<noteq> None"
    by (simp_all add: put_ok_def)
  note D = put_invD[OF inv]
  let ?dh = "dheap t"
  let ?s1 = "s\<lparr>need_reinstall_flows := True\<rparr>"
  let ?e1 = "encode ?s1 (OFPT_FLOW_MOD fm_delete_all)"
  let ?q1 = "queue_msg (snd ?e1) (fst ?e1)"
  let ?e2 = "encode (snd ?q1) (OFPT_GROUP_MOD gm_delete_all)"
  let ?s5 = "snd (queue_msg (snd ?e2) (fst ?e2))"
  have s5: "installed_flows ?s5 = installed_flows s" "iheap ?s5 = iheap s"
    "groups ?s5 = groups s" "meters ?s5 = meters s"
    by (simp_all add: encode_def queue_msg_def)
  have a: "distinct (installed_flows ?s5)"
    "\<forall>i \<in> set (installed_flows ?s5). links_ok (iheap ?s5) ?dh i"
    unfolding s5 using D(1,3) by simp_all
  let ?R = "\<Union>i \<in> set (installed_flows ?s5). set (desired_refs (the (iheap ?s5 i)))"
  let ?dh' = "cut_links ?dh ?R"
  from installed_flow_table_clear_loop_ok[OF a(1) a(2) a(1)] obtain s6 where
    c: "ovn_installed_flow_table_clear ?s5 ?dh = Some (s6, ?dh')"
    and v: "groups s6 = groups ?s5" "meters s6 = meters ?s5"
      "installed_flows s6 = filter (\<lambda>i. i \<notin> set (installed_flows ?s5)) (installed_flows ?s5)"
    unfolding ovn_installed_flow_table_clear_def by blast
  have il: "installed_flows s6 = []" unfolding v(3) by (simp add: filter_empty_conv)
  obtain s' where r: "run_S_CLEAR_FLOWS s ?dh = Some (s', ?dh')"
    and p: "installed_flows s' = installed_flows s6"
      "groups s' = map_option (\<lambda>g. g\<lparr>existing := []\<rparr>) (groups s6)"
      "meters s' = map_option (\<lambda>m. m\<lparr>existing := []\<rparr>) (meters s6)"
    unfolding run_S_CLEAR_FLOWS_unfold c
    by (cases "groups s6"; cases "meters s6")
       (simp_all add: encode_def queue_msg_def ovn_extend_table_clear_def)
  have "put_inv H [] (iheap s') (match_flow_table t) ?dh'"
  proof (rule put_invI)
    show "distinct (match_flow_table t)" by (rule D(2))
  next
    show "\<exists>fd. ?dh' d = Some fd \<and> hash_ok H (dflow fd)" if "d \<in> set (match_flow_table t)" for d
      using D(7)[OF that] by (auto simp: cut_links_def)
  next
    show "i \<in> set [] \<and> (\<exists>fi. iheap s' i = Some fi \<and> d \<in> set (desired_refs fi))"
      if d: "d \<in> set (match_flow_table t)" "?dh' d = Some fd'" "d_installed_flow fd' = Some i"
      for d fd' i
    proof -
      from d(2) obtain fd where fd: "?dh d = Some fd"
        "fd' = fd\<lparr>d_installed_flow := (if d \<in> ?R then None else d_installed_flow fd)\<rparr>"
        by (rule cut_links_SomeD)
      with d(3) have nR: "d \<notin> ?R" and di: "d_installed_flow fd = Some i"
        by (auto split: if_splits)
      from D(8)[OF d(1) fd(1) di] obtain fi where "i \<in> set (installed_flows s)"
        "iheap s i = Some fi" "d \<in> set (desired_refs fi)" by blast
      then have "d \<in> ?R" unfolding s5 by force
      with nR show ?thesis by simp
    qed
  qed simp_all
  then have "put_ok H s' (t\<lparr>dheap := ?dh'\<rparr>)"
    using p il v(1,2) s5(3,4) gm by (simp add: put_ok_def)
  with r show ?thesis by blast
qed

end
